(* ===== verification/Emicro_Prelude.thy ===== *)
theory Emicro_Prelude
  imports Main "HOL-Library.Word"
begin

text \<open>
  What the components share: the values of Go that the code uses (bytes, strings, slices,
  fixed-width integers), a run-time panic or fatal error as a value, and the generic lemmas on them.

  \<^item> A Go \<^verbatim>\<open>[]byte\<close> or \<^verbatim>\<open>string\<close> is the list of its bytes; the capacity of a slice is its
    length, as \<^verbatim>\<open>make\<close> and a conversion from a string leave it. A nil slice and an empty one are
    the same list: the code never tells them apart.
  \<^item> A \<^verbatim>\<open>uint8\<close>, \<^verbatim>\<open>uint32\<close> or \<^verbatim>\<open>uint64\<close> is a word of that width; an \<^verbatim>\<open>int64\<close> is an
    \<open>int\<close> brought back into range by \<open>i64\<close> where the code does arithmetic on it.
  \<^item> A computation that may panic returns \<open>go_panic + 'a\<close>; \<open>go_bind\<close> runs the rest of the code
    only when there was no panic.
\<close>

section \<open>Collections of facts\<close>

named_theorems go_eval \<open>how the primitives of Go evaluate\<close>
named_theorems codec_facts \<open>what the encoders write and the decoders read\<close>
named_theorems pick_facts \<open>what the pickers return\<close>

section \<open>Types\<close>

type_synonym byte = "8 word"
type_synonym u32 = "32 word"
type_synonym u64 = "64 word"
type_synonym bytes = "byte list"
type_synonym go_string = "byte list"

datatype go_panic =
    IndexOutOfRange
  | SliceOutOfRange
  | NilMapWrite
  | NilDereference
  | TypeAssertion
  | ReflectPanic
  | CloseOfClosed
  | SendOnClosed
  | NonPositiveArg
  | FatalError
  | ExplicitPanic bytes

type_synonym 'a go = "go_panic + 'a"

fun go_bind :: "'a go \<Rightarrow> ('a \<Rightarrow> 'b go) \<Rightarrow> 'b go" where
  "go_bind (Inl p) f = Inl p"
| "go_bind (Inr x) f = f x"

lemma go_bind_cong [fundef_cong]:
  "m = m' \<Longrightarrow> (\<And>x. m' = Inr x \<Longrightarrow> f x = f' x) \<Longrightarrow> go_bind m f = go_bind m' f'"
  by (cases m') auto

lemma go_bind_Inr_iff: "go_bind m f = Inr y \<longleftrightarrow> (\<exists>x. m = Inr x \<and> f x = Inr y)"
  by (cases m) auto

lemma go_bindE:
  assumes "go_bind m f = Inr y"
  obtains x where "m = Inr x" "f x = Inr y"
  using assms by (cases m) auto

lemma go_bind_Inl_iff: "go_bind m f = Inl p \<longleftrightarrow> m = Inl p \<or> (\<exists>x. m = Inr x \<and> f x = Inl p)"
  by (cases m) auto

lemma go_bind_assoc: "go_bind (go_bind m f) g = go_bind m (\<lambda>x. go_bind (f x) g)"
  by (cases m) auto

section \<open>Integers\<close>

text \<open>The value an \<^verbatim>\<open>int64\<close> holds after arithmetic whose mathematical result is \<open>x\<close>.\<close>

definition i64 :: "int \<Rightarrow> int" where
  "i64 x = (x + 2 ^ 63) mod 2 ^ 64 - 2 ^ 63"

lemma i64_id: "- (2 ^ 63) \<le> x \<Longrightarrow> x < 2 ^ 63 \<Longrightarrow> i64 x = x"
  by (simp add: i64_def)

lemma i64_range: "- (2 ^ 63) \<le> i64 x \<and> i64 x < 2 ^ 63"
proof -
  have "0 \<le> (x + 2 ^ 63) mod 2 ^ 64" "(x + 2 ^ 63) mod 2 ^ 64 < (2 ^ 64 :: int)" by simp_all
  then show ?thesis unfolding i64_def by simp
qed

lemma i64_wraps: "i64 (2 ^ 63) = - (2 ^ 63)"
  by (simp add: i64_def)

section \<open>Strings\<close>

text \<open>The bytes of an ASCII literal.\<close>

definition go_str :: "string \<Rightarrow> go_string" where
  "go_str s = map of_char s"

lemma go_str_simps [simp]:
  "go_str [] = []"
  "go_str (c # s) = of_char c # go_str s"
  by (simp_all add: go_str_def)

lemma length_go_str [simp]: "length (go_str s) = length s"
  by (simp add: go_str_def)

section \<open>Slices\<close>

text \<open>\<open>xs[i:j]\<close>, \<open>xs[i:]\<close>, \<open>xs[:j]\<close> and \<open>xs[i]\<close>, each with its bounds check.\<close>

definition slice :: "'a list \<Rightarrow> int \<Rightarrow> int \<Rightarrow> 'a list go" where
  "slice xs i j =
     (if 0 \<le> i \<and> i \<le> j \<and> j \<le> int (length xs)
      then Inr (take (nat (j - i)) (drop (nat i) xs)) else Inl SliceOutOfRange)"

definition slice_from :: "'a list \<Rightarrow> int \<Rightarrow> 'a list go" where
  "slice_from xs i = slice xs i (int (length xs))"

definition slice_to :: "'a list \<Rightarrow> int \<Rightarrow> 'a list go" where
  "slice_to xs j = slice xs 0 j"

definition index_at :: "'a list \<Rightarrow> int \<Rightarrow> 'a go" where
  "index_at xs i = (if 0 \<le> i \<and> i < int (length xs) then Inr (xs ! nat i) else Inl IndexOutOfRange)"

lemma slice_ok [go_eval]:
  "0 \<le> i \<Longrightarrow> i \<le> j \<Longrightarrow> j \<le> int (length xs) \<Longrightarrow>
     slice xs i j = Inr (take (nat (j - i)) (drop (nat i) xs))"
  by (simp add: slice_def)

lemma slice_bad [go_eval]:
  "\<not> (0 \<le> i \<and> i \<le> j \<and> j \<le> int (length xs)) \<Longrightarrow> slice xs i j = Inl SliceOutOfRange"
  by (auto simp: slice_def)

lemma slice_from_append [go_eval]:
  "slice_from (xs @ ys) (int (length xs)) = Inr ys"
  by (simp add: slice_from_def slice_def)

lemma slice_from_ok [go_eval]:
  "0 \<le> i \<Longrightarrow> i \<le> int (length xs) \<Longrightarrow> slice_from xs i = Inr (drop (nat i) xs)"
  by (simp add: slice_from_def slice_def nat_diff_distrib' take_all)

lemma slice_from_numeral [go_eval]:
  "numeral k \<le> length xs \<Longrightarrow> slice_from xs (numeral k) = Inr (drop (numeral k) xs)"
  by (simp add: slice_from_ok)

lemma slice_to_append [go_eval]: "slice_to (xs @ ys) (int (length xs)) = Inr xs"
  by (simp add: slice_to_def slice_def)

lemma slice_to_ok [go_eval]:
  "0 \<le> j \<Longrightarrow> j \<le> int (length xs) \<Longrightarrow> slice_to xs j = Inr (take (nat j) xs)"
  by (simp add: slice_to_def slice_def)

lemma slice_to_neg [go_eval]: "j < 0 \<Longrightarrow> slice_to xs j = Inl SliceOutOfRange"
  by (simp add: slice_to_def slice_def)

lemma index_at_ok [go_eval]: "0 \<le> i \<Longrightarrow> i < int (length xs) \<Longrightarrow> index_at xs i = Inr (xs ! nat i)"
  by (simp add: index_at_def)

lemma index_at_bad [go_eval]: "int (length xs) \<le> i \<Longrightarrow> index_at xs i = Inl IndexOutOfRange"
  by (simp add: index_at_def)

text \<open>\<^verbatim>\<open>copy(dst, src)\<close> writes as many elements as fit.\<close>

definition go_copy :: "'a list \<Rightarrow> 'a list \<Rightarrow> 'a list" where
  "go_copy dst src = take (length dst) src @ drop (length src) dst"

lemma length_go_copy [simp]: "length (go_copy dst src) = length dst"
  by (simp add: go_copy_def min_def)

lemma go_copy_fits: "length src \<le> length dst \<Longrightarrow> go_copy dst src = src @ drop (length src) dst"
  by (simp add: go_copy_def)

text \<open>\<^verbatim>\<open>bytes.IndexByte\<close>: the first position of a byte, or -1.\<close>

definition index_byte :: "bytes \<Rightarrow> byte \<Rightarrow> int" where
  "index_byte bs c =
     (let n = length (takeWhile (\<lambda>b. b \<noteq> c) bs) in if n < length bs then int n else -1)"

lemma takeWhile_neq_append:
  "c \<notin> set xs \<Longrightarrow> takeWhile (\<lambda>b. b \<noteq> c) (xs @ c # ys) = xs"
  by (induction xs) auto

lemma index_byte_append [go_eval]: "c \<notin> set xs \<Longrightarrow> index_byte (xs @ c # ys) c = int (length xs)"
  by (simp add: index_byte_def takeWhile_neq_append Let_def)

lemma takeWhile_neq_length:
  "length (takeWhile (\<lambda>b. b \<noteq> c) xs) < length xs \<longleftrightarrow> c \<in> set xs"
  by (induction xs) auto

lemma index_byte_absent_iff: "index_byte xs c = -1 \<longleftrightarrow> c \<notin> set xs"
  by (simp add: index_byte_def Let_def takeWhile_neq_length)

lemma index_byte_absent [go_eval]: "c \<notin> set xs \<Longrightarrow> index_byte xs c = -1"
  by (simp add: index_byte_absent_iff)

lemma index_byte_present:
  assumes "c \<in> set xs"
  obtains ys zs where "xs = ys @ c # zs" "c \<notin> set ys" "index_byte xs c = int (length ys)"
proof -
  from assms obtain ys zs where "xs = ys @ c # zs" "c \<notin> set ys"
    by (metis split_list_first)
  then show thesis using that by (simp add: index_byte_append)
qed

section \<open>Counting\<close>

lemma length_filter_update:
  "t < length xs \<Longrightarrow> length (filter P (xs[t := y])) + (if P (xs ! t) then 1 else 0) =
     length (filter P xs) + (if P y then 1 else 0)"
proof (induction xs arbitrary: t)
  case (Cons x xs)
  then show ?case by (cases t) (auto split: if_splits)
qed simp

lemma length_filter_mono: "(\<And>x. P x \<Longrightarrow> Q x) \<Longrightarrow> length (filter P xs) \<le> length (filter Q xs)"
  by (induction xs) (auto intro: le_SucI)

lemma list_all_update: "list_all P xs \<Longrightarrow> P y \<Longrightarrow> list_all P (xs[t := y])"
  by (auto simp: list_all_iff dest: set_update_subset_insert [THEN subsetD])

section \<open>Traces\<close>

text \<open>The labels of the steps that lead from one state to another.\<close>

inductive trace :: "('s \<Rightarrow> 'e \<Rightarrow> 's \<Rightarrow> bool) \<Rightarrow> 's \<Rightarrow> 'e list \<Rightarrow> 's \<Rightarrow> bool" for step and s where
  trace_Nil: "trace step s [] s"
| trace_snoc: "trace step s es t \<Longrightarrow> step t e u \<Longrightarrow> trace step s (es @ [e]) u"

lemma trace_one: "step s e t \<Longrightarrow> trace step s [e] t"
  using trace_snoc [OF trace_Nil] by force

lemma trace_append:
  assumes "trace step t fs u" and "trace step s es t"
  shows "trace step s (es @ fs) u"
  using assms
proof (induction rule: trace.induct)
  case (trace_snoc fs u e v)
  then show ?case using trace.trace_snoc [of step s "es @ fs" u e v] by simp
qed simp

lemma trace_Cons: "step s e t \<Longrightarrow> trace step t fs u \<Longrightarrow> trace step s (e # fs) u"
  using trace_append [OF _ trace_one] by force

lemma trace_lastE:
  assumes "trace step s (es @ [e]) u"
  obtains t where "trace step s es t" "step t e u"
  using assms by (cases rule: trace.cases) auto

text \<open>What holds at first and is kept by every step holds at the end.\<close>

lemma trace_invariant:
  assumes "trace step s es t" and "P [] s"
    and "\<And>es t e u. trace step s es t \<Longrightarrow> P es t \<Longrightarrow> step t e u \<Longrightarrow> P (es @ [e]) u"
  shows "P es t"
  using assms(1) by (induction rule: trace.induct) (use assms(2,3) in blast)+

section \<open>Big-endian \<^verbatim>\<open>uint32\<close>\<close>

definition be_put_u32 :: "u32 \<Rightarrow> bytes" where
  "be_put_u32 v = [ucast (drop_bit 24 v), ucast (drop_bit 16 v), ucast (drop_bit 8 v), ucast v]"

definition be_get_u32 :: "bytes \<Rightarrow> u32 go" where
  "be_get_u32 b =
     (if length b < 4 then Inl IndexOutOfRange
      else Inr (or (or (or (ucast (b ! 3)) (push_bit 8 (ucast (b ! 2))))
                       (push_bit 16 (ucast (b ! 1))))
                   (push_bit 24 (ucast (b ! 0)))))"

lemma length_be_put_u32 [simp]: "length (be_put_u32 v) = 4"
  by (simp add: be_put_u32_def)

lemma be_word_bits:
  fixes v :: u32
  assumes "n < 32"
  shows "bit (or (or (or (ucast (ucast v :: byte)) (push_bit 8 (ucast (ucast (drop_bit 8 v) :: byte))))
            (push_bit 16 (ucast (ucast (drop_bit 16 v) :: byte))))
        (push_bit 24 (ucast (ucast (drop_bit 24 v) :: byte))) :: u32) n = bit v n"
proof -
  consider "n < 8" | "8 \<le> n" "n < 16" | "16 \<le> n" "n < 24" | "24 \<le> n" using assms by linarith
  then show ?thesis using assms
    by cases (auto simp: bit_or_iff bit_push_bit_iff bit_drop_bit_eq bit_ucast_iff)
qed

lemma be_word_join:
  fixes v :: u32
  shows "or (or (or (ucast (ucast v :: byte)) (push_bit 8 (ucast (ucast (drop_bit 8 v) :: byte))))
            (push_bit 16 (ucast (ucast (drop_bit 16 v) :: byte))))
        (push_bit 24 (ucast (ucast (drop_bit 24 v) :: byte))) = v"
  by (rule bit_word_eqI) (rule be_word_bits, simp)

lemma be_get_put_u32 [simp]: "be_get_u32 (be_put_u32 v) = Inr v"
  by (simp add: be_get_u32_def be_put_u32_def nth_Cons' be_word_join)

end
