(* ===== verification/Errs.thy ===== *)
theory Errs
  imports Emicro_Prelude
begin

text \<open>
  The errors of the program (\<^verbatim>\<open>internal/errs/error.go\<close>), those of the standard library that the
  code compares with, and those it creates from a text. \<open>error_text\<close> is the \<^verbatim>\<open>Error()\<close> method: the
  server sends only this text to the client. Chinese text is given by its UTF-8 bytes.
\<close>

section \<open>Status codes of gRPC\<close>

datatype grpc_code =
    CodeOK | Canceled | Unknown | InvalidArgument | DeadlineExceeded | NotFound | AlreadyExists
  | PermissionDenied | ResourceExhausted | FailedPrecondition | Aborted | OutOfRange
  | Unimplemented | Internal | Unavailable | DataLoss | Unauthenticated

section \<open>Errors\<close>

datatype go_error =
    ServiceTypError
  | ReadLenDataError
  | ReadRespFailError
  | InvalidServiceName
  | ClientNotAllWritten
  | OnewayError
  | ProtoSerializeTypError
  | ProtoDeserializeTypError
  | ServerResponseFailed go_error
  | ClientConnDeaded go_error
  | NotFoundServiceMethod go_string
  | IoEOF
  | IoErrUnexpectedEOF
  | NetErrClosed
  | NetOpError go_error
  | CtxCanceled
  | CtxDeadlineExceeded
  | ErrNoSubConnAvailable
  | StatusError grpc_code bytes
  | TextError bytes

fun error_text :: "go_error \<Rightarrow> bytes" where
  "error_text ServiceTypError = go_str ''emicro: service type must be a first level pointer''"
| "error_text ReadLenDataError = go_str ''emicro: could not read the length data''"
| "error_text ReadRespFailError = go_str ''emicro: unable to read response''"
| "error_text InvalidServiceName = go_str ''emicro: Invalid service name''"
| "error_text ClientNotAllWritten = go_str ''emicro: client not all data is written''"
| "error_text OnewayError =
     go_str ''emicro: '' @ [232, 191, 153, 230, 152, 175] @ go_str '' oneway ''
     @ [232, 176, 131, 231, 148, 168]"
| "error_text ProtoSerializeTypError =
     go_str ''serialize: serialization must be proto Message Type''"
| "error_text ProtoDeserializeTypError =
     go_str ''serialize: deserialization must be proto.Message type''"
| "error_text (ServerResponseFailed e) =
     go_str ''emicro: server sending response failed: '' @ error_text e"
| "error_text (ClientConnDeaded e) =
     go_str ''emicro: client unable to get an available connection '' @ error_text e"
| "error_text (NotFoundServiceMethod m) =
     go_str ''server: '' @ [230, 156, 170, 230, 137, 190, 229, 136, 176, 231, 155, 174, 230, 160,
       135, 230, 156, 141, 229, 138, 161, 230, 150, 185, 230, 179, 149] @ go_str '' '' @ m"
| "error_text IoEOF = go_str ''EOF''"
| "error_text IoErrUnexpectedEOF = go_str ''unexpected EOF''"
| "error_text NetErrClosed = go_str ''use of closed network connection''"
| "error_text (NetOpError e) = go_str ''accept tcp: '' @ error_text e"
| "error_text CtxCanceled = go_str ''context canceled''"
| "error_text CtxDeadlineExceeded = go_str ''context deadline exceeded''"
| "error_text ErrNoSubConnAvailable = go_str ''no SubConn is available''"
| "error_text (StatusError c msg) = msg"
| "error_text (TextError t) = t"

text \<open>
  The text of an error that the program itself creates is never empty, so a client that looks at
  the length of \<^verbatim>\<open>resp.Error\<close> sees that there was one.
\<close>

fun own_error :: "go_error \<Rightarrow> bool" where
  "own_error (StatusError c msg) = False"
| "own_error (TextError t) = False"
| "own_error e = True"

lemma own_error_text: "own_error e \<Longrightarrow> error_text e \<noteq> []"
  by (cases e) simp_all

end
