(* ===== verification/RpcTypes.thy ===== *)
theory RpcTypes
  imports Errs
begin

text \<open>
  What client and server of the RPC packages share: the call context (\<^verbatim>\<open>rpc/context.go\<close> and what the
  code uses of \<^verbatim>\<open>context.Context\<close>), decimal numbers as \<^verbatim>\<open>strconv\<close> reads and writes them, and the
  message reader \<^verbatim>\<open>tcp.ReadMsg\<close>, which is a stub that panics.
\<close>

section \<open>Contexts\<close>

text \<open>Deadlines are in nanoseconds since the epoch; \<open>ctxErr\<close> is what \<^verbatim>\<open>ctx.Err()\<close> returns now.\<close>

record go_ctx =
  ctxOneway :: bool
  ctxDeadline :: "int option"
  ctxErr :: "go_error option"

definition Background :: go_ctx where
  "Background = \<lparr>ctxOneway = False, ctxDeadline = None, ctxErr = None\<rparr>"

definition CtxWithOneway :: "go_ctx \<Rightarrow> go_ctx" where
  "CtxWithOneway ctx = ctx\<lparr>ctxOneway := True\<rparr>"

definition isOneway :: "go_ctx \<Rightarrow> bool" where
  "isOneway ctx = ctxOneway ctx"

text \<open>A child context keeps the earlier of its parent's deadline and its own.\<close>

definition WithDeadline :: "go_ctx \<Rightarrow> int \<Rightarrow> go_ctx" where
  "WithDeadline ctx d =
     ctx\<lparr>ctxDeadline := (case ctxDeadline ctx of None \<Rightarrow> Some d | Some p \<Rightarrow> Some (min p d))\<rparr>"

definition UnixMilli_time :: "int \<Rightarrow> int" where
  "UnixMilli_time ms = ms * 1000000"

definition time_UnixMilli :: "int \<Rightarrow> int" where
  "time_UnixMilli ns = ns div 1000000"

section \<open>Decimal numbers\<close>

definition is_digit :: "byte \<Rightarrow> bool" where
  "is_digit b \<longleftrightarrow> 48 \<le> b \<and> b \<le> 57"

fun digits_value :: "nat \<Rightarrow> bytes \<Rightarrow> nat option" where
  "digits_value acc [] = Some acc"
| "digits_value acc (b # bs) =
     (if is_digit b then digits_value (10 * acc + (unat b - 48)) bs else None)"

text \<open>\<^verbatim>\<open>strconv.ParseInt(s, 10, 64)\<close>: \<open>None\<close> where it returns an error.\<close>

definition ParseInt :: "go_string \<Rightarrow> int option" where
  "ParseInt s =
     (let (neg, ds) = (case s of [] \<Rightarrow> (False, [])
                       | b # r \<Rightarrow> if b = 45 then (True, r) else if b = 43 then (False, r) else (False, s))
      in if ds = [] then None
         else case digits_value 0 ds of
                None \<Rightarrow> None
              | Some n \<Rightarrow> (let x = (if neg then - int n else int n) in
                          if - (2 ^ 63) \<le> x \<and> x < 2 ^ 63 then Some x else None))"

text \<open>\<^verbatim>\<open>strconv.FormatInt(x, 10)\<close>\<close>

fun nat_digits :: "nat \<Rightarrow> bytes" where
  "nat_digits n = (if n < 10 then [of_nat (48 + n)] else nat_digits (n div 10) @ [of_nat (48 + n mod 10)])"

declare nat_digits.simps [simp del]

definition FormatInt :: "int \<Rightarrow> go_string" where
  "FormatInt x = (if x < 0 then 45 # nat_digits (nat (- x)) else nat_digits (nat x))"

lemma digits_value_append:
  "digits_value acc (xs @ ys) = (case digits_value acc xs of None \<Rightarrow> None | Some n \<Rightarrow> digits_value n ys)"
  by (induction xs arbitrary: acc) auto

lemma digit_byte:
  assumes "d < 10"
  shows "is_digit (of_nat (48 + d))" and "unat (of_nat (48 + d) :: byte) = 48 + d"
proof -
  show u: "unat (of_nat (48 + d) :: byte) = 48 + d"
    using assms by (simp add: unat_of_nat take_bit_nat_eq_self del: of_nat_add)
  show "is_digit (of_nat (48 + d))"
    using assms u by (simp add: is_digit_def word_le_nat_alt del: of_nat_add)
qed

lemma digits_value_nat_digits: "digits_value 0 (nat_digits n) = Some n"
proof (induction n rule: nat_digits.induct)
  case (1 n)
  then show ?case
    by (cases "n < 10")
      (simp_all add: nat_digits.simps [of n] digits_value_append digit_byte del: of_nat_add)
qed

lemma nat_digits_digit: "b \<in> set (nat_digits n) \<Longrightarrow> is_digit b"
proof (induction n rule: nat_digits.induct)
  case (1 n)
  then show ?case
    using digit_byte(1) [of n] digit_byte(1) [of "n mod 10"]
    by (subst (asm) (2) nat_digits.simps) (auto split: if_splits simp del: of_nat_add)
qed

lemma nat_digits_nonempty [simp]: "nat_digits n \<noteq> []"
  by (subst nat_digits.simps) simp

lemma nat_digits_Cons:
  obtains b r where "nat_digits n = b # r" "b \<noteq> 45" "b \<noteq> 43"
proof -
  obtain b r where n: "nat_digits n = b # r" by (cases "nat_digits n") auto
  then have "is_digit b" using nat_digits_digit [of b n] by simp
  then have "b \<noteq> 45" "b \<noteq> 43" by (auto simp: is_digit_def)
  with n show thesis using that by blast
qed

lemma ParseInt_FormatInt:
  assumes "- (2 ^ 63) \<le> x" and "x < 2 ^ 63"
  shows "ParseInt (FormatInt x) = Some x"
proof (cases "x < 0")
  case True
  then show ?thesis using assms by (simp add: ParseInt_def FormatInt_def digits_value_nat_digits)
next
  case False
  obtain b r where d: "nat_digits (nat x) = b # r" "b \<noteq> 45" "b \<noteq> 43" by (rule nat_digits_Cons)
  then have "digits_value 0 (b # r) = Some (nat x)" using digits_value_nat_digits [of "nat x"] by simp
  with False d assms show ?thesis by (simp add: ParseInt_def FormatInt_def)
qed

lemma ParseInt_empty [simp]: "ParseInt [] = None"
  by (simp add: ParseInt_def)

section \<open>The message reader\<close>

text \<open>\<^verbatim>\<open>tcp.ReadMsg\<close> is declared and panics; \<open>read_result\<close> is what one call of it may give.\<close>

type_synonym read_result = "(bytes \<times> go_error option) go"

definition ReadMsg :: read_result where
  "ReadMsg = Inl (ExplicitPanic [])"

end
