(* ===== verification/Message.thy ===== *)
theory Message
  imports Emicro_Prelude "HOL-Library.Multiset"
begin

text \<open>
  The wire format of the RPC protocol: \<^verbatim>\<open>rpc/message/request.go\<close> and
  \<^verbatim>\<open>rpc/message/response.go\<close>. A message is a header of \<^verbatim>\<open>HeadLength\<close> bytes (fifteen fixed bytes,
  then for a request the service name, the method name and the metadata, for a response the error
  text) and a body of \<^verbatim>\<open>BodyLength\<close> bytes. The encoders write into a buffer of the announced size
  through a cursor, the decoders cut the buffer with \<^verbatim>\<open>bytes.IndexByte\<close>; both panic where Go's
  bounds checks do.

  The order in which Go ranges over a map is not determined: the operations that range over
  \<^verbatim>\<open>Meta\<close> take the sequence of its entries as an argument, and \<open>range_order\<close> says which sequences
  are possible.
\<close>

section \<open>Data\<close>

type_synonym go_map = "go_string \<rightharpoonup> go_string"

definition splitter :: byte where
  "splitter = 10"

definition pairSplitter :: byte where
  "pairSplitter = 13"

record request =
  reqHeadLength :: u32
  reqBodyLength :: u32
  reqMessageId :: u32
  reqVersion :: byte
  reqCompresser :: byte
  reqSerializer :: byte
  reqServiceName :: go_string
  reqMethodName :: go_string
  reqMeta :: "go_map option"
  reqData :: bytes

record response =
  respHeadLength :: u32
  respBodyLength :: u32
  respMessageId :: u32
  respVersion :: byte
  respCompresser :: byte
  respSerializer :: byte
  respError :: bytes
  respData :: bytes

text \<open>A nil map ranges over nothing and reads as empty.\<close>

fun map_lookup :: "go_map option \<Rightarrow> go_string \<Rightarrow> go_string" where
  "map_lookup None k = []"
| "map_lookup (Some m) k = (case m k of None \<Rightarrow> [] | Some v \<Rightarrow> v)"

definition range_order :: "go_map option \<Rightarrow> (go_string \<times> go_string) list \<Rightarrow> bool" where
  "range_order m kvs \<longleftrightarrow>
     distinct (map fst kvs) \<and> map_of kvs = (case m of None \<Rightarrow> Map.empty | Some f \<Rightarrow> f)"

section \<open>Writing\<close>

text \<open>\<^verbatim>\<open>binary.BigEndian.PutUint32(bs[i:i+4], v)\<close> and \<^verbatim>\<open>bs[i] = b\<close>.\<close>

definition put_u32_at :: "bytes \<Rightarrow> nat \<Rightarrow> u32 \<Rightarrow> bytes go" where
  "put_u32_at bs i v =
     go_bind (slice bs (int i) (int (i + 4)))
       (\<lambda>_. Inr (take i bs @ be_put_u32 v @ drop (i + 4) bs))"

definition set_byte :: "bytes \<Rightarrow> nat \<Rightarrow> byte \<Rightarrow> bytes go" where
  "set_byte bs i b = go_bind (index_at bs (int i)) (\<lambda>_. Inr (bs[i := b]))"

text \<open>
  The first six writes of both encoders: the three lengths and identifiers, then version,
  compression and serialization.
\<close>

definition put_fixed :: "bytes \<Rightarrow> u32 \<Rightarrow> u32 \<Rightarrow> u32 \<Rightarrow> byte \<Rightarrow> byte \<Rightarrow> byte \<Rightarrow> bytes go" where
  "put_fixed bs hl bl mid ver cmp ser =
     go_bind (put_u32_at bs 0 hl) (\<lambda>bs.
     go_bind (put_u32_at bs 4 bl) (\<lambda>bs.
     go_bind (put_u32_at bs 8 mid) (\<lambda>bs.
     go_bind (set_byte bs 12 ver) (\<lambda>bs.
     go_bind (set_byte bs 13 cmp) (\<lambda>bs.
     set_byte bs 14 ser)))))"

text \<open>
  The cursor \<^verbatim>\<open>cur\<close> is the tail of \<^verbatim>\<open>bs\<close> that is still to be written: a pair of what lies before it
  and of itself. \<open>put_bytes\<close> is \<^verbatim>\<open>copy(cur, s); cur = cur[len(s):]\<close>, \<open>put_sep\<close> is
  \<^verbatim>\<open>cur[0] = c; cur = cur[1:]\<close>.
\<close>

type_synonym cursor = "bytes \<times> bytes"

fun put_bytes :: "cursor \<Rightarrow> bytes \<Rightarrow> cursor go" where
  "put_bytes (pre, cur) s =
     (let cur = go_copy cur s in
      go_bind (slice_from cur (int (length s)))
        (\<lambda>rest. Inr (pre @ take (length s) cur, rest)))"

fun put_sep :: "cursor \<Rightarrow> byte \<Rightarrow> cursor go" where
  "put_sep (pre, cur) c =
     go_bind (index_at cur 0) (\<lambda>_.
     go_bind (slice_from (cur[0 := c]) 1) (\<lambda>rest. Inr (pre @ [c], rest)))"

fun put_pairs :: "cursor \<Rightarrow> (go_string \<times> go_string) list \<Rightarrow> cursor go" where
  "put_pairs cu [] = Inr cu"
| "put_pairs cu ((key, value) # kvs) =
     go_bind (put_bytes cu key) (\<lambda>cu.
     go_bind (put_sep cu pairSplitter) (\<lambda>cu.
     go_bind (put_bytes cu value) (\<lambda>cu.
     go_bind (put_sep cu splitter) (\<lambda>cu.
     put_pairs cu kvs))))"

definition EncodeReq :: "request \<Rightarrow> (go_string \<times> go_string) list \<Rightarrow> bytes go" where
  "EncodeReq req kvs =
     go_bind (put_fixed (replicate (unat (reqHeadLength req + reqBodyLength req)) 0)
                (reqHeadLength req) (reqBodyLength req) (reqMessageId req)
                (reqVersion req) (reqCompresser req) (reqSerializer req)) (\<lambda>bs.
     go_bind (slice_from bs 15) (\<lambda>cur.
     go_bind (put_bytes (take 15 bs, cur) (reqServiceName req)) (\<lambda>cu.
     go_bind (put_sep cu splitter) (\<lambda>cu.
     go_bind (put_bytes cu (reqMethodName req)) (\<lambda>cu.
     go_bind (put_sep cu splitter) (\<lambda>cu.
     go_bind (put_pairs cu kvs) (\<lambda>(pre, cur).
     Inr (pre @ go_copy cur (reqData req)))))))))"

definition EncodeResp :: "response \<Rightarrow> bytes go" where
  "EncodeResp resp =
     go_bind (put_fixed (replicate (unat (respHeadLength resp + respBodyLength resp)) 0)
                (respHeadLength resp) (respBodyLength resp) (respMessageId resp)
                (respVersion resp) (respCompresser resp) (respSerializer resp)) (\<lambda>bs.
     go_bind (slice_from bs 15) (\<lambda>cur.
     go_bind (put_bytes (take 15 bs, cur) (respError resp)) (\<lambda>(pre, cur).
     Inr (pre @ go_copy cur (respData resp)))))"

text \<open>\<^verbatim>\<open>headLength\<close> is an \<^verbatim>\<open>int\<close>, converted to \<^verbatim>\<open>uint32\<close> at the end.\<close>

fun pairs_length :: "(go_string \<times> go_string) list \<Rightarrow> nat" where
  "pairs_length [] = 0"
| "pairs_length ((key, value) # kvs) = length key + 1 + length value + 1 + pairs_length kvs"

definition CalculateHeaderLength_req :: "(go_string \<times> go_string) list \<Rightarrow> request \<Rightarrow> request" where
  "CalculateHeaderLength_req kvs req =
     req\<lparr>reqHeadLength :=
       of_nat (15 + length (reqServiceName req) + 1 + length (reqMethodName req) + 1
               + pairs_length kvs)\<rparr>"

definition CalculateBodyLength_req :: "request \<Rightarrow> request" where
  "CalculateBodyLength_req req = req\<lparr>reqBodyLength := of_nat (length (reqData req))\<rparr>"

definition CalculateHeaderLength_resp :: "response \<Rightarrow> response" where
  "CalculateHeaderLength_resp resp =
     resp\<lparr>respHeadLength := 15 + of_nat (length (respError resp))\<rparr>"

definition CalculateBodyLength_resp :: "response \<Rightarrow> response" where
  "CalculateBodyLength_resp resp = resp\<lparr>respBodyLength := of_nat (length (respData resp))\<rparr>"

section \<open>Reading\<close>

text \<open>\<^verbatim>\<open>index := bytes.IndexByte(h, splitter); name = h[:index]; h = h[index+1:]\<close>\<close>

definition take_field :: "bytes \<Rightarrow> (go_string \<times> bytes) go" where
  "take_field h =
     (let index = index_byte h splitter in
      go_bind (slice_to h index) (\<lambda>name.
      go_bind (slice_from h (index + 1)) (\<lambda>rest. Inr (name, rest))))"

text \<open>\<^verbatim>\<open>pair\<close> is one metadata line, cut at its first \<^verbatim>\<open>pairSplitter\<close>.\<close>

definition split_pair :: "bytes \<Rightarrow> (go_string \<times> go_string) go" where
  "split_pair pair =
     (let pairIndex = index_byte pair pairSplitter in
      go_bind (slice_to pair pairIndex) (\<lambda>key.
      go_bind (slice_from pair (pairIndex + 1)) (\<lambda>value. Inr (key, value))))"

lemma slice_from_shorter:
  "slice_from h (index_byte h c + 1) = Inr rest \<Longrightarrow> index_byte h c \<noteq> -1 \<Longrightarrow>
     length rest < length h"
  by (auto simp: slice_from_def slice_def index_byte_def Let_def split: if_splits)

function decode_meta :: "bytes \<Rightarrow> go_map \<Rightarrow> go_map go" where
  "decode_meta header meta =
     (let index = index_byte header splitter in
      if index = -1 then Inr meta
      else go_bind (slice_to header index) (\<lambda>pair.
           go_bind (split_pair pair) (\<lambda>kv.
           go_bind (slice_from header (index + 1)) (\<lambda>rest.
           decode_meta rest (meta(fst kv \<mapsto> snd kv))))))"
  by pat_completeness auto
termination
  by (relation "measure (\<lambda>(header, meta). length header)") (auto dest: slice_from_shorter)

declare decode_meta.simps [simp del]

text \<open>
  The local map \<^verbatim>\<open>meta\<close> is filled by the loop and then goes out of scope: \<^verbatim>\<open>DecodeReq\<close> never stores
  it in \<^verbatim>\<open>req.Meta\<close>, which keeps its zero value nil.
\<close>

definition DecodeReq :: "bytes \<Rightarrow> request go" where
  "DecodeReq bs =
     go_bind (go_bind (slice_to bs 4) be_get_u32) (\<lambda>hl.
     go_bind (go_bind (slice bs 4 8) be_get_u32) (\<lambda>bl.
     go_bind (go_bind (slice bs 8 12) be_get_u32) (\<lambda>mid.
     go_bind (index_at bs 12) (\<lambda>ver.
     go_bind (index_at bs 13) (\<lambda>cmp.
     go_bind (index_at bs 14) (\<lambda>ser.
     go_bind (slice bs 15 (uint hl)) (\<lambda>header.
     go_bind (take_field header) (\<lambda>(svc, header).
     go_bind (take_field header) (\<lambda>(mth, header).
     go_bind (if header \<noteq> [] \<or> index_byte header splitter \<noteq> -1
              then decode_meta header Map.empty else Inr Map.empty) (\<lambda>meta.
     go_bind (if bl \<noteq> 0 then slice_from bs (uint hl) else Inr []) (\<lambda>data.
     Inr \<lparr>reqHeadLength = hl, reqBodyLength = bl, reqMessageId = mid, reqVersion = ver,
          reqCompresser = cmp, reqSerializer = ser, reqServiceName = svc, reqMethodName = mth,
          reqMeta = None, reqData = data\<rparr>)))))))))))"

definition DecodeResp :: "bytes \<Rightarrow> response go" where
  "DecodeResp bs =
     go_bind (go_bind (slice_to bs 4) be_get_u32) (\<lambda>hl.
     go_bind (go_bind (slice bs 4 8) be_get_u32) (\<lambda>bl.
     go_bind (go_bind (slice bs 8 12) be_get_u32) (\<lambda>mid.
     go_bind (index_at bs 12) (\<lambda>ver.
     go_bind (index_at bs 13) (\<lambda>cmp.
     go_bind (index_at bs 14) (\<lambda>ser.
     go_bind (slice bs 15 (uint hl)) (\<lambda>err.
     go_bind (slice_from bs (uint hl)) (\<lambda>data.
     Inr \<lparr>respHeadLength = hl, respBodyLength = bl, respMessageId = mid, respVersion = ver,
          respCompresser = cmp, respSerializer = ser, respError = err, respData = data\<rparr>))))))))"

section \<open>What the encoders write\<close>

text \<open>The cursor operations in closed form: they write what fits and panic otherwise.\<close>

lemma put_bytes_eq:
  "put_bytes (pre, cur) s =
     (if length s \<le> length cur then Inr (pre @ s, drop (length s) cur) else Inl SliceOutOfRange)"
  by (simp add: go_copy_fits slice_from_def slice_def Let_def take_all)

lemma put_sep_eq:
  "put_sep (pre, cur) c =
     (if cur = [] then Inl IndexOutOfRange else Inr (pre @ [c], tl cur))"
  by (cases cur) (simp_all add: index_at_def slice_from_def slice_def nat_diff_distrib')

declare put_bytes.simps [simp del] put_sep.simps [simp del]
lemmas cursor_eqs = put_bytes_eq put_sep_eq

fun pair_bytes :: "(go_string \<times> go_string) list \<Rightarrow> bytes" where
  "pair_bytes [] = []"
| "pair_bytes ((key, value) # kvs) = key @ [pairSplitter] @ value @ [splitter] @ pair_bytes kvs"

lemma length_pair_bytes [simp]: "length (pair_bytes kvs) = pairs_length kvs"
  by (induction kvs rule: pair_bytes.induct) auto

lemma put_pairs_fits:
  "pairs_length kvs \<le> length cur \<Longrightarrow>
     put_pairs (pre, cur) kvs = Inr (pre @ pair_bytes kvs, drop (pairs_length kvs) cur)"
  by (induction kvs arbitrary: pre cur rule: pair_bytes.induct)
    (auto simp: cursor_eqs drop_eq_Nil drop_Suc[symmetric] tl_drop ac_simps)

lemma put_pairs_overflow:
  "length cur < pairs_length kvs \<Longrightarrow> \<exists>p. put_pairs (pre, cur) kvs = Inl p"
proof (induction kvs arbitrary: pre cur rule: pair_bytes.induct)
  case 1
  then show ?case by simp
next
  case (2 k v kvs)
  then show ?case
    by (cases "length key + 1 + length value + 1 \<le> length cur") (auto simp: cursor_eqs)
qed

definition fixed_bytes :: "u32 \<Rightarrow> u32 \<Rightarrow> u32 \<Rightarrow> byte \<Rightarrow> byte \<Rightarrow> byte \<Rightarrow> bytes" where
  "fixed_bytes hl bl mid ver cmp ser =
     be_put_u32 hl @ be_put_u32 bl @ be_put_u32 mid @ [ver, cmp, ser]"

lemma length_fixed_bytes [simp]: "length (fixed_bytes hl bl mid ver cmp ser) = 15"
  by (simp add: fixed_bytes_def)

lemma put_u32_at_eq:
  "put_u32_at bs i v =
     (if i + 4 \<le> length bs then Inr (take i bs @ be_put_u32 v @ drop (i + 4) bs)
      else Inl SliceOutOfRange)"
  by (simp add: put_u32_at_def slice_def)

lemma set_byte_eq:
  "set_byte bs i b = (if i < length bs then Inr (bs[i := b]) else Inl IndexOutOfRange)"
  by (simp add: set_byte_def index_at_def)

lemma put_fixed_fits:
  assumes "15 \<le> length bs"
  shows "put_fixed bs hl bl mid ver cmp ser = Inr (fixed_bytes hl bl mid ver cmp ser @ drop 15 bs)"
proof -
  obtain b0 b1 b2 b3 b4 b5 b6 b7 b8 b9 b10 b11 b12 b13 b14 rest
    where "bs = [b0, b1, b2, b3, b4, b5, b6, b7, b8, b9, b10, b11, b12, b13, b14] @ rest"
    using assms by (auto simp: numeral_eq_Suc Suc_le_length_iff)
  then show ?thesis
    by (simp add: put_fixed_def put_u32_at_eq set_byte_eq fixed_bytes_def be_put_u32_def)
qed

lemma put_fixed_overflow: "length bs < 15 \<Longrightarrow> \<exists>p. put_fixed bs hl bl mid ver cmp ser = Inl p"
  by (auto simp: put_fixed_def put_u32_at_eq set_byte_eq)

definition req_header :: "request \<Rightarrow> (go_string \<times> go_string) list \<Rightarrow> bytes" where
  "req_header req kvs =
     fixed_bytes (reqHeadLength req) (reqBodyLength req) (reqMessageId req)
       (reqVersion req) (reqCompresser req) (reqSerializer req)
     @ reqServiceName req @ [splitter] @ reqMethodName req @ [splitter] @ pair_bytes kvs"

definition resp_header :: "response \<Rightarrow> bytes" where
  "resp_header resp =
     fixed_bytes (respHeadLength resp) (respBodyLength resp) (respMessageId resp)
       (respVersion resp) (respCompresser resp) (respSerializer resp) @ respError resp"

lemma length_req_header:
  "length (req_header req kvs) =
     15 + length (reqServiceName req) + 1 + length (reqMethodName req) + 1 + pairs_length kvs"
  by (simp add: req_header_def)

lemma length_resp_header: "length (resp_header resp) = 15 + length (respError resp)"
  by (simp add: resp_header_def)

lemma EncodeReq_fits:
  assumes "length (req_header req kvs) \<le> unat (reqHeadLength req + reqBodyLength req)"
  shows "EncodeReq req kvs =
    Inr (req_header req kvs @
         go_copy (replicate (unat (reqHeadLength req + reqBodyLength req)
                             - length (req_header req kvs)) 0) (reqData req))"
  using assms unfolding length_req_header
  by (auto simp add: EncodeReq_def put_fixed_fits slice_from_numeral cursor_eqs put_pairs_fits
      req_header_def)

lemma put_pairs_overflow_bind:
  "length cur < pairs_length kvs \<Longrightarrow> \<exists>p. go_bind (put_pairs (pre, cur) kvs) f = Inl p"
  using put_pairs_overflow [of cur kvs pre] by auto

lemma EncodeReq_overflow:
  assumes "unat (reqHeadLength req + reqBodyLength req) < length (req_header req kvs)"
  shows "\<exists>p. EncodeReq req kvs = Inl p"
proof (cases "unat (reqHeadLength req + reqBodyLength req) < 15")
  case True
  then show ?thesis
    using put_fixed_overflow [of "replicate (unat (reqHeadLength req + reqBodyLength req)) 0"
        "reqHeadLength req" "reqBodyLength req" "reqMessageId req"
        "reqVersion req" "reqCompresser req" "reqSerializer req"]
    by (auto simp: EncodeReq_def)
next
  case False
  then show ?thesis
    using assms unfolding length_req_header EncodeReq_def
    by (auto simp: put_fixed_fits slice_from_numeral cursor_eqs intro!: put_pairs_overflow_bind)
qed

lemma EncodeResp_fits:
  assumes "length (resp_header resp) \<le> unat (respHeadLength resp + respBodyLength resp)"
  shows "EncodeResp resp =
    Inr (resp_header resp @
         go_copy (replicate (unat (respHeadLength resp + respBodyLength resp)
                             - length (resp_header resp)) 0) (respData resp))"
  using assms unfolding length_resp_header
  by (simp add: EncodeResp_def put_fixed_fits slice_from_numeral cursor_eqs resp_header_def)

lemma EncodeResp_overflow:
  assumes "unat (respHeadLength resp + respBodyLength resp) < length (resp_header resp)"
  shows "\<exists>p. EncodeResp resp = Inl p"
proof (cases "unat (respHeadLength resp + respBodyLength resp) < 15")
  case True
  then show ?thesis
    using put_fixed_overflow [of "replicate (unat (respHeadLength resp + respBodyLength resp)) 0"
        "respHeadLength resp" "respBodyLength resp" "respMessageId resp"
        "respVersion resp" "respCompresser resp" "respSerializer resp"]
    by (auto simp: EncodeResp_def)
next
  case False
  then show ?thesis
    using assms unfolding length_resp_header EncodeResp_def
    by (auto simp: put_fixed_fits slice_from_numeral cursor_eqs)
qed

lemma go_copy_exact: "length src = n \<Longrightarrow> go_copy (replicate n x) src = src"
  by (simp add: go_copy_def)

section \<open>What the decoders read\<close>

fun complete_lines :: "bytes \<Rightarrow> bytes \<Rightarrow> bytes list" where
  "complete_lines acc [] = []"
| "complete_lines acc (b # bs) =
     (if b = splitter then rev acc # complete_lines [] bs else complete_lines (b # acc) bs)"

lemma complete_lines_none: "splitter \<notin> set bs \<Longrightarrow> complete_lines acc bs = []"
  by (induction bs arbitrary: acc) auto

lemma complete_lines_append:
  "splitter \<notin> set xs \<Longrightarrow>
     complete_lines acc (xs @ splitter # ys) = (rev acc @ xs) # complete_lines [] ys"
  by (induction xs arbitrary: acc) auto

lemma take_field_append:
  "splitter \<notin> set xs \<Longrightarrow> take_field (xs @ splitter # ys) = Inr (xs, ys)"
  by (simp add: take_field_def go_eval slice_from_def slice_def nat_add_distrib Let_def)

lemma take_field_none: "splitter \<notin> set h \<Longrightarrow> take_field h = Inl SliceOutOfRange"
  by (simp add: take_field_def go_eval)

lemma split_pair_append:
  "pairSplitter \<notin> set xs \<Longrightarrow> split_pair (xs @ pairSplitter # ys) = Inr (xs, ys)"
  by (simp add: split_pair_def go_eval slice_from_def slice_def nat_add_distrib Let_def)

lemma split_pair_none: "pairSplitter \<notin> set h \<Longrightarrow> split_pair h = Inl SliceOutOfRange"
  by (simp add: split_pair_def go_eval)

lemma decode_meta_none: "splitter \<notin> set h \<Longrightarrow> decode_meta h m = Inr m"
  by (simp add: decode_meta.simps [of h m] go_eval)

lemma decode_meta_line:
  "splitter \<notin> set xs \<Longrightarrow>
     decode_meta (xs @ splitter # ys) m =
       go_bind (split_pair xs) (\<lambda>kv. decode_meta ys (m(fst kv \<mapsto> snd kv)))"
  by (simp add: decode_meta.simps [of "xs @ splitter # ys"] go_eval slice_from_def slice_def
      nat_add_distrib Let_def)

definition line_key :: "bytes \<Rightarrow> go_string" where
  "line_key l = takeWhile (\<lambda>b. b \<noteq> pairSplitter) l"

definition line_value :: "bytes \<Rightarrow> go_string" where
  "line_value l = tl (dropWhile (\<lambda>b. b \<noteq> pairSplitter) l)"

definition add_line :: "bytes \<Rightarrow> go_map \<Rightarrow> go_map" where
  "add_line l m = m(line_key l \<mapsto> line_value l)"

lemma line_key_append [simp]: "pairSplitter \<notin> set k \<Longrightarrow> line_key (k @ pairSplitter # v) = k"
  by (simp add: line_key_def takeWhile_neq_append)

lemma line_value_append [simp]: "pairSplitter \<notin> set k \<Longrightarrow> line_value (k @ pairSplitter # v) = v"
  unfolding line_value_def by (subst dropWhile_append2) auto

lemma split_pair_line:
  "split_pair l = (if pairSplitter \<in> set l then Inr (line_key l, line_value l) else Inl SliceOutOfRange)"
proof (cases "pairSplitter \<in> set l")
  case True
  then obtain k v where "l = k @ pairSplitter # v" "pairSplitter \<notin> set k"
    by (metis split_list_first)
  then show ?thesis by (simp add: split_pair_append)
qed (simp add: split_pair_none)

text \<open>The loop over the metadata is a fold over the complete lines of the rest of the header.\<close>

lemma decode_meta_lines:
  "decode_meta h m =
     (if \<forall>l \<in> set (complete_lines [] h). pairSplitter \<in> set l
      then Inr (fold add_line (complete_lines [] h) m) else Inl SliceOutOfRange)"
proof (induction h arbitrary: m rule: measure_induct_rule [where f = length])
  case (less h)
  show ?case
  proof (cases "splitter \<in> set h")
    case True
    then obtain xs ys where h: "h = xs @ splitter # ys" "splitter \<notin> set xs"
      by (metis split_list_first)
    then show ?thesis
      using less [of ys] by (simp add: decode_meta_line split_pair_line complete_lines_append
          add_line_def [of xs m])
  next
    case False
    then show ?thesis by (simp add: decode_meta_none complete_lines_none)
  qed
qed

lemma take_field_lines:
  "take_field h =
     (if splitter \<in> set h
      then Inr (takeWhile (\<lambda>b. b \<noteq> splitter) h, tl (dropWhile (\<lambda>b. b \<noteq> splitter) h))
      else Inl SliceOutOfRange)"
proof (cases "splitter \<in> set h")
  case True
  then obtain k v where "h = k @ splitter # v" "splitter \<notin> set k"
    by (metis split_list_first)
  moreover from this have "dropWhile (\<lambda>b. b \<noteq> splitter) (k @ splitter # v) = splitter # v"
    by (subst dropWhile_append2) auto
  ultimately show ?thesis by (simp add: take_field_append takeWhile_neq_append)
qed (simp add: take_field_none)

text \<open>
  A reference decoder: a request frame is accepted when the fixed part is there, \<^verbatim>\<open>HeadLength\<close> lies
  between fifteen and the length of the frame, and the header holds two complete lines and then
  only complete lines with a pair separator in them.
\<close>

definition frame_header :: "bytes \<Rightarrow> u32 \<Rightarrow> bytes" where
  "frame_header bs hl = take (unat hl - 15) (drop 15 bs)"

definition header_ok :: "bytes \<Rightarrow> bool" where
  "header_ok h \<longleftrightarrow>
     2 \<le> length (complete_lines [] h) \<and>
     (\<forall>l \<in> set (drop 2 (complete_lines [] h)). pairSplitter \<in> set l)"

definition parse_u32 :: "bytes \<Rightarrow> u32" where
  "parse_u32 bs = (case be_get_u32 bs of Inl p \<Rightarrow> 0 | Inr v \<Rightarrow> v)"

definition req_frame_ok :: "bytes \<Rightarrow> bool" where
  "req_frame_ok bs \<longleftrightarrow>
     15 \<le> length bs \<and> 15 \<le> unat (parse_u32 bs) \<and> unat (parse_u32 bs) \<le> length bs
     \<and> header_ok (frame_header bs (parse_u32 bs))"

definition frame_request :: "bytes \<Rightarrow> request" where
  "frame_request bs =
     (let hl = parse_u32 bs; bl = parse_u32 (drop 4 bs);
          ls = complete_lines [] (frame_header bs hl)
      in \<lparr>reqHeadLength = hl, reqBodyLength = bl, reqMessageId = parse_u32 (drop 8 bs),
          reqVersion = bs ! 12, reqCompresser = bs ! 13, reqSerializer = bs ! 14,
          reqServiceName = ls ! 0, reqMethodName = ls ! 1, reqMeta = None,
          reqData = (if bl = 0 then [] else drop (unat hl) bs)\<rparr>)"

lemma complete_lines_rec:
  "splitter \<in> set h \<Longrightarrow>
     complete_lines [] h = takeWhile (\<lambda>b. b \<noteq> splitter) h
                           # complete_lines [] (tl (dropWhile (\<lambda>b. b \<noteq> splitter) h))"
proof -
  assume "splitter \<in> set h"
  then obtain k v where h: "h = k @ splitter # v" "splitter \<notin> set k"
    by (metis split_list_first)
  moreover from this have "dropWhile (\<lambda>b. b \<noteq> splitter) h = splitter # v"
    by (simp, subst dropWhile_append2) auto
  ultimately show ?thesis by (simp add: complete_lines_append takeWhile_neq_append)
qed

lemma be_get_u32_take:
  "4 \<le> length bs \<Longrightarrow> be_get_u32 (take 4 bs) = Inr (parse_u32 bs)"
  by (simp add: be_get_u32_def parse_u32_def)

lemma short_frame_panics: "length bs < 15 \<Longrightarrow> \<exists>p. DecodeReq bs = Inl p"
  by (auto simp: DecodeReq_def slice_to_def slice_def index_at_def be_get_u32_def)


lemma decode_meta_guard:
  "(if h \<noteq> [] \<or> index_byte h splitter \<noteq> -1 then decode_meta h m else Inr m) = decode_meta h m"
  by (auto simp: index_byte_absent_iff decode_meta_none)

lemma DecodeReq_long:
  assumes "15 \<le> length bs"
  shows "DecodeReq bs =
    (let hl = parse_u32 bs; bl = parse_u32 (drop 4 bs) in
     go_bind (slice bs 15 (uint hl)) (\<lambda>header.
     go_bind (take_field header) (\<lambda>(svc, header).
     go_bind (take_field header) (\<lambda>(mth, header).
     go_bind (decode_meta header Map.empty) (\<lambda>meta.
     go_bind (if bl \<noteq> 0 then slice_from bs (uint hl) else Inr []) (\<lambda>data.
     Inr \<lparr>reqHeadLength = hl, reqBodyLength = bl, reqMessageId = parse_u32 (drop 8 bs),
          reqVersion = bs ! 12, reqCompresser = bs ! 13, reqSerializer = bs ! 14,
          reqServiceName = svc, reqMethodName = mth,
          reqMeta = None, reqData = data\<rparr>))))))"
  unfolding DecodeReq_def decode_meta_guard using assms
  by (simp add: slice_to_ok slice_ok index_at_ok be_get_u32_take Let_def)

lemma slice_frame:
  "slice bs 15 (uint hl) =
     (if 15 \<le> unat hl \<and> unat hl \<le> length bs then Inr (frame_header bs hl) else Inl SliceOutOfRange)"
proof -
  obtain n where "unat hl = n" "uint hl = int n" by simp
  then show ?thesis by (auto simp: slice_def frame_header_def nat_diff_distrib')
qed

lemma slice_from_word:
  "unat hl \<le> length bs \<Longrightarrow> slice_from bs (uint (hl :: u32)) = Inr (drop (unat hl) bs)"
proof -
  obtain n where "unat hl = n" "uint hl = int n" by simp
  then show "unat hl \<le> length bs \<Longrightarrow> ?thesis" by (simp add: slice_from_ok)
qed


lemma header_lines:
  assumes "splitter \<in> set h" and "h2 = tl (dropWhile (\<lambda>b. b \<noteq> splitter) h)" and "splitter \<in> set h2"
    and "h3 = tl (dropWhile (\<lambda>b. b \<noteq> splitter) h2)"
  shows "complete_lines [] h =
    takeWhile (\<lambda>b. b \<noteq> splitter) h # takeWhile (\<lambda>b. b \<noteq> splitter) h2 # complete_lines [] h3"
  using assms complete_lines_rec [of h] complete_lines_rec [of h2] by simp

lemma DecodeReq_framed:
  assumes bounds: "15 \<le> length bs" "15 \<le> unat (parse_u32 bs)" "unat (parse_u32 bs) \<le> length bs"
  shows "DecodeReq bs =
    (if header_ok (frame_header bs (parse_u32 bs)) then Inr (frame_request bs) else Inl SliceOutOfRange)"
proof -
  define h where "h = frame_header bs (parse_u32 bs)"
  define h2 where "h2 = tl (dropWhile (\<lambda>b. b \<noteq> splitter) h)"
  define h3 where "h3 = tl (dropWhile (\<lambda>b. b \<noteq> splitter) h2)"
  have sl: "slice bs 15 (uint (parse_u32 bs)) = Inr h" using bounds by (simp add: slice_frame h_def)
  have fr: "frame_header bs (parse_u32 bs) = h" by (simp add: h_def)
  consider "splitter \<notin> set h" | "splitter \<in> set h" "splitter \<notin> set h2"
    | "splitter \<in> set h" "splitter \<in> set h2" by blast
  then show ?thesis
  proof cases
    case 1
    then show ?thesis
      by (simp add: DecodeReq_long bounds Let_def sl fr take_field_lines header_ok_def complete_lines_none)
  next
    case 2
    then have "complete_lines [] h = [takeWhile (\<lambda>b. b \<noteq> splitter) h]"
      using complete_lines_rec [of h] by (simp add: h2_def complete_lines_none)
    with 2 show ?thesis
      by (simp add: DecodeReq_long bounds Let_def sl fr take_field_lines header_ok_def flip: h2_def)
  next
    case 3
    have ls: "complete_lines [] h =
      takeWhile (\<lambda>b. b \<noteq> splitter) h # takeWhile (\<lambda>b. b \<noteq> splitter) h2 # complete_lines [] h3"
      using 3 by (simp add: header_lines [OF _ h2_def _ h3_def])
    from 3 show ?thesis
      by (simp add: DecodeReq_long bounds Let_def sl fr take_field_lines header_ok_def ls
          decode_meta_lines frame_request_def slice_from_word
          flip: h2_def h3_def)
  qed
qed

section \<open>Round trips\<close>

definition clean_pairs :: "(go_string \<times> go_string) list \<Rightarrow> bool" where
  "clean_pairs kvs \<longleftrightarrow>
     list_all (\<lambda>(k, v). splitter \<notin> set k \<and> pairSplitter \<notin> set k \<and> splitter \<notin> set v) kvs"

definition clean_request :: "request \<Rightarrow> (go_string \<times> go_string) list \<Rightarrow> bool" where
  "clean_request req kvs \<longleftrightarrow>
     splitter \<notin> set (reqServiceName req) \<and> splitter \<notin> set (reqMethodName req) \<and> clean_pairs kvs"

lemma splitter_neq [simp]: "splitter \<noteq> pairSplitter" "pairSplitter \<noteq> splitter"
  by (simp_all add: splitter_def pairSplitter_def)

lemma decode_meta_pairs:
  "clean_pairs kvs \<Longrightarrow> decode_meta (pair_bytes kvs) m = Inr (m ++ map_of (rev kvs))"
proof (induction kvs arbitrary: m rule: pair_bytes.induct)
  case 1
  then show ?case by (simp add: decode_meta_none)
next
  case (2 k v kvs)
  then have clean: "splitter \<notin> set (k @ pairSplitter # v)" "pairSplitter \<notin> set k" "clean_pairs kvs"
    by (auto simp: clean_pairs_def)
  have "decode_meta (pair_bytes ((k, v) # kvs)) m = decode_meta (pair_bytes kvs) (m(k \<mapsto> v))"
    using decode_meta_line [OF clean(1), of "pair_bytes kvs" m] clean(2)
    by (simp add: split_pair_append)
  with 2 clean show ?case by (simp add: map_add_def fun_eq_iff split: option.splits)
qed

lemma decode_meta_range_order:
  assumes "clean_pairs kvs" and "range_order (Some m) kvs"
  shows "decode_meta (pair_bytes kvs) Map.empty = Inr m"
proof -
  have "map_of (rev kvs) = map_of kvs"
    using assms(2) by (intro map_of_eqI) (auto simp: range_order_def rev_map [symmetric])
  with assms show ?thesis by (simp add: decode_meta_pairs range_order_def)
qed

lemma parse_u32_put [simp]: "parse_u32 (be_put_u32 v @ ys) = v"
proof -
  have "be_get_u32 (be_put_u32 v @ ys) = be_get_u32 (be_put_u32 v)"
    by (simp add: be_get_u32_def be_put_u32_def nth_Cons')
  then show ?thesis by (simp add: parse_u32_def)
qed

lemma parse_u32_append: "4 \<le> length xs \<Longrightarrow> parse_u32 (xs @ ys) = parse_u32 xs"
  by (auto simp: parse_u32_def be_get_u32_def nth_append)

lemma parse_fixed [simp]:
  "parse_u32 (fixed_bytes hl bl mid ver cmp ser @ ys) = hl"
  "parse_u32 (drop 4 (fixed_bytes hl bl mid ver cmp ser) @ ys) = bl"
  "parse_u32 (drop 8 (fixed_bytes hl bl mid ver cmp ser) @ ys) = mid"
  by (simp_all add: fixed_bytes_def)

lemma nth_fixed [simp]:
  "(fixed_bytes hl bl mid ver cmp ser @ ys) ! 12 = ver"
  "(fixed_bytes hl bl mid ver cmp ser @ ys) ! 13 = cmp"
  "(fixed_bytes hl bl mid ver cmp ser @ ys) ! 14 = ser"
  by (simp_all add: fixed_bytes_def nth_append be_put_u32_def)

lemma complete_lines_pairs:
  "clean_pairs kvs \<Longrightarrow> \<forall>l \<in> set (complete_lines [] (pair_bytes kvs)). pairSplitter \<in> set l"
  using decode_meta_pairs [of kvs Map.empty] decode_meta_lines [of "pair_bytes kvs" Map.empty]
  by (metis Inl_Inr_False)

lemma DecodeReq_bytes:
  assumes clean: "clean_request req kvs"
    and hl: "unat (reqHeadLength req) = length (req_header req kvs)"
    and bl: "reqBodyLength req = 0 \<longleftrightarrow> reqData req = []"
  shows "DecodeReq (req_header req kvs @ reqData req) = Inr (req\<lparr>reqMeta := None\<rparr>)"
proof -
  let ?bs = "req_header req kvs @ reqData req"
  define rest where "rest = reqServiceName req @ [splitter] @ reqMethodName req @ [splitter] @ pair_bytes kvs"
  have p: "parse_u32 ?bs = reqHeadLength req" "parse_u32 (drop 4 ?bs) = reqBodyLength req"
    "parse_u32 (drop 8 ?bs) = reqMessageId req"
    "?bs ! 12 = reqVersion req" "?bs ! 13 = reqCompresser req" "?bs ! 14 = reqSerializer req"
    by (simp_all add: req_header_def)
  have dt: "drop (unat (reqHeadLength req)) ?bs = reqData req" by (simp add: hl)
  have h: "frame_header ?bs (reqHeadLength req) = rest"
    unfolding frame_header_def hl by (simp add: length_req_header rest_def) (simp add: req_header_def)
  have ls: "complete_lines [] rest =
      reqServiceName req # reqMethodName req # complete_lines [] (pair_bytes kvs)"
    using clean by (simp add: clean_request_def complete_lines_append rest_def)
  have "header_ok rest"
    using clean complete_lines_pairs [of kvs] ls by (simp add: header_ok_def clean_request_def)
  moreover have "frame_request ?bs = req\<lparr>reqMeta := None\<rparr>"
    using bl dt by (intro request.equality) (simp_all add: frame_request_def Let_def p h ls del: drop_append)
  moreover have "15 \<le> length ?bs" "15 \<le> unat (parse_u32 ?bs)" "unat (parse_u32 ?bs) \<le> length ?bs"
    by (simp_all add: p hl length_req_header)
  ultimately show ?thesis by (simp add: DecodeReq_framed p h)
qed

text \<open>Responses need no separator: the error text is the rest of the header.\<close>

definition resp_frame_ok :: "bytes \<Rightarrow> bool" where
  "resp_frame_ok bs \<longleftrightarrow>
     15 \<le> length bs \<and> 15 \<le> unat (parse_u32 bs) \<and> unat (parse_u32 bs) \<le> length bs"

definition frame_response :: "bytes \<Rightarrow> response" where
  "frame_response bs =
     \<lparr>respHeadLength = parse_u32 bs, respBodyLength = parse_u32 (drop 4 bs),
      respMessageId = parse_u32 (drop 8 bs),
      respVersion = bs ! 12, respCompresser = bs ! 13, respSerializer = bs ! 14,
      respError = frame_header bs (parse_u32 bs), respData = drop (unat (parse_u32 bs)) bs\<rparr>"

lemma DecodeResp_framed: "resp_frame_ok bs \<Longrightarrow> DecodeResp bs = Inr (frame_response bs)"
  by (auto simp: DecodeResp_def resp_frame_ok_def frame_response_def slice_to_ok slice_ok index_at_ok
      be_get_u32_take slice_frame slice_from_word)

lemma DecodeResp_bad:
  assumes "\<not> resp_frame_ok bs"
  shows "\<exists>p. DecodeResp bs = Inl p"
proof (cases "length bs < 15")
  case True
  then show ?thesis
    by (auto simp: DecodeResp_def slice_to_def slice_def index_at_def be_get_u32_def)
next
  case False
  then have "slice bs 15 (uint (parse_u32 bs)) = Inl SliceOutOfRange"
    using assms by (auto simp: slice_frame resp_frame_ok_def)
  with False show ?thesis
    by (simp add: DecodeResp_def slice_to_ok slice_ok index_at_ok be_get_u32_take)
qed

lemma DecodeResp_bytes:
  assumes "unat (respHeadLength resp) = length (resp_header resp)"
  shows "DecodeResp (resp_header resp @ respData resp) = Inr resp"
proof -
  let ?bs = "resp_header resp @ respData resp"
  have p: "parse_u32 ?bs = respHeadLength resp" "parse_u32 (drop 4 ?bs) = respBodyLength resp"
    "parse_u32 (drop 8 ?bs) = respMessageId resp"
    "?bs ! 12 = respVersion resp" "?bs ! 13 = respCompresser resp" "?bs ! 14 = respSerializer resp"
    by (simp_all add: resp_header_def)
  have dt: "drop (unat (respHeadLength resp)) ?bs = respData resp" by (simp add: assms)
  have h: "frame_header ?bs (respHeadLength resp) = respError resp"
    unfolding frame_header_def assms by (simp add: length_resp_header) (simp add: resp_header_def)
  have "frame_response ?bs = resp"
    using dt by (intro response.equality) (simp_all add: frame_response_def p h del: drop_append)
  moreover have "resp_frame_ok ?bs" by (simp add: resp_frame_ok_def p assms length_resp_header)
  ultimately show ?thesis by (simp add: DecodeResp_framed)
qed

text \<open>The lengths as the senders compute them.\<close>

definition sized_request :: "request \<Rightarrow> (go_string \<times> go_string) list \<Rightarrow> request" where
  "sized_request req kvs = CalculateBodyLength_req (CalculateHeaderLength_req kvs req)"

definition sized_response :: "response \<Rightarrow> response" where
  "sized_response resp = CalculateBodyLength_resp (CalculateHeaderLength_resp resp)"

lemma unat_add_small:
  "unat (a :: u32) + unat b < 2 ^ 32 \<Longrightarrow> unat (a + b) = unat a + unat b"
  by (simp add: unat_word_ariths)

lemma unat_of_nat_small: "n < 2 ^ 32 \<Longrightarrow> unat (of_nat n :: u32) = n"
  by (simp add: unat_of_nat take_bit_nat_eq_self)

lemma sized_request_lengths:
  assumes "length (req_header req kvs) + length (reqData req) < 2 ^ 32"
  shows "unat (reqHeadLength (sized_request req kvs)) = length (req_header req kvs)"
    and "unat (reqBodyLength (sized_request req kvs)) = length (reqData req)"
    and "unat (reqHeadLength (sized_request req kvs) + reqBodyLength (sized_request req kvs)) =
         length (req_header req kvs) + length (reqData req)"
proof -
  have hl: "reqHeadLength (sized_request req kvs) = of_nat (length (req_header req kvs))"
    and bl: "reqBodyLength (sized_request req kvs) = of_nat (length (reqData req))"
    by (simp_all add: sized_request_def CalculateBodyLength_req_def CalculateHeaderLength_req_def
        length_req_header)
  show 1: "unat (reqHeadLength (sized_request req kvs)) = length (req_header req kvs)"
    and 2: "unat (reqBodyLength (sized_request req kvs)) = length (reqData req)"
    using assms unfolding hl bl by (simp_all only: unat_of_nat_small)
  show "unat (reqHeadLength (sized_request req kvs) + reqBodyLength (sized_request req kvs)) =
         length (req_header req kvs) + length (reqData req)"
    using assms 1 2 by (simp add: unat_add_small)
qed

text \<open>Two ranges over the same map see the same entries, possibly in another order.\<close>

lemma range_order_mset:
  assumes "range_order m kvs" and "range_order m kvs'"
  shows "mset kvs = mset kvs'"
proof -
  have d: "distinct (map fst kvs)" "distinct (map fst kvs')" and eq: "map_of kvs = map_of kvs'"
    using assms by (simp_all add: range_order_def)
  have "set kvs = set kvs'"
    using map_of_eq_Some_iff [OF d(1)] map_of_eq_Some_iff [OF d(2)] eq by auto
  then show ?thesis using d by (simp add: set_eq_iff_mset_eq_distinct distinct_map)
qed

lemma pairs_length_sum:
  "pairs_length kvs = sum_list (map (\<lambda>kv. length (fst kv) + length (snd kv) + 2) kvs)"
  by (induction kvs rule: pairs_length.induct) simp_all

lemma pairs_length_mset:
  assumes "mset kvs = mset kvs'"
  shows "pairs_length kvs = pairs_length kvs'"
proof -
  let ?f = "\<lambda>kv :: go_string \<times> go_string. length (fst kv) + length (snd kv) + 2"
  have "sum_list (map ?f kvs) = sum_mset (image_mset ?f (mset kvs))" for kvs
    by (simp only: mset_map [symmetric] sum_mset_sum_list)
  then show ?thesis by (simp only: pairs_length_sum assms)
qed

lemma sized_request_order:
  "mset kvs = mset kvs' \<Longrightarrow> sized_request req kvs = sized_request req kvs'"
  using pairs_length_mset [of kvs kvs'] by (simp add: sized_request_def CalculateHeaderLength_req_def)

lemma sized_request_header:
  "length (req_header (sized_request req kvs) kvs') = length (req_header req kvs')"
  "reqData (sized_request req kvs) = reqData req"
  by (simp_all add: length_req_header sized_request_def CalculateBodyLength_req_def
      CalculateHeaderLength_req_def)

lemma clean_sized_request: "clean_request (sized_request req kvs) kvs' \<longleftrightarrow> clean_request req kvs'"
  by (simp add: clean_request_def sized_request_def CalculateBodyLength_req_def
      CalculateHeaderLength_req_def)

lemma EncodeReq_sized:
  assumes fits: "length (req_header req kvs) + length (reqData req) < 2 ^ 32"
  shows "EncodeReq (sized_request req kvs) kvs =
           Inr (req_header (sized_request req kvs) kvs @ reqData req)"
proof -
  note len = sized_request_lengths [OF fits] sized_request_header
  show ?thesis
    by (subst EncodeReq_fits) (simp_all add: len go_copy_exact)
qed

lemma DecodeReq_sized:
  assumes fits: "length (req_header req kvs) + length (reqData req) < 2 ^ 32"
    and clean: "clean_request req kvs"
  shows "DecodeReq (req_header (sized_request req kvs) kvs @ reqData req) =
           Inr ((sized_request req kvs)\<lparr>reqMeta := None\<rparr>)"
proof -
  note len = sized_request_lengths [OF fits] sized_request_header
  have "reqBodyLength (sized_request req kvs) = 0 \<longleftrightarrow> reqData req = []"
    using len(2) by (metis length_0_conv unat_0 unat_eq_zero)
  then show ?thesis
    using DecodeReq_bytes [of "sized_request req kvs" kvs] clean
    by (simp add: clean_sized_request len)
qed

lemma sized_response_lengths:
  assumes "length (resp_header resp) + length (respData resp) < 2 ^ 32"
  shows "unat (respHeadLength (sized_response resp)) = length (resp_header resp)"
    and "unat (respBodyLength (sized_response resp)) = length (respData resp)"
    and "unat (respHeadLength (sized_response resp) + respBodyLength (sized_response resp)) =
         length (resp_header resp) + length (respData resp)"
    and "length (resp_header (sized_response resp)) = length (resp_header resp)"
    and "respData (sized_response resp) = respData resp"
proof -
  have hl: "respHeadLength (sized_response resp) = of_nat (length (resp_header resp))"
    and bl: "respBodyLength (sized_response resp) = of_nat (length (respData resp))"
    by (simp_all add: sized_response_def CalculateBodyLength_resp_def CalculateHeaderLength_resp_def
        length_resp_header)
  show 1: "unat (respHeadLength (sized_response resp)) = length (resp_header resp)"
    and 2: "unat (respBodyLength (sized_response resp)) = length (respData resp)"
    using assms unfolding hl bl by (simp_all only: unat_of_nat_small)
  show "unat (respHeadLength (sized_response resp) + respBodyLength (sized_response resp)) =
         length (resp_header resp) + length (respData resp)"
    using assms 1 2 by (simp add: unat_add_small)
  show "length (resp_header (sized_response resp)) = length (resp_header resp)"
    and "respData (sized_response resp) = respData resp"
    by (simp_all add: length_resp_header sized_response_def CalculateBodyLength_resp_def
        CalculateHeaderLength_resp_def)
qed

lemma EncodeResp_sized:
  assumes fits: "length (resp_header resp) + length (respData resp) < 2 ^ 32"
  shows "EncodeResp (sized_response resp) = Inr (resp_header (sized_response resp) @ respData resp)"
proof -
  note len = sized_response_lengths [OF fits]
  show ?thesis
    by (subst EncodeResp_fits) (simp_all add: len go_copy_exact)
qed

lemma DecodeResp_sized:
  assumes fits: "length (resp_header resp) + length (respData resp) < 2 ^ 32"
  shows "DecodeResp (resp_header (sized_response resp) @ respData resp) = Inr (sized_response resp)"
  using DecodeResp_bytes [of "sized_response resp"] sized_response_lengths [OF fits] by simp

section \<open>Framing\<close>

text \<open>
  The first eight bytes of a message announce its size (\<^verbatim>\<open>lenBytes\<close> in \<^verbatim>\<open>rpc/tcp/read.go\<close>, whose
  \<^verbatim>\<open>ReadMsg\<close> is not implemented). \<open>split_frames\<close> is the loop a reader of the protocol runs: it
  cuts one frame after the other off a stream of bytes and stops at an incomplete one.
\<close>

definition frame_size :: "bytes \<Rightarrow> nat" where
  "frame_size bs = unat (parse_u32 bs) + unat (parse_u32 (drop 4 bs))"

function split_frames :: "bytes \<Rightarrow> bytes list" where
  "split_frames bs =
     (if 8 \<le> length bs \<and> 8 \<le> frame_size bs \<and> frame_size bs \<le> length bs
      then take (frame_size bs) bs # split_frames (drop (frame_size bs) bs) else [])"
  by pat_completeness auto
termination
  by (relation "measure length") auto

declare split_frames.simps [simp del]

lemma frame_size_append: "8 \<le> length xs \<Longrightarrow> frame_size (xs @ ys) = frame_size xs"
  by (simp add: frame_size_def parse_u32_append)

text \<open>
  What sender and receiver agree on: a message that may be sent encodes to a frame that announces
  its own length, and decodes to what the receiver is meant to see of it.
\<close>

locale wire_codec =
  fixes enc :: "'m \<Rightarrow> bytes go"
    and dec :: "bytes \<Rightarrow> 'r go"
    and sendable :: "'m \<Rightarrow> bool"
    and view :: "'m \<Rightarrow> 'r"
  assumes enc_total: "sendable m \<Longrightarrow> \<exists>bs. enc m = Inr bs"
    and dec_enc: "sendable m \<Longrightarrow> enc m = Inr bs \<Longrightarrow> dec bs = Inr (view m)"
    and enc_sized: "sendable m \<Longrightarrow> enc m = Inr bs \<Longrightarrow> 8 \<le> length bs \<and> frame_size bs = length bs"
begin

lemma split_one:
  assumes "sendable m" and "enc m = Inr bs"
  shows "split_frames (bs @ rest) = bs # split_frames rest"
  using enc_sized [OF assms] by (simp add: split_frames.simps [of "bs @ rest"] frame_size_append)

lemma split_stream:
  assumes "list_all sendable ms" and "list_all2 (\<lambda>m bs. enc m = Inr bs) ms frames"
  shows "map dec (split_frames (concat frames)) = map (Inr \<circ> view) ms"
  using assms(2,1)
proof (induction rule: list_all2_induct)
  case Nil
  then show ?case by (simp add: split_frames.simps)
next
  case (Cons m ms bs frames)
  then show ?case using dec_enc [of m bs] split_one [of m bs] by simp
qed

lemma stream_exists:
  "list_all sendable ms \<Longrightarrow> \<exists>frames. list_all2 (\<lambda>m bs. enc m = Inr bs) ms frames"
proof (induction ms)
  case Nil
  show ?case by (rule exI [of _ "[]"]) simp
next
  case (Cons m ms)
  then obtain frames bs where "list_all2 (\<lambda>m bs. enc m = Inr bs) ms frames" "enc m = Inr bs"
    using enc_total [of m] by auto
  then show ?case by (intro exI [of _ "bs # frames"]) simp
qed

end

text \<open>A request to send is a request without its lengths and one order of its metadata.\<close>

fun send_request :: "request \<times> (go_string \<times> go_string) list \<Rightarrow> bytes go" where
  "send_request (req, kvs) = EncodeReq (sized_request req kvs) kvs"

fun sendable_request :: "request \<times> (go_string \<times> go_string) list \<Rightarrow> bool" where
  "sendable_request (req, kvs) \<longleftrightarrow>
     length (req_header req kvs) + length (reqData req) < 2 ^ 32 \<and> clean_request req kvs"

fun seen_request :: "request \<times> (go_string \<times> go_string) list \<Rightarrow> request" where
  "seen_request (req, kvs) = (sized_request req kvs)\<lparr>reqMeta := None\<rparr>"

definition send_response :: "response \<Rightarrow> bytes go" where
  "send_response resp = EncodeResp (sized_response resp)"

definition sendable_response :: "response \<Rightarrow> bool" where
  "sendable_response resp \<longleftrightarrow> length (resp_header resp) + length (respData resp) < 2 ^ 32"

lemma frame_size_header:
  "frame_size (req_header req kvs @ ys) = unat (reqHeadLength req) + unat (reqBodyLength req)"
  "frame_size (resp_header resp @ ys) = unat (respHeadLength resp) + unat (respBodyLength resp)"
  by (simp_all add: frame_size_def req_header_def resp_header_def)

interpretation request_codec: wire_codec send_request DecodeReq sendable_request seen_request
proof
  fix m :: "request \<times> (go_string \<times> go_string) list" and bs
  assume ok: "sendable_request m"
  obtain req kvs where m: "m = (req, kvs)" by fastforce
  from ok have fits: "length (req_header req kvs) + length (reqData req) < 2 ^ 32"
    and clean: "clean_request req kvs" by (simp_all add: m)
  show "\<exists>bs. send_request m = Inr bs" by (simp add: m EncodeReq_sized [OF fits])
  assume "send_request m = Inr bs"
  then have bs: "bs = req_header (sized_request req kvs) kvs @ reqData req"
    by (simp add: m EncodeReq_sized [OF fits])
  show "DecodeReq bs = Inr (seen_request m)"
    by (simp add: bs m DecodeReq_sized [OF fits clean])
  show "8 \<le> length bs \<and> frame_size bs = length bs"
    by (simp add: bs frame_size_header sized_request_lengths [OF fits] sized_request_header)
      (simp add: length_req_header)
qed

interpretation response_codec: wire_codec send_response DecodeResp sendable_response sized_response
proof
  fix m bs
  assume "sendable_response m"
  then have fits: "length (resp_header m) + length (respData m) < 2 ^ 32"
    by (simp add: sendable_response_def)
  show "\<exists>bs. send_response m = Inr bs" by (simp add: send_response_def EncodeResp_sized [OF fits])
  assume "send_response m = Inr bs"
  then have bs: "bs = resp_header (sized_response m) @ respData m"
    by (simp add: send_response_def EncodeResp_sized [OF fits])
  show "DecodeResp bs = Inr (sized_response m)" by (simp add: bs DecodeResp_sized [OF fits])
  show "8 \<le> length bs \<and> frame_size bs = length bs"
    by (simp add: bs frame_size_header sized_response_lengths [OF fits])
      (simp add: length_resp_header)
qed

lemma DecodeReq_cases:
  "case DecodeReq bs of
     Inl p \<Rightarrow> \<not> req_frame_ok bs
   | Inr req \<Rightarrow> req_frame_ok bs \<and> req = frame_request bs"
proof (cases "15 \<le> length bs \<and> 15 \<le> unat (parse_u32 bs) \<and> unat (parse_u32 bs) \<le> length bs")
  case True
  then show ?thesis by (simp add: DecodeReq_framed req_frame_ok_def)
next
  case False
  then have "\<exists>p. DecodeReq bs = Inl p"
    by (cases "length bs < 15") (auto simp: short_frame_panics DecodeReq_long slice_frame Let_def)
  with False show ?thesis by (auto simp: req_frame_ok_def)
qed

section \<open>Properties\<close>

text \<open>A request with metadata, as a test of the code would build it.\<close>

definition sample_request :: request where
  "sample_request =
     \<lparr>reqHeadLength = 0, reqBodyLength = 0, reqMessageId = 123, reqVersion = 12, reqCompresser = 13,
      reqSerializer = 14, reqServiceName = go_str ''user'', reqMethodName = go_str ''Get'',
      reqMeta = Some [go_str ''a'' \<mapsto> go_str ''x'', go_str ''b'' \<mapsto> go_str ''y''],
      reqData = [104, 10, 105]\<rparr>"

definition sample_meta :: "(go_string \<times> go_string) list" where
  "sample_meta = [(go_str ''a'', go_str ''x''), (go_str ''b'', go_str ''y'')]"

definition sample_response :: response where
  "sample_response =
     \<lparr>respHeadLength = 0, respBodyLength = 0, respMessageId = 123, respVersion = 12,
      respCompresser = 13, respSerializer = 14, respError = [10, 13], respData = [1, 2, 3]\<rparr>"

lemma sample_request_orders:
  "range_order (reqMeta sample_request) sample_meta"
  "range_order (reqMeta sample_request) (rev sample_meta)"
  by (auto simp: range_order_def sample_request_def sample_meta_def fun_eq_iff)

lemma sample_request_clean:
  "clean_request sample_request sample_meta" "clean_request sample_request (rev sample_meta)"
  by (simp_all add: clean_request_def clean_pairs_def sample_request_def sample_meta_def
      splitter_def pairSplitter_def)

lemma sample_request_length:
  "length (req_header sample_request sample_meta) = 32"
  "length (req_header sample_request (rev sample_meta)) = 32"
  "length (reqData sample_request) = 3"
  by (simp_all add: length_req_header sample_request_def sample_meta_def)

text \<open>
  C8: A request whose names and metadata are free of the separators, and that fits 32-bit lengths,
  encodes to a frame that announces its own size and decodes to the request, whatever orders the
  two ranges over the metadata take; but the metadata is gone.
\<close>

theorem request_roundtrip:
  assumes "range_order (reqMeta req) kvs" and "range_order (reqMeta req) kvs'"
    and "clean_request req kvs'"
    and "length (req_header req kvs') + length (reqData req) < 2 ^ 32"
  shows "\<exists>bs. EncodeReq (sized_request req kvs) kvs' = Inr bs
    \<and> DecodeReq bs = Inr ((sized_request req kvs)\<lparr>reqMeta := None\<rparr>)
    \<and> frame_size bs = length bs"
proof -
  have "sized_request req kvs = sized_request req kvs'"
    by (rule sized_request_order [OF range_order_mset [OF assms(1,2)]])
  moreover have "sendable_request (req, kvs')" using assms(3,4) by simp
  ultimately show ?thesis
    using request_codec.enc_total [of "(req, kvs')"] request_codec.dec_enc [of "(req, kvs')"]
      request_codec.enc_sized [of "(req, kvs')"]
    by auto
qed

theorem request_roundtrip_witness:
  "\<exists>bs. EncodeReq (sized_request sample_request sample_meta) (rev sample_meta) = Inr bs
    \<and> DecodeReq bs = Inr ((sized_request sample_request sample_meta)\<lparr>reqMeta := None\<rparr>)
    \<and> frame_size bs = length bs"
  by (rule request_roundtrip [OF sample_request_orders sample_request_clean(2)])
    (simp add: sample_request_length)

text \<open>
  C9: A response that fits 32-bit lengths encodes and decodes to itself; its error text and data
  may hold any bytes.
\<close>

theorem response_roundtrip:
  assumes "15 + length (respError resp) + length (respData resp) < 2 ^ 32"
  shows "\<exists>bs. EncodeResp (sized_response resp) = Inr bs
    \<and> DecodeResp bs = Inr (sized_response resp) \<and> frame_size bs = length bs"
proof -
  have "sendable_response resp" using assms by (simp add: sendable_response_def length_resp_header)
  then show ?thesis
    using response_codec.enc_total [of resp] response_codec.dec_enc [of resp]
      response_codec.enc_sized [of resp]
    by (auto simp: send_response_def)
qed

theorem response_roundtrip_witness:
  "\<exists>bs. EncodeResp (sized_response sample_response) = Inr bs
    \<and> DecodeResp bs = Inr (sized_response sample_response) \<and> frame_size bs = length bs"
  by (rule response_roundtrip) (simp add: sample_response_def)

text \<open>
  C28: \<^verbatim>\<open>DecodeReq\<close> agrees with the reference decoder on every input: it returns exactly on the
  frames that the reference accepts, with the reference's request, and panics on every other input.
\<close>

theorem DecodeReq_reference:
  "case DecodeReq bs of
     Inl p \<Rightarrow> \<not> req_frame_ok bs
   | Inr req \<Rightarrow> req_frame_ok bs \<and> req = frame_request bs"
  by (rule DecodeReq_cases)

text \<open>
  \<^verbatim>\<open>DecodeResp\<close> agrees with its reference decoder on every input.
\<close>

theorem DecodeResp_reference:
  "case DecodeResp bs of
     Inl p \<Rightarrow> \<not> resp_frame_ok bs
   | Inr resp \<Rightarrow> resp_frame_ok bs \<and> resp = frame_response bs"
  using DecodeResp_bad [of bs] DecodeResp_framed [of bs] by (cases "resp_frame_ok bs") auto

lemma take_go_copy: "take (length src) (go_copy dst src) = take (length dst) src"
  by (cases "length src \<le> length dst") (simp_all add: go_copy_def)

text \<open>
  \<^verbatim>\<open>EncodeReq\<close> returns exactly when the buffer of \<^verbatim>\<open>HeadLength + BodyLength\<close> bytes (added in 32
  bits) has room for the header; it then returns the whole buffer, and the data is cut to the
  room that is left.
\<close>

theorem EncodeReq_total_iff:
  "case EncodeReq req kvs of
     Inl p \<Rightarrow> unat (reqHeadLength req + reqBodyLength req) < length (req_header req kvs)
   | Inr bs \<Rightarrow> length (req_header req kvs) \<le> length bs
       \<and> length bs = unat (reqHeadLength req + reqBodyLength req)
       \<and> take (length (req_header req kvs)) bs = req_header req kvs
       \<and> take (length (reqData req)) (drop (length (req_header req kvs)) bs)
           = take (length bs - length (req_header req kvs)) (reqData req)"
proof (cases "length (req_header req kvs) \<le> unat (reqHeadLength req + reqBodyLength req)")
  case True
  then show ?thesis by (auto simp: EncodeReq_fits take_go_copy)
next
  case False
  then show ?thesis using EncodeReq_overflow [of req kvs] by auto
qed

text \<open>
  The loop over the metadata rebuilds exactly the map that was sent, in whatever order its
  entries were written.
\<close>

theorem meta_loop_rebuilds_map:
  assumes "range_order (Some m) kvs" and "clean_pairs kvs"
  shows "decode_meta (pair_bytes kvs) Map.empty = Inr m"
  using assms by (rule decode_meta_range_order [rotated])

theorem meta_loop_rebuilds_map_witness:
  "decode_meta (pair_bytes (rev sample_meta)) Map.empty = Inr (the (reqMeta sample_request))"
  using sample_request_orders(2) sample_request_clean(2)
  by (intro meta_loop_rebuilds_map) (simp_all add: sample_request_def clean_request_def)

text \<open>
  No decoded request carries metadata, so no key can be read from it.
\<close>

theorem decoded_request_has_no_meta:
  assumes "DecodeReq bs = Inr req"
  shows "reqMeta req = None \<and> map_lookup (reqMeta req) key = []"
proof -
  have "req = frame_request bs" using DecodeReq_cases [of bs] assms by simp
  then show ?thesis by (simp add: frame_request_def Let_def)
qed

theorem decoded_request_has_no_meta_witness:
  "\<exists>req. DecodeReq (req_header (sized_request sample_request sample_meta) sample_meta
                    @ reqData sample_request) = Inr req
     \<and> reqMeta req = None \<and> map_lookup (reqMeta req) (go_str ''a'') = []"
proof -
  have "DecodeReq (req_header (sized_request sample_request sample_meta) sample_meta
                    @ reqData sample_request) = Inr ((sized_request sample_request sample_meta)\<lparr>reqMeta := None\<rparr>)"
    by (rule DecodeReq_sized) (simp_all add: sample_request_length sample_request_clean)
  with decoded_request_has_no_meta [OF this] show ?thesis by blast
qed



end
