(* ===== verification/Codec.thy ===== *)
theory Codec
  imports Errs
begin

text \<open>
  Compression (\<^verbatim>\<open>rpc/compress\<close>) and serialization (\<^verbatim>\<open>rpc/serialize\<close>) of message bodies. An
  interface value is a record of its methods. The compression library of Go, \<^verbatim>\<open>encoding/json\<close> and
  \<^verbatim>\<open>google.golang.org/protobuf\<close> are parameters; what the code around them does with their results
  and errors is modelled.
\<close>

section \<open>Compressors\<close>

record compressor =
  cCode :: byte
  cCompress :: "bytes \<Rightarrow> go_error + bytes"
  cUnCompress :: "bytes \<Rightarrow> go_error + bytes"

definition DoNothingCompressor :: compressor where
  "DoNothingCompressor = \<lparr>cCode = 0, cCompress = Inr, cUnCompress = Inr\<rparr>"

text \<open>
  What \<^verbatim>\<open>rpc/compress/gzip\<close> uses of \<^verbatim>\<open>compress/gzip\<close> and \<^verbatim>\<open>ioutil\<close>: a writer over a buffer, its
  \<^verbatim>\<open>Write\<close>, \<^verbatim>\<open>Flush\<close> and \<^verbatim>\<open>Close\<close> with their errors and the bytes the buffer holds, a reader that may
  fail to open, and \<^verbatim>\<open>ReadAll\<close>, which returns what it read together with an error.
\<close>

record ('w, 'r) gzip_lib =
  gzNewWriter :: 'w
  gzWrite :: "'w \<Rightarrow> bytes \<Rightarrow> go_error option \<times> 'w"
  gzFlush :: "'w \<Rightarrow> go_error option \<times> 'w"
  gzClose :: "'w \<Rightarrow> go_error option \<times> 'w"
  gzBytes :: "'w \<Rightarrow> bytes"
  gzNewReader :: "bytes \<Rightarrow> go_error + 'r"
  gzReadAll :: "'r \<Rightarrow> bytes \<times> go_error option"

definition gzip_Compress :: "('w, 'r) gzip_lib \<Rightarrow> bytes \<Rightarrow> go_error + bytes" where
  "gzip_Compress lib data =
     (case gzWrite lib (gzNewWriter lib) data of
        (Some e, w) \<Rightarrow> Inl e
      | (None, w) \<Rightarrow>
          (case gzFlush lib w of
             (Some e, w) \<Rightarrow> Inl e
           | (None, w) \<Rightarrow>
               (case gzClose lib w of
                  (Some e, w) \<Rightarrow> Inl e
                | (None, w) \<Rightarrow> Inr (gzBytes lib w))))"

definition gzip_UnCompress :: "('w, 'r) gzip_lib \<Rightarrow> bytes \<Rightarrow> go_error + bytes" where
  "gzip_UnCompress lib data =
     (case gzNewReader lib data of
        Inl e \<Rightarrow> Inl e
      | Inr r \<Rightarrow>
          (case gzReadAll lib r of
             (res, Some e) \<Rightarrow> if e \<noteq> IoEOF \<and> e \<noteq> IoErrUnexpectedEOF then Inl e else Inr res
           | (res, None) \<Rightarrow> Inr res))"

definition gzip_compressor :: "('w, 'r) gzip_lib \<Rightarrow> compressor" where
  "gzip_compressor lib =
     \<lparr>cCode = 1, cCompress = gzip_Compress lib, cUnCompress = gzip_UnCompress lib\<rparr>"

section \<open>Serializers\<close>

text \<open>
  A value behind \<^verbatim>\<open>any\<close> is of a type \<open>'v\<close>. \<^verbatim>\<open>Decode\<close> writes through the pointer it is given: it takes
  the value before and returns an error, if any, and the value after.
\<close>

record 'v serializer =
  sCode :: byte
  sEncode :: "'v \<Rightarrow> go_error + bytes"
  sDecode :: "bytes \<Rightarrow> 'v \<Rightarrow> go_error option \<times> 'v"

definition json_serializer ::
  "('v \<Rightarrow> go_error + bytes) \<Rightarrow> (bytes \<Rightarrow> 'v \<Rightarrow> go_error option \<times> 'v) \<Rightarrow> 'v serializer" where
  "json_serializer marshal unmarshal = \<lparr>sCode = 1, sEncode = marshal, sDecode = unmarshal\<rparr>"

text \<open>\<open>as_message\<close> is the type assertion \<^verbatim>\<open>val.(proto.Message)\<close>.\<close>

definition proto_Encode ::
  "('v \<Rightarrow> 'm option) \<Rightarrow> ('m \<Rightarrow> go_error + bytes) \<Rightarrow> 'v \<Rightarrow> go_error + bytes" where
  "proto_Encode as_message marshal val =
     (case as_message val of None \<Rightarrow> Inl ProtoSerializeTypError | Some msg \<Rightarrow> marshal msg)"

definition proto_Decode ::
  "('v \<Rightarrow> 'm option) \<Rightarrow> ('m \<Rightarrow> 'v) \<Rightarrow> (bytes \<Rightarrow> 'm \<Rightarrow> go_error option \<times> 'm) \<Rightarrow>
   bytes \<Rightarrow> 'v \<Rightarrow> go_error option \<times> 'v" where
  "proto_Decode as_message of_message unmarshal data val =
     (case as_message val of
        None \<Rightarrow> (Some ProtoDeserializeTypError, val)
      | Some msg \<Rightarrow> (case unmarshal data msg of (e, msg) \<Rightarrow> (e, of_message msg)))"

definition proto_serializer ::
  "('v \<Rightarrow> 'm option) \<Rightarrow> ('m \<Rightarrow> 'v) \<Rightarrow> ('m \<Rightarrow> go_error + bytes) \<Rightarrow>
   (bytes \<Rightarrow> 'm \<Rightarrow> go_error option \<times> 'm) \<Rightarrow> 'v serializer" where
  "proto_serializer as_message of_message marshal unmarshal =
     \<lparr>sCode = 2, sEncode = proto_Encode as_message marshal,
      sDecode = proto_Decode as_message of_message unmarshal\<rparr>"

section \<open>Lossless compression\<close>

text \<open>What a body relies on: uncompressing what was compressed gives the body back.\<close>

locale lossless =
  fixes c :: compressor
  assumes uncompress_compress: "cCompress c d = Inr z \<Longrightarrow> cUnCompress c z = Inr d"
begin

lemma compress_inj: "cCompress c d = Inr z \<Longrightarrow> cCompress c d' = Inr z \<Longrightarrow> d = d'"
  by (metis uncompress_compress sum.inject(2))

lemma body_roundtrip:
  assumes "sEncode s v = Inr d" and "cCompress c d = Inr z" and "sDecode s d t = (None, v)"
  shows "\<exists>d'. cUnCompress c z = Inr d' \<and> sDecode s d' t = (None, v)"
  using uncompress_compress [OF assms(2)] assms(3) by simp

end

interpretation do_nothing: lossless DoNothingCompressor
  by unfold_locales (simp add: DoNothingCompressor_def)

text \<open>
  The documented behaviour of the library: a written, flushed and closed stream opens and reads
  back in full.
\<close>

definition gzip_reads_back :: "('w, 'r) gzip_lib \<Rightarrow> bool" where
  "gzip_reads_back lib \<longleftrightarrow>
     (\<forall>data w1 w2 w3.
        gzWrite lib (gzNewWriter lib) data = (None, w1) \<longrightarrow> gzFlush lib w1 = (None, w2) \<longrightarrow>
        gzClose lib w2 = (None, w3) \<longrightarrow>
        (\<exists>r e. gzNewReader lib (gzBytes lib w3) = Inr r \<and> gzReadAll lib r = (data, e)
               \<and> (e = None \<or> e = Some IoEOF)))"

lemma gzip_lossless: "gzip_reads_back lib \<Longrightarrow> lossless (gzip_compressor lib)"
proof
  fix d z
  assume lib: "gzip_reads_back lib" and "cCompress (gzip_compressor lib) d = Inr z"
  then obtain w1 w2 w3 where w: "gzWrite lib (gzNewWriter lib) d = (None, w1)"
      "gzFlush lib w1 = (None, w2)" "gzClose lib w2 = (None, w3)" "z = gzBytes lib w3"
    by (auto simp: gzip_compressor_def gzip_Compress_def split: prod.splits option.splits)
  with lib obtain r e where "gzNewReader lib z = Inr r" "gzReadAll lib r = (d, e)"
      "e = None \<or> e = Some IoEOF"
    unfolding gzip_reads_back_def by metis
  then show "cUnCompress (gzip_compressor lib) z = Inr d"
    by (auto simp: gzip_compressor_def gzip_UnCompress_def)
qed

text \<open>A stand-in for the library: the data between a mark and, once closed, a trailer.\<close>

definition stored_lib :: "(bytes, bytes) gzip_lib" where
  "stored_lib =
     \<lparr>gzNewWriter = [31],
      gzWrite = (\<lambda>w d. (None, w @ d)), gzFlush = (\<lambda>w. (None, w)), gzClose = (\<lambda>w. (None, w @ [8])),
      gzBytes = (\<lambda>w. w),
      gzNewReader = (\<lambda>d. case d of [] \<Rightarrow> Inl IoEOF | b # r \<Rightarrow> if b = 31 then Inr r else Inl (TextError [])),
      gzReadAll = (\<lambda>r. if r \<noteq> [] \<and> last r = 8 then (butlast r, None) else (r, Some IoErrUnexpectedEOF))\<rparr>"

lemma stored_lib_reads_back: "gzip_reads_back stored_lib"
  by (simp add: gzip_reads_back_def stored_lib_def)

text \<open>
  A stream that ends too early is not an error for \<^verbatim>\<open>UnCompress\<close>: whatever could be read of it is
  returned as if it were the whole body.
\<close>

lemma gzip_truncation_accepted:
  "gzNewReader lib data = Inr r \<Longrightarrow> gzReadAll lib r = (part, Some IoErrUnexpectedEOF) \<Longrightarrow>
     gzip_UnCompress lib data = Inr part"
  by (simp add: gzip_UnCompress_def)

section \<open>Properties\<close>

text \<open>
  Under the documented behaviour of the library, whatever the gzip compressor produces it
  reads back, and the compressor that does nothing always does.
\<close>

theorem compressors_roundtrip:
  assumes "gzip_reads_back lib" and "c = gzip_compressor lib \<or> c = DoNothingCompressor"
    and "cCompress c d = Inr z"
  shows "cUnCompress c z = Inr d"
  using assms lossless.uncompress_compress [OF gzip_lossless] do_nothing.uncompress_compress by metis

theorem compressors_roundtrip_witness:
  "cUnCompress (gzip_compressor stored_lib) [31, 1, 2, 8] = Inr [1, 2]"
  by (rule compressors_roundtrip [OF stored_lib_reads_back])
    (simp_all add: gzip_compressor_def gzip_Compress_def stored_lib_def)

end
