(* ===== verification/RpcServer.thy ===== *)
theory RpcServer
  imports RpcTypes Message Codec
begin

text \<open>
  The RPC server (\<^verbatim>\<open>rpc/server.go\<close>): registration of services, serializers and compressors,
  dispatch of a request to a method by reflection, and the connection loop.

  \<^item> A dynamic value (\<^verbatim>\<open>any\<close>) is nil, an error, or a value of the universe \<open>'v\<close>. A reflected method
    is its parameter types and its call, which may panic.
  \<^item> A stub holds the slices \<^verbatim>\<open>s.serializers\<close> and \<^verbatim>\<open>s.compressors\<close> of its server. They share their
    array with the server's fields, which are never assigned again, so that a stub reads what the
    server's tables hold at the time of the call: \<open>stub_Invoke\<close> takes the two tables.
  \<^item> The connection loop takes the results of its successive calls of the message reader, and
    returns what it wrote and whether it still runs.
\<close>

section \<open>Data\<close>

datatype 'v dyn = DNil | DErr go_error | DVal 'v

text \<open>
  A parameter type, as far as \<^verbatim>\<open>Elem()\<close> and \<^verbatim>\<open>reflect.New\<close> see it: with an element type, of which
  the zero value is given, or without one.
\<close>

datatype 'v in_type = HasElem 'v | NoElem

record 'v rmethod =
  mIn :: "'v in_type list"
  mCall :: "go_ctx \<Rightarrow> 'v dyn \<Rightarrow> 'v dyn list go"

record 'v service =
  svcName :: go_string
  svcMethods :: "(go_string \<times> 'v rmethod) list"

record 'v reflectionStub =
  stubService :: "'v service"
  stubMethods :: "go_string \<rightharpoonup> 'v rmethod"

type_synonym 'v serializer_table = "'v dyn serializer option list"
type_synonym compressor_table = "compressor option list"

record 'v server =
  services :: "go_string \<rightharpoonup> 'v reflectionStub"
  serializers :: "'v serializer_table"
  compressors :: compressor_table

section \<open>Registration\<close>

definition RegisterSerializer :: "'v dyn serializer \<Rightarrow> 'v server \<Rightarrow> 'v server go" where
  "RegisterSerializer s srv =
     go_bind (index_at (serializers srv) (uint (sCode s)))
       (\<lambda>_. Inr (srv\<lparr>serializers := (serializers srv)[unat (sCode s) := Some s]\<rparr>))"

definition RegisterCompressor :: "compressor \<Rightarrow> 'v server \<Rightarrow> 'v server go" where
  "RegisterCompressor c srv =
     go_bind (index_at (compressors srv) (uint (cCode c)))
       (\<lambda>_. Inr (srv\<lparr>compressors := (compressors srv)[unat (cCode c) := Some c]\<rparr>))"

text \<open>\<open>json\<close> is \<^verbatim>\<open>json.Serializer{}\<close> over the given library functions.\<close>

definition NewServer :: "'v dyn serializer \<Rightarrow> 'v server go" where
  "NewServer json =
     go_bind (RegisterSerializer json
       \<lparr>services = Map.empty, serializers = replicate 256 None, compressors = replicate 256 None\<rparr>)
       (RegisterCompressor DoNothingCompressor)"

fun method_map :: "(go_string \<times> 'v rmethod) list \<Rightarrow> (go_string \<rightharpoonup> 'v rmethod) \<Rightarrow>
    (go_string \<rightharpoonup> 'v rmethod)" where
  "method_map [] m = m"
| "method_map ((n, v) # nvs) m = method_map nvs (m(n \<mapsto> v))"

definition RegisterService :: "'v service \<Rightarrow> 'v server \<Rightarrow> 'v server" where
  "RegisterService svc srv =
     srv\<lparr>services := (services srv)(svcName svc \<mapsto>
       \<lparr>stubService = svc, stubMethods = method_map (svcMethods svc) Map.empty\<rparr>)\<rparr>"

text \<open>\<^verbatim>\<open>RegisterService\<close> always returns nil, so that \<^verbatim>\<open>MustRegister\<close> never panics.\<close>

definition MustRegister :: "'v service \<Rightarrow> 'v server \<Rightarrow> 'v server go" where
  "MustRegister svc srv =
     (case (None :: go_error option, RegisterService svc srv) of
        (None, srv) \<Rightarrow> Inr srv
      | (Some err, srv) \<Rightarrow> Inl (ExplicitPanic (error_text err)))"

section \<open>Dispatch\<close>

definition reply_to :: "request \<Rightarrow> response" where
  "reply_to req =
     \<lparr>respHeadLength = 0, respBodyLength = 0, respMessageId = reqMessageId req,
      respVersion = reqVersion req, respCompresser = reqCompresser req,
      respSerializer = reqSerializer req, respError = [], respData = []\<rparr>"

text \<open>\<^verbatim>\<open>reflect.New(method.Type().In(1).Elem())\<close>\<close>

definition new_argument :: "'v rmethod \<Rightarrow> 'v dyn go" where
  "new_argument m =
     go_bind (index_at (mIn m) 1)
       (\<lambda>t. case t of HasElem v \<Rightarrow> Inr (DVal v) | NoElem \<Rightarrow> Inl ReflectPanic)"

text \<open>A method call on an interface value read from a table: nil panics.\<close>

fun the_interface :: "'a option \<Rightarrow> 'a go" where
  "the_interface None = Inl NilDereference"
| "the_interface (Some x) = Inr x"

text \<open>The part of \<^verbatim>\<open>stub.Invoke\<close> after the call: \<open>res\<close> are the results of the method.\<close>

definition encode_result ::
  "'v dyn serializer \<Rightarrow> compressor \<Rightarrow> response \<Rightarrow> 'v dyn list \<Rightarrow> response go" where
  "encode_result ser cmp resp res =
     (if 1 < length res \<and> res ! 1 \<noteq> DNil
      then (case res ! 1 of
              DErr e \<Rightarrow> Inr (resp\<lparr>respError := error_text e\<rparr>)
            | _ \<Rightarrow> Inl TypeAssertion)
      else go_bind (index_at res 0) (\<lambda>r0.
           case sEncode ser r0 of
             Inl e \<Rightarrow> Inr (resp\<lparr>respError := error_text e\<rparr>)
           | Inr d \<Rightarrow>
               (case cCompress cmp d of
                  Inl e \<Rightarrow> Inr (resp\<lparr>respError := error_text e\<rparr>)
                | Inr d \<Rightarrow> Inr (resp\<lparr>respData := d\<rparr>))))"

definition stub_Invoke ::
  "'v serializer_table \<Rightarrow> compressor_table \<Rightarrow> 'v reflectionStub \<Rightarrow> go_ctx \<Rightarrow> request \<Rightarrow> response go" where
  "stub_Invoke sers comps stub ctx req =
     (case stubMethods stub (reqMethodName req) of
        None \<Rightarrow> Inr ((reply_to req)\<lparr>respError := error_text (NotFoundServiceMethod (reqMethodName req))\<rparr>)
      | Some m \<Rightarrow>
          go_bind (new_argument m) (\<lambda>arg.
          go_bind (index_at comps (uint (reqCompresser req))) (\<lambda>ci.
          go_bind (the_interface ci) (\<lambda>cmp.
          case cUnCompress cmp (reqData req) of
            Inl e \<Rightarrow> Inr ((reply_to req)\<lparr>respError := error_text e\<rparr>)
          | Inr reqd \<Rightarrow>
              go_bind (index_at sers (uint (reqSerializer req))) (\<lambda>si.
              go_bind (the_interface si) (\<lambda>ser.
              case sDecode ser reqd arg of
                (Some e, _) \<Rightarrow> Inr ((reply_to req)\<lparr>respError := error_text e\<rparr>)
              | (None, arg) \<Rightarrow>
                  go_bind (mCall m ctx arg) (encode_result ser cmp (reply_to req))))))))"

definition Server_Invoke :: "'v server \<Rightarrow> go_ctx \<Rightarrow> request \<Rightarrow> response go" where
  "Server_Invoke srv ctx req =
     (case services srv (reqServiceName req) of
        None \<Rightarrow> Inr ((reply_to req)\<lparr>respError := error_text InvalidServiceName\<rparr>)
      | Some stub \<Rightarrow> stub_Invoke (serializers srv) (compressors srv) stub ctx req)"

section \<open>Connections\<close>

text \<open>The keys of the metadata.\<close>

definition one_way_key :: go_string where
  "one_way_key = go_str ''one-way''"

definition deadline_key :: go_string where
  "deadline_key = go_str ''deadline''"

definition true_text :: go_string where
  "true_text = go_str ''true''"

text \<open>The context that the server derives from the metadata of a request.\<close>

definition request_ctx :: "request \<Rightarrow> go_ctx" where
  "request_ctx req =
     (case ParseInt (map_lookup (reqMeta req) deadline_key) of
        None \<Rightarrow> Background
      | Some ms \<Rightarrow> WithDeadline Background (UnixMilli_time ms))"

text \<open>One turn of the loop after a frame was read: the bytes it writes, if it writes any.\<close>

definition serve_frame :: "'v server \<Rightarrow> bytes \<Rightarrow> bytes option go" where
  "serve_frame srv bs =
     go_bind (DecodeReq bs) (\<lambda>req.
     go_bind (Server_Invoke srv (request_ctx req) req) (\<lambda>resp.
     if map_lookup (reqMeta req) one_way_key = true_text then Inr None
     else go_bind (EncodeResp (CalculateBodyLength_resp (CalculateHeaderLength_resp resp)))
            (\<lambda>enc. Inr (Some enc))))"

datatype conn_status = Reading | Returned | Panicked go_panic

fun handleConn :: "'v server \<Rightarrow> read_result list \<Rightarrow> bytes list \<times> conn_status" where
  "handleConn srv [] = ([], Reading)"
| "handleConn srv (Inl p # rs) = ([], Panicked p)"
| "handleConn srv (Inr (bs, Some e) # rs) =
     (if e = IoEOF then handleConn srv rs else ([], Returned))"
| "handleConn srv (Inr (bs, None) # rs) =
     (case serve_frame srv bs of
        Inl p \<Rightarrow> ([], Panicked p)
      | Inr None \<Rightarrow> handleConn srv rs
      | Inr (Some w) \<Rightarrow> (case handleConn srv rs of (ws, st) \<Rightarrow> (w # ws, st)))"

text \<open>The accept loop of \<^verbatim>\<open>Start\<close>: the results of \<^verbatim>\<open>Accept\<close>, the connections handed to \<^verbatim>\<open>handleConn\<close>.\<close>

datatype start_status = Accepting | StartReturned "go_error option"

fun accept_loop :: "(go_error + 'c) list \<Rightarrow> 'c list \<times> start_status" where
  "accept_loop [] = ([], Accepting)"
| "accept_loop (Inl e # rs) = (if e = NetErrClosed then ([], StartReturned None) else accept_loop rs)"
| "accept_loop (Inr c # rs) = (case accept_loop rs of (cs, st) \<Rightarrow> (c # cs, st))"

definition Start :: "go_error + unit \<Rightarrow> (go_error + 'c) list \<Rightarrow> 'c list \<times> start_status" where
  "Start listen rs = (case listen of Inl e \<Rightarrow> ([], StartReturned (Some e)) | Inr _ \<Rightarrow> accept_loop rs)"

section \<open>Tables of codecs\<close>

text \<open>
  Registering an entry under its code, one after the other: a panic stops the sequence.
\<close>

fun run_all :: "('e \<Rightarrow> 't \<Rightarrow> 't go) \<Rightarrow> 'e list \<Rightarrow> 't \<Rightarrow> 't go" where
  "run_all reg [] t = Inr t"
| "run_all reg (e # es) t = go_bind (reg e t) (run_all reg es)"

lemma find_append: "find P (xs @ ys) = (case find P xs of None \<Rightarrow> find P ys | Some x \<Rightarrow> Some x)"
  by (induction xs) auto

locale code_table =
  fixes reg :: "'e \<Rightarrow> 't \<Rightarrow> 't go"
    and look :: "'t \<Rightarrow> byte \<Rightarrow> 'e option"
    and code :: "'e \<Rightarrow> byte"
    and wf :: "'t \<Rightarrow> bool"
  assumes reg_total: "wf t \<Longrightarrow> \<exists>t'. reg e t = Inr t'"
    and reg_wf: "wf t \<Longrightarrow> reg e t = Inr t' \<Longrightarrow> wf t'"
    and look_reg: "wf t \<Longrightarrow> reg e t = Inr t' \<Longrightarrow> look t' c = (if c = code e then Some e else look t c)"
begin

lemma run_all_wf: "wf t \<Longrightarrow> \<exists>t'. run_all reg es t = Inr t' \<and> wf t'"
proof (induction es arbitrary: t)
  case (Cons e es)
  then obtain t' where "reg e t = Inr t'" "wf t'" using reg_total [of t e] reg_wf by blast
  with Cons.IH [of t'] show ?case by simp
qed simp

lemma look_run_all:
  "wf t \<Longrightarrow> run_all reg es t = Inr t' \<Longrightarrow>
     look t' c = (case find (\<lambda>e. code e = c) (rev es) of None \<Rightarrow> look t c | Some e \<Rightarrow> Some e)"
proof (induction es arbitrary: t)
  case (Cons e es)
  then obtain u where u: "reg e t = Inr u" "run_all reg es u = Inr t'"
    by (auto simp: go_bind_Inr_iff)
  then have "wf u" using Cons.prems reg_wf by blast
  have "look u c = (if c = code e then Some e else look t c)"
    using Cons.prems(1) u(1) by (rule look_reg)
  with Cons.IH [OF \<open>wf u\<close> u(2)] show ?case
    by (auto simp: find_append split: option.splits)
qed simp

lemma look_last: "wf t \<Longrightarrow> run_all reg (es @ [e]) t = Inr t' \<Longrightarrow> look t' (code e) = Some e"
  by (simp add: look_run_all)

end

text \<open>A server whose tables have the 256 entries that a byte can address.\<close>

definition server_wf :: "'v server \<Rightarrow> bool" where
  "server_wf srv \<longleftrightarrow> length (serializers srv) = 256 \<and> length (compressors srv) = 256"

definition serializer_of :: "'v server \<Rightarrow> byte \<Rightarrow> 'v dyn serializer option" where
  "serializer_of srv c = serializers srv ! unat c"

definition compressor_of :: "'v server \<Rightarrow> byte \<Rightarrow> compressor option" where
  "compressor_of srv c = compressors srv ! unat c"

lemma byte_bound: "unat (c :: byte) < 256"
  using unsigned_less [of c, where ?'a = nat] by simp

lemma byte_index:
  "length xs = 256 \<Longrightarrow> index_at xs (uint (c :: byte)) = Inr (xs ! unat c)"
proof -
  obtain n where "unat c = n" "uint c = int n" by simp
  then show "length xs = 256 \<Longrightarrow> ?thesis" using byte_bound [of c] by (simp add: index_at_def)
qed

lemma RegisterSerializer_wf:
  "server_wf srv \<Longrightarrow> RegisterSerializer s srv =
     Inr (srv\<lparr>serializers := (serializers srv)[unat (sCode s) := Some s]\<rparr>)"
  by (simp add: RegisterSerializer_def server_wf_def byte_index)

lemma RegisterCompressor_wf:
  "server_wf srv \<Longrightarrow> RegisterCompressor c srv =
     Inr (srv\<lparr>compressors := (compressors srv)[unat (cCode c) := Some c]\<rparr>)"
  by (simp add: RegisterCompressor_def server_wf_def byte_index)

interpretation serializer_table: code_table RegisterSerializer serializer_of sCode server_wf
proof
  fix srv srv' :: "'a server" and s c
  assume wf: "server_wf srv"
  show "\<exists>t. RegisterSerializer s srv = Inr t" using wf by (simp add: RegisterSerializer_wf)
  assume "RegisterSerializer s srv = Inr srv'"
  then have srv': "srv' = srv\<lparr>serializers := (serializers srv)[unat (sCode s) := Some s]\<rparr>"
    using wf by (simp add: RegisterSerializer_wf)
  show "server_wf srv'" using wf by (simp add: srv' server_wf_def)
  show "serializer_of srv' c = (if c = sCode s then Some s else serializer_of srv c)"
    using wf byte_bound [of c]
    by (auto simp: srv' serializer_of_def server_wf_def nth_list_update word_unat_eq_iff)
qed

interpretation compressor_table: code_table RegisterCompressor compressor_of cCode server_wf
proof
  fix srv srv' :: "'a server" and s c
  assume wf: "server_wf srv"
  show "\<exists>t. RegisterCompressor s srv = Inr t" using wf by (simp add: RegisterCompressor_wf)
  assume "RegisterCompressor s srv = Inr srv'"
  then have srv': "srv' = srv\<lparr>compressors := (compressors srv)[unat (cCode s) := Some s]\<rparr>"
    using wf by (simp add: RegisterCompressor_wf)
  show "server_wf srv'" using wf by (simp add: srv' server_wf_def)
  show "compressor_of srv' c = (if c = cCode s then Some s else compressor_of srv c)"
    using wf byte_bound [of c]
    by (auto simp: srv' compressor_of_def server_wf_def nth_list_update word_unat_eq_iff)
qed

lemma RegisterService_wf [simp]: "server_wf (RegisterService svc srv) = server_wf srv"
  by (simp add: RegisterService_def server_wf_def)

text \<open>Each registration leaves the other table alone.\<close>

lemma run_all_serializers_frame:
  "run_all RegisterSerializer ss srv = Inr srv' \<Longrightarrow> server_wf srv \<Longrightarrow>
     compressor_of srv' c = compressor_of srv c"
proof (induction ss arbitrary: srv)
  case (Cons s ss)
  then obtain u where u: "RegisterSerializer s srv = Inr u" "run_all RegisterSerializer ss u = Inr srv'"
    by (auto elim: go_bindE)
  then have "server_wf u" using Cons.prems(2) serializer_table.reg_wf by blast
  then show ?case
    using Cons.IH [OF u(2)] u(1) Cons.prems(2) by (auto simp: RegisterSerializer_wf compressor_of_def)
qed simp

lemma run_all_compressors_frame:
  "run_all RegisterCompressor cs srv = Inr srv' \<Longrightarrow> server_wf srv \<Longrightarrow>
     serializer_of srv' c = serializer_of srv c"
proof (induction cs arbitrary: srv)
  case (Cons d cs)
  then obtain u where u: "RegisterCompressor d srv = Inr u" "run_all RegisterCompressor cs u = Inr srv'"
    by (auto elim: go_bindE)
  then have "server_wf u" using Cons.prems(2) compressor_table.reg_wf by blast
  then show ?case
    using Cons.IH [OF u(2)] u(1) Cons.prems(2) by (auto simp: RegisterCompressor_wf serializer_of_def)
qed simp

text \<open>A new server has its two tables, the JSON serializer and the compressor that does nothing.\<close>

lemma NewServer_total:
  "\<exists>srv. NewServer json = Inr srv \<and> server_wf srv
     \<and> (\<forall>c. serializer_of srv c = (if c = sCode json then Some json else None))
     \<and> (\<forall>c. compressor_of srv c = (if c = 0 then Some DoNothingCompressor else None))
     \<and> services srv = Map.empty"
proof -
  define srv0 :: "'a server" where
    "srv0 = \<lparr>services = Map.empty, serializers = replicate 256 None, compressors = replicate 256 None\<rparr>"
  have wf0: "server_wf srv0" by (simp add: srv0_def server_wf_def)
  define srv1 where "srv1 = srv0\<lparr>serializers := (serializers srv0)[unat (sCode json) := Some json]\<rparr>"
  have 1: "RegisterSerializer json srv0 = Inr srv1" by (simp add: RegisterSerializer_wf wf0 srv1_def)
  have wf1: "server_wf srv1" using serializer_table.reg_wf [OF wf0 1] .
  define srv where "srv = srv1\<lparr>compressors := (compressors srv1)[unat (cCode DoNothingCompressor) := Some DoNothingCompressor]\<rparr>"
  have 2: "RegisterCompressor DoNothingCompressor srv1 = Inr srv"
    by (simp add: RegisterCompressor_wf wf1 srv_def)
  have "NewServer json = Inr srv" using 1 2 by (simp add: NewServer_def srv0_def)
  moreover have "server_wf srv" using compressor_table.reg_wf [OF wf1 2] .
  moreover have "serializer_of srv c = (if c = sCode json then Some json else None)" for c
    using serializer_table.look_reg [OF wf0 1, of c] byte_bound [of c]
    by (simp add: serializer_of_def srv_def srv0_def)
  moreover have "compressor_of srv c = (if c = 0 then Some DoNothingCompressor else None)" for c
    using compressor_table.look_reg [OF wf1 2, of c] byte_bound [of c]
    by (simp add: compressor_of_def srv1_def srv0_def DoNothingCompressor_def)
  moreover have "services srv = Map.empty" by (simp add: srv_def srv1_def srv0_def)
  ultimately show ?thesis by blast
qed

section \<open>Dispatch\<close>

definition echoes :: "request \<Rightarrow> response \<Rightarrow> bool" where
  "echoes req resp \<longleftrightarrow>
     respMessageId resp = reqMessageId req \<and> respVersion resp = reqVersion req
     \<and> respCompresser resp = reqCompresser req \<and> respSerializer resp = reqSerializer req"

definition error_or_data :: "response \<Rightarrow> bool" where
  "error_or_data resp \<longleftrightarrow> respError resp = [] \<or> respData resp = []"

lemma reply_facts [simp]:
  "echoes req ((reply_to req)\<lparr>respError := e\<rparr>)" "error_or_data ((reply_to req)\<lparr>respError := e\<rparr>)"
  "echoes req ((reply_to req)\<lparr>respData := d\<rparr>)" "error_or_data ((reply_to req)\<lparr>respData := d\<rparr>)"
  by (simp_all add: echoes_def error_or_data_def reply_to_def)

lemma encode_result_ok:
  "encode_result ser cmp (reply_to req) res = Inr resp \<Longrightarrow> echoes req resp \<and> error_or_data resp"
  unfolding encode_result_def
  by (auto elim!: go_bindE
      split: if_split_asm dyn.split_asm sum.split_asm)

lemma stub_Invoke_ok:
  "stub_Invoke sers cmps stub ctx req = Inr resp \<Longrightarrow> echoes req resp \<and> error_or_data resp"
  unfolding stub_Invoke_def
  by (auto elim!: go_bindE split: option.split_asm sum.split_asm prod.split_asm
      dest!: encode_result_ok)

lemma Server_Invoke_ok:
  "Server_Invoke srv ctx req = Inr resp \<Longrightarrow> echoes req resp \<and> error_or_data resp"
  by (auto simp: Server_Invoke_def split: option.splits dest!: stub_Invoke_ok)

lemma method_map_eq: "method_map nvs m = m ++ map_of (rev nvs)"
proof (induction nvs arbitrary: m)
  case (Cons nv nvs)
  then show ?case by (cases nv) (simp only: method_map.simps rev.simps map_of_append map_add_assoc,
        simp add: fun_eq_iff map_add_def split: option.splits)
qed simp

lemma method_map_distinct:
  assumes "distinct (map fst nvs)"
  shows "method_map nvs Map.empty = map_of nvs"
  using assms by (simp add: method_map_eq) (intro map_of_eqI, auto simp: rev_map [symmetric])

text \<open>What the panics of a dispatch can come from, when service and method are known.\<close>

definition dispatchable :: "'v server \<Rightarrow> go_ctx \<Rightarrow> request \<Rightarrow> 'v rmethod \<Rightarrow> bool" where
  "dispatchable srv ctx req m \<longleftrightarrow>
     (\<exists>v. 1 < length (mIn m) \<and> mIn m ! 1 = HasElem v)
     \<and> compressor_of srv (reqCompresser req) \<noteq> None
     \<and> serializer_of srv (reqSerializer req) \<noteq> None
     \<and> (\<forall>arg. \<exists>res. mCall m ctx arg = Inr res \<and> res \<noteq> []
           \<and> (1 < length res \<longrightarrow> res ! 1 = DNil \<or> (\<exists>e. res ! 1 = DErr e)))"

definition method_of :: "'v server \<Rightarrow> request \<Rightarrow> 'v rmethod option" where
  "method_of srv req =
     (case services srv (reqServiceName req) of
        None \<Rightarrow> None | Some stub \<Rightarrow> stubMethods stub (reqMethodName req))"

lemma encode_result_total:
  "res \<noteq> [] \<Longrightarrow> (1 < length res \<longrightarrow> res ! 1 = DNil \<or> (\<exists>e. res ! 1 = DErr e)) \<Longrightarrow>
     \<exists>resp. encode_result ser cmp resp0 res = Inr resp"
  by (auto simp: encode_result_def index_at_def split: sum.splits dyn.splits)

lemma stub_Invoke_known:
  assumes "server_wf srv" and "stubMethods stub (reqMethodName req) = Some m"
  shows "stub_Invoke (serializers srv) (compressors srv) stub ctx req =
    go_bind (new_argument m) (\<lambda>arg.
    go_bind (the_interface (compressor_of srv (reqCompresser req))) (\<lambda>cmp.
    case cUnCompress cmp (reqData req) of
      Inl e \<Rightarrow> Inr ((reply_to req)\<lparr>respError := error_text e\<rparr>)
    | Inr reqd \<Rightarrow>
        go_bind (the_interface (serializer_of srv (reqSerializer req))) (\<lambda>ser.
        case sDecode ser reqd arg of
          (Some e, _) \<Rightarrow> Inr ((reply_to req)\<lparr>respError := error_text e\<rparr>)
        | (None, arg) \<Rightarrow> go_bind (mCall m ctx arg) (encode_result ser cmp (reply_to req)))))"
  using assms by (simp add: stub_Invoke_def server_wf_def byte_index compressor_of_def
      serializer_of_def cong: sum.case_cong)

lemma dispatch_total:
  assumes wf: "server_wf srv" and m: "method_of srv req = Some m" and d: "dispatchable srv ctx req m"
  shows "\<exists>resp. Server_Invoke srv ctx req = Inr resp"
proof -
  from m obtain stub where stub: "services srv (reqServiceName req) = Some stub"
      "stubMethods stub (reqMethodName req) = Some m"
    by (auto simp: method_of_def split: option.splits)
  from d obtain v cmp ser where
      v: "1 < length (mIn m)" "mIn m ! 1 = HasElem v"
    and cs: "compressor_of srv (reqCompresser req) = Some cmp"
      "serializer_of srv (reqSerializer req) = Some ser"
    and call: "\<And>arg. \<exists>res. mCall m ctx arg = Inr res \<and> res \<noteq> []
           \<and> (1 < length res \<longrightarrow> res ! 1 = DNil \<or> (\<exists>e. res ! 1 = DErr e))"
    unfolding dispatchable_def by blast
  have "\<exists>resp. go_bind (mCall m ctx arg) (encode_result ser cmp r) = Inr resp" for arg r
    using call [of arg] encode_result_total by fastforce
  then show ?thesis
    using v by (auto simp: Server_Invoke_def stub stub_Invoke_known [OF wf stub(2)] new_argument_def
        index_at_def cs split: sum.splits prod.splits option.splits)
qed

lemma unknown_dispatch_total:
  "method_of srv req = None \<Longrightarrow> \<exists>resp. Server_Invoke srv ctx req = Inr resp \<and> respError resp \<noteq> []"
  by (auto simp: method_of_def Server_Invoke_def stub_Invoke_def split: option.splits)

lemma short_signature_panics:
  assumes "server_wf srv" and "method_of srv req = Some m" and "length (mIn m) \<le> 1"
  shows "Server_Invoke srv ctx req = Inl IndexOutOfRange"
  using assms by (auto simp: method_of_def Server_Invoke_def stub_Invoke_known new_argument_def
      index_at_def split: option.splits)

lemma unregistered_compressor_panics:
  assumes "server_wf srv" and "method_of srv req = Some m" and "new_argument m = Inr arg"
    and "compressor_of srv (reqCompresser req) = None"
  shows "Server_Invoke srv ctx req = Inl NilDereference"
  using assms by (auto simp: method_of_def Server_Invoke_def stub_Invoke_known split: option.splits)

section \<open>The connection loop\<close>

lemma decoded_ctx: "DecodeReq bs = Inr req \<Longrightarrow> request_ctx req = Background"
  using DecodeReq_cases [of bs]
  by (simp add: request_ctx_def frame_request_def Let_def)

lemma decoded_not_one_way:
  "DecodeReq bs = Inr req \<Longrightarrow> map_lookup (reqMeta req) one_way_key \<noteq> true_text"
  using DecodeReq_cases [of bs]
  by (simp add: frame_request_def Let_def true_text_def)

text \<open>
  Since decoding drops the metadata, a frame is always served without a deadline and answered.
\<close>

lemma serve_frame_eq:
  "serve_frame srv bs =
     go_bind (DecodeReq bs) (\<lambda>req.
     go_bind (Server_Invoke srv Background req) (\<lambda>resp.
     go_bind (EncodeResp (sized_response resp)) (\<lambda>w. Inr (Some w))))"
  unfolding serve_frame_def sized_response_def
  by (cases "DecodeReq bs") (simp_all add: decoded_ctx decoded_not_one_way)

lemma handleConn_frames_Cons:
  "handleConn srv (Inr (bs, None) # rs) = (ws, Reading) \<Longrightarrow>
     \<exists>w ws'. ws = w # ws' \<and> serve_frame srv bs = Inr (Some w) \<and> handleConn srv rs = (ws', Reading)"
  by (auto simp: serve_frame_eq go_bind_Inr_iff split: sum.splits option.splits prod.splits)

lemma handleConn_frames:
  "handleConn srv (map (\<lambda>bs. Inr (bs, None)) frames) = (ws, Reading) \<Longrightarrow>
     list_all2 (\<lambda>bs w. serve_frame srv bs = Inr (Some w)) frames ws"
proof (induction frames arbitrary: ws)
  case (Cons bs frames)
  then show ?case using handleConn_frames_Cons [of srv bs "map (\<lambda>bs. Inr (bs, None)) frames" ws] by auto
qed simp

lemma handleConn_EOF: "handleConn srv (replicate n (Inr (bs, Some IoEOF)) @ rs) = handleConn srv rs"
  by (induction n) simp_all

lemma handleConn_source_reader: "handleConn srv (ReadMsg # rs) = ([], Panicked (ExplicitPanic []))"
  by (simp add: ReadMsg_def)

lemma accept_loop_op_error:
  "accept_loop (replicate n (Inl (NetOpError e)) @ rs) = accept_loop rs"
  by (induction n) simp_all

section \<open>Properties\<close>

text \<open>
  A server with one service: values are byte strings, the serializer writes them as they are, and
  \<open>Echo\<close> returns its argument. Every service also has its method \<open>Name\<close>, without parameters.
\<close>

definition sample_json :: "bytes dyn serializer" where
  "sample_json = json_serializer
     (\<lambda>v. case v of DVal b \<Rightarrow> Inr b | _ \<Rightarrow> Inr (go_str ''null'')) (\<lambda>d v. (None, DVal d))"

definition sample_service :: "bytes service" where
  "sample_service = \<lparr>svcName = go_str ''user'', svcMethods =
     [(go_str ''Echo'', \<lparr>mIn = [NoElem, HasElem []], mCall = (\<lambda>ctx v. Inr [v, DNil])\<rparr>),
      (go_str ''Name'', \<lparr>mIn = [], mCall = (\<lambda>ctx v. Inr [DVal (go_str ''user'')])\<rparr>)]\<rparr>"

definition sample_server :: "bytes server" where
  "sample_server = RegisterService sample_service
     \<lparr>services = Map.empty, serializers = (replicate 256 None)[1 := Some sample_json],
      compressors = (replicate 256 None)[0 := Some DoNothingCompressor]\<rparr>"

definition echo_request :: request where
  "echo_request = sample_request\<lparr>reqMethodName := go_str ''Echo'', reqCompresser := 0, reqSerializer := 1\<rparr>"

lemma sample_server_wf: "server_wf sample_server"
  by (simp add: sample_server_def server_wf_def RegisterService_def)

lemma sample_server_tables:
  "compressor_of sample_server 0 = Some DoNothingCompressor"
  "serializer_of sample_server 1 = Some sample_json"
  "compressor_of sample_server 13 = None"
  by (simp_all add: sample_server_def RegisterService_def compressor_of_def serializer_of_def)

lemma echo_request_fields:
  "reqCompresser echo_request = 0" "reqSerializer echo_request = 1" "reqMessageId echo_request = 123"
  "reqData echo_request = [104, 10, 105]"
  by (simp_all add: echo_request_def sample_request_def)

lemma sample_server_methods:
  "method_of sample_server echo_request =
     Some \<lparr>mIn = [NoElem, HasElem []], mCall = (\<lambda>ctx v. Inr [v, DNil])\<rparr>"
  "method_of sample_server (echo_request\<lparr>reqMethodName := go_str ''Name''\<rparr>) =
     Some \<lparr>mIn = [], mCall = (\<lambda>ctx v. Inr [DVal (go_str ''user'')])\<rparr>"
  by (simp_all add: method_of_def sample_server_def RegisterService_def sample_service_def
      echo_request_def sample_request_def)

text \<open>
  After any sequence of registrations on a new server, each code resolves to the codec
  registered last under it, else to the built-in one; registering never panics.
\<close>

theorem codec_tables:
  "\<exists>srv. go_bind (go_bind (NewServer json) (run_all RegisterSerializer ss)) (run_all RegisterCompressor cs)
      = Inr srv \<and> server_wf srv
     \<and> serializer_of srv c = (case find (\<lambda>s. sCode s = c) (rev ss) of Some s \<Rightarrow> Some s
          | None \<Rightarrow> if c = sCode json then Some json else None)
     \<and> compressor_of srv c = (case find (\<lambda>d. cCode d = c) (rev cs) of Some d \<Rightarrow> Some d
          | None \<Rightarrow> if c = 0 then Some DoNothingCompressor else None)"
proof -
  obtain srv0 where 0: "NewServer json = Inr srv0" "server_wf srv0"
      "serializer_of srv0 c = (if c = sCode json then Some json else None)"
      "compressor_of srv0 c = (if c = 0 then Some DoNothingCompressor else None)"
    using NewServer_total [of json] by blast
  obtain srv1 where 1: "run_all RegisterSerializer ss srv0 = Inr srv1" "server_wf srv1"
    using serializer_table.run_all_wf [OF 0(2)] by blast
  obtain srv where 2: "run_all RegisterCompressor cs srv1 = Inr srv" "server_wf srv"
    using compressor_table.run_all_wf [OF 1(2)] by blast
  have "compressor_of srv1 c = compressor_of srv0 c"
    using 1(1) 0(2) by (rule run_all_serializers_frame)
  moreover have "serializer_of srv c = serializer_of srv1 c"
    using 2(1) 1(2) by (rule run_all_compressors_frame)
  ultimately show ?thesis
    using 0 1 2 serializer_table.look_run_all [OF 0(2) 1(1), of c]
      compressor_table.look_run_all [OF 1(2) 2(1), of c]
    by (auto split: option.splits)
qed

text \<open>
  Whatever the request, a response carries its message id, version and codes, and never both an
  error text and data.
\<close>

theorem dispatch_echoes:
  assumes "Server_Invoke srv ctx req = Inr resp"
  shows "respMessageId resp = reqMessageId req \<and> respVersion resp = reqVersion req
    \<and> respCompresser resp = reqCompresser req \<and> respSerializer resp = reqSerializer req
    \<and> (respError resp = [] \<or> respData resp = [])"
  using Server_Invoke_ok [OF assms] by (simp add: echoes_def error_or_data_def)

theorem dispatch_echoes_witness:
  "\<exists>resp. Server_Invoke sample_server Background (echo_request\<lparr>reqServiceName := []\<rparr>) = Inr resp
    \<and> respMessageId resp = 123"
proof -
  obtain resp where r: "Server_Invoke sample_server Background (echo_request\<lparr>reqServiceName := []\<rparr>) = Inr resp"
    by (simp add: Server_Invoke_def sample_server_def RegisterService_def sample_service_def)
  from dispatch_echoes [OF r] r show ?thesis by (simp add: echo_request_def sample_request_def)
qed

text \<open>
  C12: A request never panics the server if its method, when there is one, takes a second parameter
  with an element type, its codes are registered, and the method returns a value and nil or an error.
\<close>

theorem dispatch_never_panics:
  assumes "server_wf srv" and "\<And>m. method_of srv req = Some m \<Longrightarrow> dispatchable srv ctx req m"
  shows "\<exists>resp. Server_Invoke srv ctx req = Inr resp"
  using assms dispatch_total unknown_dispatch_total by (cases "method_of srv req") blast+

theorem dispatch_never_panics_witness: "\<exists>resp. Server_Invoke sample_server Background echo_request = Inr resp"
proof (rule dispatch_never_panics [OF sample_server_wf])
  fix m assume "method_of sample_server echo_request = Some m"
  then show "dispatchable sample_server Background echo_request m"
    by (auto simp: sample_server_methods dispatchable_def sample_server_tables echo_request_fields)
qed

text \<open>
  C33: A frame that names a method without a second parameter, such as the \<open>Name\<close> every service has,
  or a compressor that is not registered, panics in the connection's goroutine: nothing is answered,
  to this frame or any later one.
\<close>

theorem remote_request_crashes:
  assumes "server_wf srv" and "DecodeReq bs = Inr req" and "method_of srv req = Some m"
    and "length (mIn m) \<le> 1 \<or> (\<exists>arg. new_argument m = Inr arg) \<and> compressor_of srv (reqCompresser req) = None"
  shows "\<exists>p. handleConn srv (Inr (bs, None) # rs) = ([], Panicked p)"
proof -
  obtain p where "Server_Invoke srv Background req = Inl p"
    using assms short_signature_panics unregistered_compressor_panics by blast
  then show ?thesis using assms(2) by (simp add: serve_frame_eq)
qed

text \<open>A frame of a request with the method name \<open>n\<close> and the compressor \<open>c\<close>.\<close>

definition sample_frame :: "go_string \<Rightarrow> byte \<Rightarrow> bytes" where
  "sample_frame n c =
     (let req = echo_request\<lparr>reqMethodName := n, reqCompresser := c\<rparr>
      in req_header (sized_request req sample_meta) sample_meta @ reqData req)"

lemma DecodeReq_sample_frame:
  assumes "length n \<le> 10" and "splitter \<notin> set n"
  shows "DecodeReq (sample_frame n c) = Inr ((sized_request
    (echo_request\<lparr>reqMethodName := n, reqCompresser := c\<rparr>) sample_meta)\<lparr>reqMeta := None\<rparr>)"
proof -
  let ?req = "echo_request\<lparr>reqMethodName := n, reqCompresser := c\<rparr>"
  have "clean_request ?req sample_meta"
    using assms(2) sample_request_clean(1) by (simp add: clean_request_def echo_request_def)
  moreover have "length (req_header ?req sample_meta) + length (reqData ?req) < 2 ^ 32"
    using assms(1) by (simp add: length_req_header echo_request_def sample_request_def sample_meta_def)
  ultimately show ?thesis
    using DecodeReq_sized [of ?req sample_meta] by (simp add: sample_frame_def Let_def)
qed

lemma sized_fields [simp]:
  "reqCompresser (sized_request req kvs) = reqCompresser req"
  "reqSerializer (sized_request req kvs) = reqSerializer req"
  "reqMessageId (sized_request req kvs) = reqMessageId req"
  "reqServiceName (sized_request req kvs) = reqServiceName req"
  "reqMethodName (sized_request req kvs) = reqMethodName req"
  "reqData (sized_request req kvs) = reqData req"
  by (simp_all add: sized_request_def CalculateBodyLength_req_def CalculateHeaderLength_req_def)

lemma method_of_sized:
  "method_of srv ((sized_request req kvs)\<lparr>reqMeta := m\<rparr>) = method_of srv req"
  by (simp add: method_of_def cong: option.case_cong)

theorem remote_request_crashes_witness:
  "(\<exists>p. handleConn sample_server [Inr (sample_frame (go_str ''Name'') 0, None)] = ([], Panicked p))
   \<and> (\<exists>p. handleConn sample_server [Inr (sample_frame (go_str ''Echo'') 13, None)] = ([], Panicked p))"
proof
  show "\<exists>p. handleConn sample_server [Inr (sample_frame (go_str ''Name'') 0, None)] = ([], Panicked p)"
  proof (rule remote_request_crashes [OF sample_server_wf DecodeReq_sample_frame])
    show "method_of sample_server ((sized_request (echo_request\<lparr>reqMethodName := go_str ''Name'',
        reqCompresser := 0\<rparr>) sample_meta)\<lparr>reqMeta := None\<rparr>) =
      Some \<lparr>mIn = [], mCall = (\<lambda>ctx v. Inr [DVal (go_str ''user'')])\<rparr>"
      unfolding method_of_sized
      by (simp add: method_of_def sample_server_def RegisterService_def sample_service_def
          echo_request_def sample_request_def)
  qed (simp_all add: splitter_def)
  show "\<exists>p. handleConn sample_server [Inr (sample_frame (go_str ''Echo'') 13, None)] = ([], Panicked p)"
  proof (rule remote_request_crashes [OF sample_server_wf DecodeReq_sample_frame])
    show "method_of sample_server ((sized_request (echo_request\<lparr>reqMethodName := go_str ''Echo'',
        reqCompresser := 13\<rparr>) sample_meta)\<lparr>reqMeta := None\<rparr>) =
      Some \<lparr>mIn = [NoElem, HasElem []], mCall = (\<lambda>ctx v. Inr [v, DNil])\<rparr>"
      unfolding method_of_sized
      by (simp add: method_of_def sample_server_def RegisterService_def sample_service_def
          echo_request_def sample_request_def)
  qed (simp_all add: splitter_def new_argument_def index_at_def sample_server_tables)
qed

text \<open>
  C11: On a connection that still runs, each frame received got exactly one response, in order: the
  encoded result of the request it decodes to, run without a deadline.
\<close>

theorem one_response_per_frame:
  assumes "handleConn srv (map (\<lambda>bs. Inr (bs, None)) frames) = (ws, Reading)"
  shows "list_all2 (\<lambda>bs w. \<exists>req resp. DecodeReq bs = Inr req \<and> Server_Invoke srv Background req = Inr resp
      \<and> EncodeResp (sized_response resp) = Inr w \<and> respMessageId resp = reqMessageId req) frames ws"
  using handleConn_frames [OF assms]
  by (rule list_all2_mono)
    (auto 0 3 simp: serve_frame_eq echoes_def elim!: go_bindE dest: Server_Invoke_ok)

text \<open>The registered method of a request returns a value, which encodes to \<open>e\<close> and compresses to \<open>z\<close>.\<close>

definition server_result ::
  "'v server \<Rightarrow> request \<Rightarrow> 'v rmethod \<Rightarrow> compressor \<Rightarrow> 'v dyn serializer \<Rightarrow> bytes \<Rightarrow> bytes \<Rightarrow> bool" where
  "server_result srv req m cmp ser e z \<longleftrightarrow>
     method_of srv req = Some m \<and> compressor_of srv (reqCompresser req) = Some cmp
     \<and> serializer_of srv (reqSerializer req) = Some ser
     \<and> (\<exists>v d arg r. 1 < length (mIn m) \<and> mIn m ! 1 = HasElem v
          \<and> cUnCompress cmp (reqData req) = Inr d \<and> sDecode ser d (DVal v) = (None, arg)
          \<and> mCall m Background arg = Inr [r, DNil] \<and> sEncode ser r = Inr e)
     \<and> cCompress cmp e = Inr z"

lemma server_result_Invoke:
  assumes "server_wf srv" and "server_result srv req m cmp ser e z"
  shows "Server_Invoke srv Background req = Inr ((reply_to req)\<lparr>respData := z\<rparr>)"
  using assms
  by (auto simp: server_result_def method_of_def Server_Invoke_def stub_Invoke_known new_argument_def
      index_at_def encode_result_def split: option.splits)

text \<open>
  C1: A request for a registered method, sent in a frame and served, comes back as a response
  with its message id, no error text, and data that uncompresses to the encoded result.
\<close>

theorem served_request_answered:
  assumes "server_wf srv" and "lossless cmp" and "server_result srv req m cmp ser e z"
    and "length (req_header req kvs) + length (reqData req) < 2 ^ 32" and "clean_request req kvs"
    and "15 + length z < 2 ^ 32"
  shows "\<exists>frame w resp. EncodeReq (sized_request req kvs) kvs = Inr frame
    \<and> handleConn srv [Inr (frame, None)] = ([w], Reading)
    \<and> DecodeResp w = Inr resp \<and> respMessageId resp = reqMessageId req \<and> respError resp = []
    \<and> cUnCompress cmp (respData resp) = Inr e"
proof -
  let ?sent = "(sized_request req kvs)\<lparr>reqMeta := None\<rparr>"
  let ?frame = "req_header (sized_request req kvs) kvs @ reqData req"
  let ?resp = "(reply_to ?sent)\<lparr>respData := z\<rparr>"
  have "server_result srv ?sent m cmp ser e z"
    using assms(3) by (simp add: server_result_def method_of_sized)
  then have inv: "Server_Invoke srv Background ?sent = Inr ?resp"
    by (rule server_result_Invoke [OF assms(1)])
  obtain w where w: "EncodeResp (sized_response ?resp) = Inr w" "DecodeResp w = Inr (sized_response ?resp)"
    using response_codec.enc_total [of ?resp] response_codec.dec_enc [of ?resp] assms(6)
    by (auto simp: send_response_def sendable_response_def length_resp_header reply_to_def)
  have "handleConn srv [Inr (?frame, None)] = ([w], Reading)"
    by (simp add: serve_frame_eq DecodeReq_sized [OF assms(4,5)] inv w(1))
  moreover have "cUnCompress cmp z = Inr e"
    using assms(2,3) by (auto simp: server_result_def intro: lossless.uncompress_compress)
  ultimately show ?thesis
    using EncodeReq_sized [OF assms(4)] w
    by (auto simp: sized_response_def CalculateBodyLength_resp_def CalculateHeaderLength_resp_def reply_to_def)
qed

theorem served_request_answered_witness:
  "\<exists>frame w resp. EncodeReq (sized_request echo_request sample_meta) sample_meta = Inr frame
    \<and> handleConn sample_server [Inr (frame, None)] = ([w], Reading)
    \<and> DecodeResp w = Inr resp \<and> respMessageId resp = reqMessageId echo_request \<and> respError resp = []
    \<and> cUnCompress DoNothingCompressor (respData resp) = Inr [104, 10, 105]"
proof (rule served_request_answered [OF sample_server_wf do_nothing.lossless_axioms])
  show "server_result sample_server echo_request
      \<lparr>mIn = [NoElem, HasElem []], mCall = (\<lambda>ctx v. Inr [v, DNil])\<rparr> DoNothingCompressor sample_json
      [104, 10, 105] [104, 10, 105]"
    by (simp add: server_result_def sample_server_methods echo_request_fields sample_server_tables
        DoNothingCompressor_def sample_json_def json_serializer_def)
  show "clean_request echo_request sample_meta"
    using sample_request_clean(1)
    by (simp add: clean_request_def echo_request_def splitter_def)
qed (simp_all add: length_req_header echo_request_def sample_request_def sample_meta_def)

theorem one_response_per_frame_witness:
  "\<exists>frame ws. handleConn sample_server (map (\<lambda>bs. Inr (bs, None)) [frame]) = (ws, Reading)
    \<and> list_all2 (\<lambda>bs w. \<exists>req resp. DecodeReq bs = Inr req \<and> Server_Invoke sample_server Background req = Inr resp
      \<and> EncodeResp (sized_response resp) = Inr w \<and> respMessageId resp = reqMessageId req) [frame] ws"
proof -
  let ?req = "sample_request\<lparr>reqServiceName := []\<rparr>"
  let ?frame = "req_header (sized_request ?req sample_meta) sample_meta @ reqData ?req"
  let ?sent = "(sized_request ?req sample_meta)\<lparr>reqMeta := None\<rparr>"
  have dec: "DecodeReq ?frame = Inr ?sent"
    using sample_request_clean(1)
    by (intro DecodeReq_sized)
      (simp_all add: clean_request_def length_req_header sample_request_def sample_meta_def)
  define resp where "resp = (reply_to ?sent)\<lparr>respError := error_text InvalidServiceName\<rparr>"
  have inv: "Server_Invoke sample_server Background ?sent = Inr resp"
    by (simp add: Server_Invoke_def sample_server_def RegisterService_def sample_service_def resp_def)
  have "sendable_response resp"
    by (simp add: sendable_response_def length_resp_header reply_to_def resp_def)
  then obtain w where "EncodeResp (sized_response resp) = Inr w"
    using response_codec.enc_total [of resp] by (auto simp: send_response_def)
  then have conn: "handleConn sample_server (map (\<lambda>bs. Inr (bs, None)) [?frame]) = ([w], Reading)"
    using dec inv by (simp add: serve_frame_eq)
  from conn one_response_per_frame [OF conn] show ?thesis by blast
qed

text \<open>
  Once the peer has closed the connection, the loop never ends: however many reads report the
  end of the stream, it goes on reading.
\<close>

theorem closed_connection_spins:
  assumes "handleConn srv rs = (ws, Reading)"
  shows "handleConn srv (rs @ replicate n (Inr ([], Some IoEOF))) = (ws, Reading)"
  using assms
proof (induction srv rs arbitrary: ws rule: handleConn.induct)
  case (1 srv)
  then show ?case using handleConn_EOF [of srv n "[]" "[]"] by simp
qed (auto split: if_splits sum.splits option.splits prod.splits)

theorem closed_connection_spins_witness:
  "handleConn sample_server ([Inr ([], Some IoEOF)] @ replicate 1000 (Inr ([], Some IoEOF))) = ([], Reading)"
  by (rule closed_connection_spins) simp

text \<open>
  Once the listener is closed, the accept loop does not return either: \<^verbatim>\<open>Accept\<close> then reports
  \<^verbatim>\<open>net.ErrClosed\<close> wrapped in an operation error, which the loop does not recognise.
\<close>

theorem closed_listener_spins:
  "Start (Inr ()) (map Inr cs @ replicate n (Inl (NetOpError NetErrClosed))) = (cs, Accepting)"
proof -
  have "accept_loop (map Inr cs @ replicate n (Inl (NetOpError NetErrClosed))) = (cs, Accepting)"
  proof (induction cs)
    case Nil
    show ?case using accept_loop_op_error [of n NetErrClosed "[]"] by simp
  qed simp
  then show ?thesis by (simp add: Start_def)
qed

end
