(* ===== verification/RpcClient.thy ===== *)
theory RpcClient
  imports RpcServer
begin

text \<open>
  The RPC client (\<^verbatim>\<open>rpc/client.go\<close>): the functions it puts into the fields of a service, the request
  they build, and \<^verbatim>\<open>Client.Invoke\<close> with its goroutine.

  \<^item> A function field is its name, whether it can be set, and its type as far as the code looks at
    it. An argument of a call is given by the two ways the code reads it: as a context, if it is
    one, and as a value.
  \<^item> The connection pool and its connections are a parameter: operations on a state \<open>'e\<close>.
  \<^item> \<^verbatim>\<open>Invoke\<close> and its goroutine meet on an unbuffered channel: a step relation.
  \<^item> The global counter \<^verbatim>\<open>messageId\<close> is passed through every call.
\<close>

section \<open>Clients\<close>

record 'v client =
  clSerializer :: "'v dyn serializer"
  clCompressor :: compressor

definition ClientWithSerializer :: "'v dyn serializer \<Rightarrow> 'v client \<Rightarrow> 'v client" where
  "ClientWithSerializer s cl = cl\<lparr>clSerializer := s\<rparr>"

definition ClientWithCompressor :: "compressor \<Rightarrow> 'v client \<Rightarrow> 'v client" where
  "ClientWithCompressor c cl = cl\<lparr>clCompressor := c\<rparr>"

text \<open>\<open>pool\<close> is the result of \<^verbatim>\<open>pool.NewChannelPool\<close>.\<close>

definition NewClient ::
  "'v dyn serializer \<Rightarrow> go_error + 'p \<Rightarrow> ('v client \<Rightarrow> 'v client) list \<Rightarrow> go_error + 'p \<times> 'v client" where
  "NewClient json pool opts =
     (case pool of
        Inl e \<Rightarrow> Inl e
      | Inr p \<Rightarrow> Inr (p, fold (\<lambda>opt cl. opt cl) opts
                    \<lparr>clSerializer = json, clCompressor = DoNothingCompressor\<rparr>))"

section \<open>Function fields\<close>

record 'v func_field =
  ffName :: go_string
  ffCanSet :: bool
  ffIsFunc :: bool
  ffOut :: "'v in_type list"

datatype 'v service_elem = ElemPtr | ElemStruct "'v func_field list" | ElemOther

datatype 'v service_val = NotPointer | NilPointer | PointerTo "'v service_elem"

text \<open>The fields that get a function, unless \<^verbatim>\<open>reflect.MakeFunc\<close> panics on one that is none.\<close>

fun wire_fields :: "'v func_field list \<Rightarrow> 'v func_field list go" where
  "wire_fields [] = Inr []"
| "wire_fields (f # fs) =
     (if \<not> ffCanSet f then wire_fields fs
      else if \<not> ffIsFunc f then Inl ReflectPanic
      else go_bind (wire_fields fs) (\<lambda>ws. Inr (f # ws)))"

definition setFuncField :: "'v service_val \<Rightarrow> (go_error + 'v func_field list) go" where
  "setFuncField service =
     (case service of
        NotPointer \<Rightarrow> Inl ReflectPanic
      | NilPointer \<Rightarrow> Inl ReflectPanic
      | PointerTo ElemPtr \<Rightarrow> Inr (Inl ServiceTypError)
      | PointerTo ElemOther \<Rightarrow> Inl ReflectPanic
      | PointerTo (ElemStruct fs) \<Rightarrow> go_bind (wire_fields fs) (\<lambda>ws. Inr (Inr ws)))"

definition InitClientProxy ::
  "'v dyn serializer \<Rightarrow> go_error + 'p \<Rightarrow> 'v service_val \<Rightarrow> (go_error + 'v func_field list) go" where
  "InitClientProxy json pool service =
     (case NewClient json pool [] of Inl e \<Rightarrow> Inr (Inl e) | Inr _ \<Rightarrow> setFuncField service)"

definition InitService :: "'v client \<Rightarrow> 'v service_val \<Rightarrow> (go_error + 'v func_field list) go" where
  "InitService c srv = setFuncField srv"

section \<open>A call\<close>

text \<open>A \<^verbatim>\<open>reflect.Value\<close> as a result: the zero one holds no value at all.\<close>

datatype 'v rval = RZero | RVal "'v dyn"

type_synonym 'v call_arg = "go_ctx option \<times> 'v dyn"

definition call_meta :: "go_ctx \<Rightarrow> go_map option go" where
  "call_meta ctx =
     (let meta = (if isOneway ctx then Some [one_way_key \<mapsto> true_text] else None)
      in case ctxDeadline ctx of
           None \<Rightarrow> Inr meta
         | Some d \<Rightarrow>
             (case meta of
                None \<Rightarrow> Inl NilMapWrite
              | Some m \<Rightarrow> Inr (Some (m(deadline_key \<mapsto> FormatInt (time_UnixMilli d))))))"

text \<open>The type of the first result, \<^verbatim>\<open>structField.Type.Out(0).Elem()\<close>, as a new value.\<close>

definition new_result :: "'v func_field \<Rightarrow> 'v dyn go" where
  "new_result fld =
     go_bind (index_at (ffOut fld) 0)
       (\<lambda>t. case t of HasElem v \<Rightarrow> Inr (DVal v) | NoElem \<Rightarrow> Inl ReflectPanic)"

text \<open>
  The part before the request: a panic, or results returned at once, or what the request is made of.
\<close>

definition prepare_call ::
  "'v client \<Rightarrow> 'v func_field \<Rightarrow> 'v call_arg list \<Rightarrow>
     ('v rval list + 'v dyn \<times> go_ctx \<times> go_map option) go" where
  "prepare_call cl fld args =
     go_bind (index_at args 1) (\<lambda>arg1.
     go_bind (new_result fld) (\<lambda>out.
     case sEncode (clSerializer cl) (snd arg1) of
       Inl e \<Rightarrow> Inr (Inl [RVal out, RVal (DErr e)])
     | Inr d \<Rightarrow>
         (case cCompress (clCompressor cl) d of
            Inl e \<Rightarrow> Inr (Inl [RVal out, RVal (DErr e)])
          | Inr d \<Rightarrow>
              go_bind (index_at args 0) (\<lambda>arg0.
              case fst arg0 of
                None \<Rightarrow> Inl TypeAssertion
              | Some ctx \<Rightarrow> go_bind (call_meta ctx) (\<lambda>meta. Inr (Inr (out, ctx, meta)))))))"

text \<open>\<open>ord\<close> is the order in which a range over the metadata sees it.\<close>

definition new_request ::
  "'v client \<Rightarrow> go_string \<Rightarrow> (go_map option \<Rightarrow> (go_string \<times> go_string) list) \<Rightarrow>
     'v func_field \<Rightarrow> go_map option \<Rightarrow> u32 \<Rightarrow> request" where
  "new_request cl svc ord fld meta mid =
     CalculateBodyLength_req (CalculateHeaderLength_req (ord meta)
       \<lparr>reqHeadLength = 0, reqBodyLength = 0, reqMessageId = mid, reqVersion = 0,
        reqCompresser = cCode (clCompressor cl), reqSerializer = sCode (clSerializer cl),
        reqServiceName = svc, reqMethodName = ffName fld, reqMeta = meta, reqData = []\<rparr>)"

text \<open>The part after the proxy has returned.\<close>

definition finish_call :: "'v client \<Rightarrow> 'v dyn \<Rightarrow> go_error + response \<Rightarrow> 'v rval list" where
  "finish_call cl out r =
     (case r of
        Inl e \<Rightarrow> [RVal out, RVal (DErr e)]
      | Inr resp \<Rightarrow>
          (let errVal = (if 0 < length (respError resp) then RVal (DErr (TextError (respError resp))) else RZero)
           in if 0 < length (respData resp)
              then (case cUnCompress (clCompressor cl) (respData resp) of
                      Inl e \<Rightarrow> [RVal out, RVal (DErr e)]
                    | Inr d \<Rightarrow>
                        (case sDecode (clSerializer cl) d out of
                           (Some e, out) \<Rightarrow> [RVal out, RVal (DErr e)]
                         | (None, out) \<Rightarrow> [RVal out, errVal]))
              else [RVal out, errVal]))"

type_synonym proxy = "go_ctx \<Rightarrow> request \<Rightarrow> (go_error + response) go"

definition call_fn ::
  "'v client \<Rightarrow> go_string \<Rightarrow> (go_map option \<Rightarrow> (go_string \<times> go_string) list) \<Rightarrow> proxy \<Rightarrow>
     'v func_field \<Rightarrow> u32 \<Rightarrow> 'v call_arg list \<Rightarrow> u32 \<times> 'v rval list go" where
  "call_fn cl svc ord proxy fld messageId args =
     (case prepare_call cl fld args of
        Inl p \<Rightarrow> (messageId, Inl p)
      | Inr (Inl res) \<Rightarrow> (messageId, Inr res)
      | Inr (Inr (out, ctx, meta)) \<Rightarrow>
          (let mid = messageId + 1
           in (mid, go_bind (proxy ctx (new_request cl svc ord fld meta mid))
                     (\<lambda>r. Inr (finish_call cl out r)))))"

text \<open>
  The function that \<^verbatim>\<open>reflect.MakeFunc\<close> makes panics when the number of results is not that of its
  type or when one of them is the zero value.
\<close>

fun rvals :: "'v rval list \<Rightarrow> 'v dyn list go" where
  "rvals [] = Inr []"
| "rvals (RZero # rs) = Inl ReflectPanic"
| "rvals (RVal v # rs) = go_bind (rvals rs) (\<lambda>vs. Inr (v # vs))"

definition make_func :: "nat \<Rightarrow> 'v rval list go \<Rightarrow> 'v dyn list go" where
  "make_func n r = go_bind r (\<lambda>rs. if length rs = n then rvals rs else Inl ReflectPanic)"

definition service_call ::
  "'v client \<Rightarrow> go_string \<Rightarrow> (go_map option \<Rightarrow> (go_string \<times> go_string) list) \<Rightarrow> proxy \<Rightarrow>
     'v func_field \<Rightarrow> u32 \<Rightarrow> 'v call_arg list \<Rightarrow> u32 \<times> 'v dyn list go" where
  "service_call cl svc ord proxy fld messageId args =
     (case call_fn cl svc ord proxy fld messageId args of
        (mid, r) \<Rightarrow> (mid, make_func (length (ffOut fld)) r))"

section \<open>One exchange over a pooled connection\<close>

record ('e, 'c) conn_env =
  poolGet :: "'e \<Rightarrow> (go_error + 'c) \<times> 'e"
  poolPut :: "'c \<Rightarrow> 'e \<Rightarrow> 'e"
  connWrite :: "'c \<Rightarrow> bytes \<Rightarrow> 'e \<Rightarrow> (int \<times> go_error option) \<times> 'e"
  connRead :: "'c \<Rightarrow> 'e \<Rightarrow> read_result \<times> 'e"

definition exchange ::
  "('e, 'c) conn_env \<Rightarrow> go_ctx \<Rightarrow> bytes \<Rightarrow> 'c \<Rightarrow> 'e \<Rightarrow> (go_error + response) go \<times> 'e" where
  "exchange env ctx encode conn s =
     (case connWrite env conn encode s of
        ((l, Some e), s) \<Rightarrow> (Inr (Inl e), s)
      | ((l, None), s) \<Rightarrow>
          if l \<noteq> int (length encode) then (Inr (Inl ClientNotAllWritten), s)
          else if isOneway ctx then (Inr (Inl OnewayError), s)
          else (case connRead env conn s of
                  (Inl p, s) \<Rightarrow> (Inl p, s)
                | (Inr (data, Some e), s) \<Rightarrow> (Inr (Inl ReadRespFailError), s)
                | (Inr (data, None), s) \<Rightarrow> (go_bind (DecodeResp data) (\<lambda>resp. Inr (Inr resp)), s)))"

text \<open>The deferred \<^verbatim>\<open>Put\<close> runs when the function returns and when it panics.\<close>

definition doInvoke ::
  "('e, 'c) conn_env \<Rightarrow> go_ctx \<Rightarrow> bytes \<Rightarrow> 'e \<Rightarrow> (go_error + response) go \<times> 'e" where
  "doInvoke env ctx encode s =
     (case poolGet env s of
        (Inl e, s) \<Rightarrow> (Inr (Inl (ClientConnDeaded e)), s)
      | (Inr conn, s) \<Rightarrow>
          (case exchange env ctx encode conn s of (r, s) \<Rightarrow> (r, poolPut env conn s)))"

section \<open>\<^verbatim>\<open>Invoke\<close> and its goroutine\<close>

datatype invoke_main = InSelect | InvokeReturned "go_error + response"

datatype worker = NotStarted | Working | Sending "go_error + response" | Closing | WorkerEnded
  | WorkerPanicked go_panic

record invocation =
  invMain :: invoke_main
  invWorker :: worker
  invCtxErr :: "go_error option"

definition invoke_start :: "go_error option \<Rightarrow> invocation" where
  "invoke_start err =
     (case err of
        Some e \<Rightarrow> \<lparr>invMain = InvokeReturned (Inl e), invWorker = NotStarted, invCtxErr = err\<rparr>
      | None \<Rightarrow> \<lparr>invMain = InSelect, invWorker = Working, invCtxErr = None\<rparr>)"

text \<open>\<open>r\<close> is what encoding the request and \<open>doInvoke\<close> give.\<close>

inductive inv_step :: "(go_error + response) go \<Rightarrow> invocation \<Rightarrow> invocation \<Rightarrow> bool"
  for r :: "(go_error + response) go" where
  ctx_ends: "invCtxErr s = None \<Longrightarrow> inv_step r s (s\<lparr>invCtxErr := Some e\<rparr>)"
| worker_sends: "invWorker s = Working \<Longrightarrow> r = Inr res \<Longrightarrow> inv_step r s (s\<lparr>invWorker := Sending res\<rparr>)"
| worker_panics: "invWorker s = Working \<Longrightarrow> r = Inl p \<Longrightarrow> inv_step r s (s\<lparr>invWorker := WorkerPanicked p\<rparr>)"
| meet: "invMain s = InSelect \<Longrightarrow> invWorker s = Sending res \<Longrightarrow>
    inv_step r s (s\<lparr>invMain := InvokeReturned res, invWorker := Closing\<rparr>)"
| close_ch: "invWorker s = Closing \<Longrightarrow> inv_step r s (s\<lparr>invWorker := WorkerEnded\<rparr>)"
| ctx_done: "invMain s = InSelect \<Longrightarrow> invCtxErr s = Some e \<Longrightarrow>
    inv_step r s (s\<lparr>invMain := InvokeReturned (Inl e)\<rparr>)"

inductive_cases inv_stepE: "inv_step r s t"

section \<open>Calls\<close>

text \<open>The argument serializes and compresses.\<close>

definition encodable :: "'v client \<Rightarrow> 'v call_arg \<Rightarrow> bool" where
  "encodable cl x \<longleftrightarrow> (\<exists>d z. sEncode (clSerializer cl) (snd x) = Inr d \<and> cCompress (clCompressor cl) d = Inr z)"

lemma prepare_call_encodable:
  "encodable cl x \<Longrightarrow> prepare_call cl fld [(c, v), x] =
     go_bind (new_result fld) (\<lambda>out. case c of None \<Rightarrow> Inl TypeAssertion
       | Some ctx \<Rightarrow> go_bind (call_meta ctx) (\<lambda>meta. Inr (Inr (out, ctx, meta))))"
  by (auto simp: encodable_def prepare_call_def index_at_def)

lemma prepare_call_early:
  assumes "prepare_call cl fld args = Inr (Inl res)"
  obtains out e where "res = [RVal out, RVal (DErr e)]"
  using assms unfolding prepare_call_def
  by (auto elim!: go_bindE split: sum.split_asm option.split_asm)

lemma finish_call_cases:
  obtains v e where "finish_call cl out r = [RVal v, RVal (DErr e)]"
  | v where "finish_call cl out r = [RVal v, RZero]"
proof -
  have "(\<exists>v e. finish_call cl out r = [RVal v, RVal (DErr e)]) \<or> (\<exists>v. finish_call cl out r = [RVal v, RZero])"
    by (auto simp: finish_call_def Let_def split: sum.split prod.split option.split)
  then show thesis using that by blast
qed

lemma call_fn_results:
  assumes "call_fn cl svc ord proxy fld mid args = (mid', Inr rs)"
  obtains v e where "rs = [RVal v, RVal (DErr e)]" | v where "rs = [RVal v, RZero]"
proof -
  consider (early) res where "prepare_call cl fld args = Inr (Inl res)" "rs = res"
    | (sent) out r where "rs = finish_call cl out r"
    using assms unfolding call_fn_def
    by (auto simp: Let_def split: sum.splits elim!: go_bindE)
  then show thesis
  proof cases
    case early
    then show thesis using that(1) by (elim prepare_call_early) blast
  next
    case sent
    then show thesis using that finish_call_cases [of cl out r] by metis
  qed
qed

section \<open>Message ids\<close>

text \<open>The requests that a sequence of calls hands to the proxy.\<close>

fun session_requests ::
  "'v client \<Rightarrow> go_string \<Rightarrow> (go_map option \<Rightarrow> (go_string \<times> go_string) list) \<Rightarrow>
     'v func_field \<Rightarrow> u32 \<Rightarrow> 'v call_arg list list \<Rightarrow> request list" where
  "session_requests cl svc ord fld mid [] = []"
| "session_requests cl svc ord fld mid (args # argss) =
     (case prepare_call cl fld args of
        Inr (Inr (out, ctx, meta)) \<Rightarrow>
          new_request cl svc ord fld meta (mid + 1) # session_requests cl svc ord fld (mid + 1) argss
      | _ \<Rightarrow> session_requests cl svc ord fld mid argss)"

lemma new_request_fields [simp]:
  "reqMessageId (new_request cl svc ord fld meta mid) = mid"
  "reqData (new_request cl svc ord fld meta mid) = []"
  "reqServiceName (new_request cl svc ord fld meta mid) = svc"
  "reqMethodName (new_request cl svc ord fld meta mid) = ffName fld"
  by (simp_all add: new_request_def CalculateBodyLength_req_def CalculateHeaderLength_req_def)

lemma session_ids:
  "map reqMessageId (session_requests cl svc ord fld mid argss) =
     map (\<lambda>i. mid + 1 + of_nat i) [0..<length (session_requests cl svc ord fld mid argss)]"
proof (induction argss arbitrary: mid)
  case (Cons args argss)
  have shift: "map (\<lambda>i. mid + 1 + of_nat i) [0..<Suc n] =
      (mid + 1) # map (\<lambda>i. (mid + 1) + 1 + of_nat i) [0..<n]" for n and mid :: u32
    by (simp add: upt_conv_Cons del: upt_Suc flip: map_Suc_upt)
  show ?case
    using Cons.IH [of "mid + 1"] Cons.IH [of mid] shift [of "mid" "length (session_requests cl svc ord fld (mid + 1) argss)"]
    by (auto split: sum.split simp del: upt_Suc)
qed simp

lemma session_length: "length (session_requests cl svc ord fld mid argss) \<le> length argss"
proof (induction argss arbitrary: mid)
  case (Cons args argss)
  show ?case using Cons.IH [of mid] Cons.IH [of "mid + 1"] by (auto split: sum.split intro: le_SucI)
qed simp

lemma distinct_word_range:
  assumes "n \<le> 2 ^ 32"
  shows "distinct (map (\<lambda>i. (c :: u32) + of_nat i) [0..<n])"
proof -
  have "i = j" if "i < n" "j < n" "(of_nat i :: u32) = of_nat j" for i j
  proof -
    have "unat (of_nat i :: u32) = i" "unat (of_nat j :: u32) = j"
      using that(1,2) assms by (intro unat_of_nat_small; linarith)+
    with that(3) show ?thesis by metis
  qed
  then show ?thesis by (auto simp: distinct_map inj_on_def)
qed

section \<open>The connection pool\<close>

text \<open>What the client relies on: \<open>held\<close> counts the connections taken and not put back.\<close>

locale conn_pool =
  fixes env :: "('e, 'c) conn_env" and held :: "'e \<Rightarrow> nat"
  assumes get_conn: "poolGet env s = (Inr conn, s') \<Longrightarrow> held s' = Suc (held s)"
    and get_error: "poolGet env s = (Inl e, s') \<Longrightarrow> held s' = held s"
    and put_back: "held (poolPut env conn s) = held s - 1"
    and write_held: "held (snd (connWrite env conn bs s)) = held s"
    and read_held: "held (snd (connRead env conn s)) = held s"
begin

lemma exchange_held: "held (snd (exchange env ctx enc conn s)) = held s"
proof -
  obtain l oe s1 where w: "connWrite env conn enc s = ((l, oe), s1)" by (metis surj_pair)
  obtain r s2 where r: "connRead env conn s1 = (r, s2)" by (metis surj_pair)
  have "held s1 = held s" "held s2 = held s1"
    using write_held [of conn enc s] read_held [of conn s1] by (simp_all add: w r)
  then show ?thesis by (auto simp: exchange_def w r split: option.split sum.split)
qed

lemma doInvoke_held: "held (snd (doInvoke env ctx enc s)) = held s"
proof -
  obtain g s1 where g: "poolGet env s = (g, s1)" by (metis surj_pair)
  show ?thesis
  proof (cases g)
    case (Inl e)
    then show ?thesis using get_error g by (simp add: doInvoke_def)
  next
    case (Inr conn)
    then have "held s1 = Suc (held s)" using get_conn g by simp
    moreover obtain r s2 where x: "exchange env ctx enc conn s1 = (r, s2)" by (metis surj_pair)
    moreover have "held s2 = held s1" using exchange_held [of ctx enc conn s1] x by simp
    ultimately show ?thesis by (simp add: doInvoke_def g Inr put_back)
  qed
qed

end

text \<open>
  One connection to a server of the model: it answers every frame written to it at once, and a
  reader takes the oldest answer that nobody has read; when there is none, the read times out.
\<close>

record pipe =
  pipeHeld :: nat
  pipeUnread :: "bytes list"

definition pipe_write :: "'v server \<Rightarrow> unit \<Rightarrow> bytes \<Rightarrow> pipe \<Rightarrow> (int \<times> go_error option) \<times> pipe" where
  "pipe_write srv c bs p =
     ((int (length bs), None), p\<lparr>pipeUnread := pipeUnread p @ fst (handleConn srv [Inr (bs, None)])\<rparr>)"

definition pipe_read :: "unit \<Rightarrow> pipe \<Rightarrow> read_result \<times> pipe" where
  "pipe_read c p =
     (case pipeUnread p of
        [] \<Rightarrow> (Inr ([], Some (TextError (go_str ''i/o timeout''))), p)
      | w # ws \<Rightarrow> (Inr (w, None), p\<lparr>pipeUnread := ws\<rparr>))"

definition pipe_env :: "'v server \<Rightarrow> (pipe, unit) conn_env" where
  "pipe_env srv =
     \<lparr>poolGet = (\<lambda>p. (Inr (), p\<lparr>pipeHeld := Suc (pipeHeld p)\<rparr>)),
      poolPut = (\<lambda>c p. p\<lparr>pipeHeld := pipeHeld p - 1\<rparr>),
      connWrite = pipe_write srv, connRead = pipe_read\<rparr>"

interpretation server_pipe: conn_pool "pipe_env srv" pipeHeld for srv :: "'v server"
  by unfold_locales
    (auto simp: pipe_env_def pipe_write_def pipe_read_def split: list.split)

lemma served_frame:
  assumes "DecodeReq bs = Inr req" and "Server_Invoke srv Background req = Inr resp"
    and "sendable_response resp"
  obtains w where "handleConn srv [Inr (bs, None)] = ([w], Reading)"
    and "DecodeResp w = Inr (sized_response resp)"
proof -
  obtain w where w: "EncodeResp (sized_response resp) = Inr w"
    using response_codec.enc_total [OF assms(3)] by (auto simp: send_response_def)
  then have "DecodeResp w = Inr (sized_response resp)"
    using response_codec.dec_enc [OF assms(3)] by (simp add: send_response_def)
  moreover have "handleConn srv [Inr (bs, None)] = ([w], Reading)"
    using assms w by (simp add: serve_frame_eq)
  ultimately show thesis using that by blast
qed

lemma sized_response_id [simp]: "respMessageId (sized_response resp) = respMessageId resp"
  by (simp add: sized_response_def CalculateBodyLength_resp_def CalculateHeaderLength_resp_def)

section \<open>The goroutine of a call\<close>

definition inv_reach :: "(go_error + response) go \<Rightarrow> go_error option \<Rightarrow> invocation \<Rightarrow> bool" where
  "inv_reach r err s \<longleftrightarrow> (inv_step r)\<^sup>*\<^sup>* (invoke_start err) s"

fun inv_ok :: "(go_error + response) go \<Rightarrow> invocation \<Rightarrow> bool" where
  "inv_ok r s \<longleftrightarrow>
     (case invWorker s of
        NotStarted \<Rightarrow> (\<exists>e. invCtxErr s = Some e \<and> invMain s = InvokeReturned (Inl e))
      | Sending res \<Rightarrow> r = Inr res
      | Closing \<Rightarrow> (\<exists>res. r = Inr res \<and> invMain s = InvokeReturned res)
      | WorkerEnded \<Rightarrow> (\<exists>res. r = Inr res \<and> invMain s = InvokeReturned res)
      | WorkerPanicked p \<Rightarrow> r = Inl p
      | Working \<Rightarrow> True)
     \<and> (invMain s \<noteq> InSelect \<and> \<not> invWorker s \<in> {Closing, WorkerEnded} \<longrightarrow>
          (\<exists>e. invCtxErr s = Some e \<and> invMain s = InvokeReturned (Inl e)))"

lemma inv_reach_ok: "inv_reach r err s \<Longrightarrow> inv_ok r s"
  unfolding inv_reach_def
proof (induction rule: rtranclp_induct)
  case base
  show ?case by (simp add: invoke_start_def split: option.split)
next
  case (step s t)
  from step.hyps(2) step.IH show ?case
    by cases (auto split: worker.splits)
qed

text \<open>Once \<^verbatim>\<open>Invoke\<close> has returned without taking what the goroutine sends, nothing takes it.\<close>

lemma abandoned_step:
  "inv_step r s t \<Longrightarrow> invMain s \<noteq> InSelect \<Longrightarrow> \<not> invWorker s \<in> {Closing, WorkerEnded} \<Longrightarrow>
     invMain t = invMain s \<and> \<not> invWorker t \<in> {Closing, WorkerEnded}"
  by (erule inv_stepE) auto

lemma abandoned_steps:
  "(inv_step r)\<^sup>*\<^sup>* s t \<Longrightarrow> invMain s \<noteq> InSelect \<Longrightarrow> \<not> invWorker s \<in> {Closing, WorkerEnded} \<Longrightarrow>
     invMain t = invMain s \<and> \<not> invWorker t \<in> {Closing, WorkerEnded}"
proof (induction rule: rtranclp_induct)
  case (step t u)
  then show ?case using abandoned_step [of r t u] by auto
qed simp


lemma call_meta_no_deadline:
  "ctxDeadline ctx = None \<Longrightarrow>
     call_meta ctx = Inr (if isOneway ctx then Some [one_way_key \<mapsto> true_text] else None)"
  by (simp add: call_meta_def)

text \<open>What the server decodes of a request of the client.\<close>

lemma client_request_of:
  assumes "call_meta ctx = Inr meta" and "ctxDeadline ctx = None" and "range_order meta (ord meta)"
    and "splitter \<notin> set svc" and "splitter \<notin> set (ffName fld)" and "length svc + length (ffName fld) < 2 ^ 31"
  shows "\<exists>bs req. EncodeReq (new_request cl svc ord fld meta mid) (ord meta) = Inr bs \<and> DecodeReq bs = Inr req
    \<and> reqServiceName req = svc \<and> reqMethodName req = ffName fld \<and> reqMessageId req = mid
    \<and> reqCompresser req = cCode (clCompressor cl) \<and> reqSerializer req = sCode (clSerializer cl)
    \<and> reqData req = []"
proof -
  let ?raw = "\<lparr>reqHeadLength = 0, reqBodyLength = 0, reqMessageId = mid, reqVersion = 0,
        reqCompresser = cCode (clCompressor cl), reqSerializer = sCode (clSerializer cl),
        reqServiceName = svc, reqMethodName = ffName fld, reqMeta = meta, reqData = []\<rparr>"
  have "mset (ord meta) = mset (if isOneway ctx then [(one_way_key, true_text)] else [])"
    using assms(1-3) by (intro range_order_mset [of meta])
      (auto simp: call_meta_no_deadline range_order_def)
  then have ord: "ord meta = (if isOneway ctx then [(one_way_key, true_text)] else [])"
    by (auto split: if_splits)
  then have "clean_request ?raw (ord meta)"
    using assms(4,5)
    by (simp add: clean_request_def clean_pairs_def one_way_key_def true_text_def splitter_def pairSplitter_def)
  moreover have "length (req_header ?raw (ord meta)) + length (reqData ?raw) < 2 ^ 32"
    using assms(6) by (simp add: length_req_header ord one_way_key_def true_text_def)
  moreover have "new_request cl svc ord fld meta mid = sized_request ?raw (ord meta)"
    by (simp add: new_request_def sized_request_def)
  ultimately show ?thesis
    using EncodeReq_sized [of ?raw "ord meta"] DecodeReq_sized [of ?raw "ord meta"] by simp
qed

section \<open>Properties\<close>

definition sample_client :: "bytes client" where
  "sample_client = \<lparr>clSerializer = sample_json, clCompressor = DoNothingCompressor\<rparr>"

definition sample_field :: "bytes func_field" where
  "sample_field = \<lparr>ffName = go_str ''Echo'', ffCanSet = True, ffIsFunc = True, ffOut = [HasElem [], NoElem]\<rparr>"

definition sample_order :: "go_map option \<Rightarrow> (go_string \<times> go_string) list" where
  "sample_order m = (case m of None \<Rightarrow> [] | Some m \<Rightarrow> [(one_way_key, true_text)])"

lemma sample_encodable: "encodable sample_client (None, DVal b)"
  by (simp add: encodable_def sample_client_def sample_json_def json_serializer_def DoNothingCompressor_def)

lemma sample_new_result: "new_result sample_field = Inr (DVal [])"
  by (simp add: new_result_def sample_field_def index_at_def)

lemma sample_field_out: "length (ffOut sample_field) = 2"
  by (simp add: sample_field_def)

text \<open>
  Two calls that differ only in their argument send the same request and give the same result:
  the encoded argument never gets into the request.
\<close>

theorem call_ignores_argument:
  assumes "encodable cl x" and "encodable cl y"
  shows "service_call cl svc ord proxy fld mid [c, x] = service_call cl svc ord proxy fld mid [c, y]"
  using assms by (cases c) (simp add: service_call_def call_fn_def prepare_call_encodable)

theorem call_ignores_argument_witness:
  "service_call sample_client (go_str ''user'') sample_order (\<lambda>ctx req. Inr (Inl OnewayError)) sample_field 7
     [(Some Background, DNil), (None, DVal [1])] =
   service_call sample_client (go_str ''user'') sample_order (\<lambda>ctx req. Inr (Inl OnewayError)) sample_field 7
     [(Some Background, DNil), (None, DVal [2])]"
  by (rule call_ignores_argument) (rule sample_encodable)+

text \<open>
  A call with a deadline that is not one-way panics before anything is sent: it writes to a
  nil map.
\<close>

theorem deadline_call_panics:
  assumes "encodable cl x" and "new_result fld = Inr out" and "ctxDeadline ctx = Some d" and "\<not> isOneway ctx"
  shows "service_call cl svc ord proxy fld mid [(Some ctx, v), x] = (mid, Inl NilMapWrite)"
  using assms
  by (simp add: service_call_def call_fn_def prepare_call_encodable call_meta_def make_func_def)

theorem deadline_call_panics_witness:
  "service_call sample_client (go_str ''user'') sample_order (\<lambda>ctx req. Inr (Inl OnewayError)) sample_field 7
     [(Some (WithDeadline Background 5000000), DNil), (None, DVal [1])] = (7, Inl NilMapWrite)"
  by (rule deadline_call_panics [OF sample_encodable sample_new_result])
    (simp_all add: WithDeadline_def Background_def isOneway_def)

text \<open>
  C34: No call returns without an error: when it returns at all, its second result is an error. When
  the server answered without an error, the call panics instead.
\<close>

theorem no_call_succeeds:
  assumes "service_call cl svc ord proxy fld mid args = (mid', Inr vs)"
  shows "\<exists>v e. vs = [v, DErr e]"
proof -
  obtain rs where rs: "call_fn cl svc ord proxy fld mid args = (mid', Inr rs)" "rvals rs = Inr vs"
    using assms by (auto simp: service_call_def make_func_def split: prod.splits if_split_asm elim!: go_bindE)
  show ?thesis using rs by (elim call_fn_results) auto
qed

theorem no_call_succeeds_witness:
  "\<exists>v e. service_call sample_client (go_str ''user'') sample_order
     (\<lambda>ctx req. Inr (Inr (sample_response\<lparr>respData := []\<rparr>))) sample_field 7
     [(Some Background, DNil), (None, DVal [1])] = (8, Inr [v, DErr e])"
proof -
  have *: "service_call sample_client (go_str ''user'') sample_order
     (\<lambda>ctx req. Inr (Inr (sample_response\<lparr>respData := []\<rparr>))) sample_field 7
     [(Some Background, DNil), (None, DVal [1])] = (8, Inr [DVal [], DErr (TextError [10, 13])])"
    by (simp add: service_call_def call_fn_def prepare_call_encodable [OF sample_encodable]
        sample_new_result call_meta_def Background_def isOneway_def finish_call_def sample_response_def
        make_func_def sample_field_out)
  from no_call_succeeds [OF *] * show ?thesis by blast
qed

text \<open>
  Over up to \<open>2 ^ 32\<close> calls, no two requests carry the same message id.
\<close>

theorem message_ids_distinct:
  assumes "length argss \<le> 2 ^ 32"
  shows "distinct (map reqMessageId (session_requests cl svc ord fld mid argss))"
  unfolding session_ids
  by (rule distinct_word_range) (rule order.trans [OF session_length assms])

theorem message_ids_distinct_witness:
  "distinct (map reqMessageId (session_requests sample_client (go_str ''user'') sample_order sample_field
     4294967295 [[(Some Background, DNil), (None, DVal [1])], [(Some Background, DNil), (None, DVal [2])]]))"
  by (rule message_ids_distinct) simp

text \<open>
  A request that the client builds for a call without deadline is encoded without panic, and
  the server decodes from it the service, the method, the message id and the codes, and no data.
\<close>

theorem client_request_decoded:
  assumes "call_meta ctx = Inr meta" and "ctxDeadline ctx = None" and "range_order meta (ord meta)"
    and "splitter \<notin> set svc" and "splitter \<notin> set (ffName fld)" and "length svc + length (ffName fld) < 2 ^ 31"
  shows "\<exists>bs req. EncodeReq (new_request cl svc ord fld meta mid) (ord meta) = Inr bs \<and> DecodeReq bs = Inr req
    \<and> reqServiceName req = svc \<and> reqMethodName req = ffName fld \<and> reqMessageId req = mid
    \<and> reqCompresser req = cCode (clCompressor cl) \<and> reqSerializer req = sCode (clSerializer cl)
    \<and> reqData req = []"
  by (rule client_request_of [where ord = ord, OF assms])

theorem client_request_decoded_witness:
  "\<exists>bs req. EncodeReq (new_request sample_client (go_str ''user'') sample_order sample_field
        (Some [one_way_key \<mapsto> true_text]) 8) [(one_way_key, true_text)] = Inr bs
    \<and> DecodeReq bs = Inr req \<and> reqServiceName req = go_str ''user'' \<and> reqData req = []"
proof -
  have m: "call_meta (CtxWithOneway Background) = Inr (Some [one_way_key \<mapsto> true_text])"
    by (simp add: call_meta_def CtxWithOneway_def Background_def isOneway_def)
  have o: "sample_order (Some [one_way_key \<mapsto> true_text]) = [(one_way_key, true_text)]"
    by (simp add: sample_order_def)
  from client_request_decoded [OF m, of sample_order "go_str ''user''" sample_field sample_client 8]
  show ?thesis
    by (auto simp: CtxWithOneway_def Background_def o range_order_def sample_field_def splitter_def)
qed

text \<open>
  Whatever happens in an exchange, errors and panics included, the connection taken from the
  pool is put back.
\<close>

theorem connection_put_back:
  assumes "conn_pool env held"
  shows "held (snd (doInvoke env ctx enc s)) = held s"
  using assms by (rule conn_pool.doInvoke_held)

theorem connection_put_back_witness:
  "pipeHeld (snd (doInvoke (pipe_env sample_server) Background [1, 2, 3] \<lparr>pipeHeld = 0, pipeUnread = []\<rparr>)) = 0"
  using connection_put_back [OF server_pipe.conn_pool_axioms [of sample_server], of Background "[1, 2, 3]"
      "\<lparr>pipeHeld = 0, pipeUnread = []\<rparr>"] by simp



text \<open>
  When \<^verbatim>\<open>Invoke\<close> has returned, either it returned what the exchange gave and the goroutine is
  past its send, or it returned the error of the context and the goroutine never ends: in no later
  state has its send on the channel gone through.
\<close>

theorem abandoned_goroutine_leaks:
  assumes "inv_reach r None s" and "invMain s = InvokeReturned res"
  shows "r = Inr res \<and> invWorker s \<in> {Closing, WorkerEnded}
    \<or> (\<exists>e. invCtxErr s = Some e \<and> res = Inl e)
        \<and> {t. (inv_step r)\<^sup>*\<^sup>* s t \<and> invWorker t \<in> {Closing, WorkerEnded}} = {}"
proof (cases "invWorker s \<in> {Closing, WorkerEnded}")
  case True
  then show ?thesis using inv_reach_ok [OF assms(1)] assms(2) by (auto split: worker.splits)
next
  case False
  then have "\<exists>e. invCtxErr s = Some e \<and> res = Inl e"
    using inv_reach_ok [OF assms(1)] assms(2) by auto
  then show ?thesis using False abandoned_steps [of r s] assms(2) by fastforce
qed

theorem abandoned_goroutine_leaks_witness:
  "\<exists>s. inv_reach (Inr (Inl OnewayError)) None s \<and> invMain s = InvokeReturned (Inl CtxCanceled)
     \<and> {t. (inv_step (Inr (Inl OnewayError)))\<^sup>*\<^sup>* s t \<and> invWorker t \<in> {Closing, WorkerEnded}} = {}"
proof -
  let ?r = "Inr (Inl OnewayError) :: (go_error + response) go"
  let ?s1 = "(invoke_start None)\<lparr>invCtxErr := Some CtxCanceled\<rparr>"
  let ?s2 = "?s1\<lparr>invMain := InvokeReturned (Inl CtxCanceled)\<rparr>"
  have "inv_step ?r (invoke_start None) ?s1" by (rule ctx_ends) (simp add: invoke_start_def)
  moreover have "inv_step ?r ?s1 ?s2" by (rule ctx_done) (simp_all add: invoke_start_def)
  ultimately have reach: "inv_reach ?r None ?s2" by (simp add: inv_reach_def)
  have ret: "invMain ?s2 = InvokeReturned (Inl CtxCanceled)" by simp
  show ?thesis
    using abandoned_goroutine_leaks [OF reach ret] reach by (intro exI [of _ ?s2]) (auto simp: invoke_start_def)
qed

end
