(* ===== verification/Balancer.thy ===== *)
theory Balancer
  imports Errs
begin

text \<open>
  What the load balancers share (\<^verbatim>\<open>loadbalance/types.go\<close>): the filter by group, the connections a
  picker is built from, and the contract of a picker.

  \<^item> Of \<^verbatim>\<open>resolver.Address\<close> the code uses the address text and the attributes, of the context of a
    call its value under \<^verbatim>\<open>"group"\<close>. A missing value is \<open>None\<close>, as \<^verbatim>\<open>Value\<close> returns nil.
  \<^item> A ready connection is a pair of a sub-connection and its address; the ready connections come
    as a list, in the order in which the range over the map of \<^verbatim>\<open>ReadySCs\<close> sees them.
  \<^item> A picker returns the index of the connection it chose.
\<close>

section \<open>Addresses and filters\<close>

datatype attr_value = AttrString go_string | AttrUint32 u32 | AttrOther nat

record address =
  addrAddr :: go_string
  addrAttrs :: "go_string \<rightharpoonup> attr_value"

record pick_info =
  piGroup :: "attr_value option"

definition group_key :: go_string where
  "group_key = go_str ''group''"

definition weight_key :: go_string where
  "weight_key = go_str ''weight''"

type_synonym filter_fn = "pick_info \<Rightarrow> address \<Rightarrow> bool"

definition GroupFilter :: filter_fn where
  "GroupFilter info addr =
     (case piGroup info of
        None \<Rightarrow> True
      | Some g \<Rightarrow> Some g = addrAttrs addr group_key)"

text \<open>\<^verbatim>\<open>s, _ := v.(string)\<close>: the string, or the empty one.\<close>

fun as_string :: "attr_value option \<Rightarrow> go_string" where
  "as_string (Some (AttrString s)) = s"
| "as_string _ = []"

definition GroupFilterBuilder_Build :: filter_fn where
  "GroupFilterBuilder_Build info addr =
     (case piGroup info of
        None \<Rightarrow> True
      | Some g \<Rightarrow> as_string (addrAttrs addr group_key) = as_string (Some g))"

text \<open>The filter of a picker whose builder has none.\<close>

definition no_filter :: filter_fn where
  "no_filter info addr = True"

definition built_filter :: "filter_fn option \<Rightarrow> filter_fn" where
  "built_filter f = (case f of None \<Rightarrow> no_filter | Some f \<Rightarrow> f)"

section \<open>Candidates\<close>

text \<open>The indexes of the addresses that pass the filter, in order.\<close>

definition candidates :: "filter_fn \<Rightarrow> pick_info \<Rightarrow> address list \<Rightarrow> nat list" where
  "candidates f info addrs = filter (\<lambda>i. f info (addrs ! i)) [0..<length addrs]"

lemma set_candidates: "set (candidates f info addrs) = {i. i < length addrs \<and> f info (addrs ! i)}"
  by (auto simp: candidates_def)

lemma candidates_no_filter [pick_facts]: "candidates no_filter info addrs = [0..<length addrs]"
  by (simp add: candidates_def no_filter_def)

lemma distinct_candidates: "distinct (candidates f info addrs)"
  by (simp add: candidates_def)

lemma candidates_Nil_iff: "candidates f info addrs = [] \<longleftrightarrow> (\<forall>a \<in> set addrs. \<not> f info a)"
  by (auto simp: candidates_def filter_empty_conv all_set_conv_all_nth)

lemma candidates_Cons:
  "candidates f info (a # addrs) = (if f info a then [0] else []) @ map Suc (candidates f info addrs)"
  by (simp add: candidates_def upt_conv_Cons filter_map comp_def del: upt_Suc flip: map_Suc_upt)

lemma count_list_map_upt: "count_list (map f [0..<n]) x = card {i. i < n \<and> f i = x}"
proof (induction n)
  case (Suc n)
  have "{i. i < Suc n \<and> f i = x} = {i. i < n \<and> f i = x} \<union> (if f n = x then {n} else {})"
    by (auto simp: less_Suc_eq)
  then show ?case using Suc by simp
qed simp

section \<open>The contract of a picker\<close>

text \<open>
  A picker chooses among the usable connections and fails with \<^verbatim>\<open>ErrNoSubConnAvailable\<close> exactly when
  there is none; picking does not change what is usable. \<open>wf\<close> is what holds of a picker, \<open>legal\<close> what
  an input must satisfy, such as the range of a random number.
\<close>

locale picker =
  fixes pick :: "'s \<Rightarrow> 'i \<Rightarrow> (go_error + nat) \<times> 's"
    and usable :: "'s \<Rightarrow> 'i \<Rightarrow> nat set"
    and wf :: "'s \<Rightarrow> bool"
    and legal :: "'i \<Rightarrow> bool"
  assumes pick_none: "usable s i = {} \<Longrightarrow> fst (pick s i) = Inl ErrNoSubConnAvailable"
    and pick_some: "wf s \<Longrightarrow> legal i \<Longrightarrow> usable s i \<noteq> {} \<Longrightarrow> \<exists>k \<in> usable s i. fst (pick s i) = Inr k"
    and usable_pick: "usable (snd (pick s i)) = usable s"
    and wf_pick: "wf s \<Longrightarrow> wf (snd (pick s i))"
begin

fun picks :: "'s \<Rightarrow> 'i list \<Rightarrow> (go_error + nat) list" where
  "picks s [] = []"
| "picks s (i # is) = fst (pick s i) # picks (snd (pick s i)) is"

definition served :: "'s \<Rightarrow> 'i \<Rightarrow> go_error + nat \<Rightarrow> bool" where
  "served s i r \<longleftrightarrow>
     (if usable s i = {} then r = Inl ErrNoSubConnAvailable else \<exists>k \<in> usable s i. r = Inr k)"

lemma pick_served: "wf s \<Longrightarrow> legal i \<Longrightarrow> served s i (fst (pick s i))"
  using pick_none [of s i] pick_some [of s i] by (auto simp: served_def)

lemma served_pick: "served (snd (pick s i)) = served s"
  by (simp add: served_def fun_eq_iff usable_pick)

lemma picks_served: "wf s \<Longrightarrow> list_all legal is \<Longrightarrow> list_all2 (served s) is (picks s is)"
proof (induction "is" arbitrary: s)
  case (Cons i "is")
  then show ?case
    using pick_served [of s i] wf_pick [of s i]
    by (simp add: Cons.IH [of "snd (pick s i)", unfolded served_pick])
qed simp

lemma pick_fails_iff:
  "wf s \<Longrightarrow> legal i \<Longrightarrow> fst (pick s i) = Inl ErrNoSubConnAvailable \<longleftrightarrow> usable s i = {}"
  using pick_none [of s i] pick_some [of s i] by (metis Inl_Inr_False)

end

section \<open>Properties\<close>

text \<open>
  The two group filters agree when neither the call nor the address carries an empty group or
  one that is not a string; with an empty group they need not.
\<close>

definition plain_group :: "attr_value option \<Rightarrow> bool" where
  "plain_group g \<longleftrightarrow> g = None \<or> (\<exists>s. g = Some (AttrString s) \<and> s \<noteq> [])"

theorem group_filters_agree:
  assumes "plain_group (piGroup info)" and "plain_group (addrAttrs addr group_key)"
  shows "GroupFilterBuilder_Build info addr = GroupFilter info addr"
  using assms
  by (auto simp: plain_group_def GroupFilter_def GroupFilterBuilder_Build_def)

theorem group_filters_agree_witness:
  "GroupFilterBuilder_Build \<lparr>piGroup = Some (AttrString [66])\<rparr> \<lparr>addrAddr = [], addrAttrs = [group_key \<mapsto> AttrString [65]]\<rparr>
   = GroupFilter \<lparr>piGroup = Some (AttrString [66])\<rparr> \<lparr>addrAddr = [], addrAttrs = [group_key \<mapsto> AttrString [65]]\<rparr>"
  by (rule group_filters_agree) (simp_all add: plain_group_def)

end
