(* ===== verification/RoundRobin.thy ===== *)
theory RoundRobin
  imports Balancer
begin

text \<open>
  The round-robin picker (\<^verbatim>\<open>loadbalance/roundrobin/picker.go\<close>). \<^verbatim>\<open>Pick\<close> runs under the mutex of the
  picker, so a run of the picker is a sequence of picks.
\<close>

section \<open>Data\<close>

record 'c rr_conn =
  rrName :: go_string
  rrSubConn :: 'c
  rrAddress :: address

record 'c rr_picker =
  rrCnt :: u64
  rrConnections :: "'c rr_conn list"
  rrFilter :: filter_fn

definition rr_Build :: "filter_fn option \<Rightarrow> ('c \<times> address) list \<Rightarrow> 'c rr_picker" where
  "rr_Build f ready =
     \<lparr>rrCnt = 0,
      rrConnections = map (\<lambda>(c, a). \<lparr>rrName = addrAddr a, rrSubConn = c, rrAddress = a\<rparr>) ready,
      rrFilter = built_filter f\<rparr>"

section \<open>Pick\<close>

text \<open>The loop that collects the candidates: \<open>i\<close> is the index of the connection it looks at.\<close>

fun rr_collect :: "filter_fn \<Rightarrow> pick_info \<Rightarrow> nat \<Rightarrow> 'c rr_conn list \<Rightarrow> nat list" where
  "rr_collect f info i [] = []"
| "rr_collect f info i (con # cons) =
     (if \<not> f info (rrAddress con) then rr_collect f info (Suc i) cons
      else i # rr_collect f info (Suc i) cons)"

definition rr_Pick :: "'c rr_picker \<Rightarrow> pick_info \<Rightarrow> (go_error + nat) \<times> 'c rr_picker" where
  "rr_Pick p info =
     (let cands = rr_collect (rrFilter p) info 0 (rrConnections p)
      in if length cands = 0 then (Inl ErrNoSubConnAvailable, p)
         else (let index = rrCnt p mod of_nat (length cands)
               in (Inr (cands ! unat index), p\<lparr>rrCnt := rrCnt p + 1\<rparr>)))"

section \<open>Facts\<close>

lemma rr_collect_eq:
  "rr_collect f info n cons = map (\<lambda>i. n + i) (candidates f info (map rrAddress cons))"
proof (induction cons arbitrary: n rule: list.induct)
  case (Cons con cons)
  show ?case using Cons.IH [of "Suc n"] by (simp add: candidates_Cons)
qed (simp add: candidates_def)

text \<open>The usable connections of a picker.\<close>

definition rr_usable :: "'c rr_picker \<Rightarrow> pick_info \<Rightarrow> nat list" where
  "rr_usable p info = candidates (rrFilter p) info (map rrAddress (rrConnections p))"

lemma rr_Pick_eq:
  "rr_Pick p info =
     (if rr_usable p info = [] then (Inl ErrNoSubConnAvailable, p)
      else (Inr (rr_usable p info ! unat (rrCnt p mod of_nat (length (rr_usable p info)))),
            p\<lparr>rrCnt := rrCnt p + 1\<rparr>))"
  by (simp add: rr_Pick_def rr_usable_def rr_collect_eq Let_def)

lemma rr_usable_pick [simp]: "rr_usable (snd (rr_Pick p info)) = rr_usable p"
  by (simp add: rr_Pick_eq fun_eq_iff rr_usable_def)

text \<open>The length of a list that fits in memory is a \<^verbatim>\<open>uint64\<close>.\<close>

definition rr_fits :: "'c rr_picker \<Rightarrow> bool" where
  "rr_fits p \<longleftrightarrow> length (rrConnections p) < 2 ^ 64"

lemma length_rr_usable: "length (rr_usable p info) \<le> length (rrConnections p)"
  unfolding rr_usable_def candidates_def
  by (metis length_filter_le length_map length_upt minus_nat.diff_0)

lemma unat_mod_length:
  assumes "n < 2 ^ 64"
  shows "unat ((c :: u64) mod of_nat n) = unat c mod n"
  using assms by (simp add: unat_mod unat_of_nat take_bit_nat_eq_self)


interpretation rr: picker rr_Pick "\<lambda>p info. set (rr_usable p info)" rr_fits "\<lambda>_. True"
proof
  fix p :: "'a rr_picker" and info
  show "set (rr_usable p info) = {} \<Longrightarrow> fst (rr_Pick p info) = Inl ErrNoSubConnAvailable"
    by (simp add: rr_Pick_eq)
  show "rr_fits (snd (rr_Pick p info))" if "rr_fits p"
    using that by (simp add: rr_Pick_eq rr_fits_def)
  show "(\<lambda>info'. set (rr_usable (snd (rr_Pick p info)) info')) = (\<lambda>info. set (rr_usable p info))"
    by simp
  assume "rr_fits p" and some: "set (rr_usable p info) \<noteq> {}"
  then have "length (rr_usable p info) < 2 ^ 64"
    using length_rr_usable [of p info] by (simp add: rr_fits_def)
  then have "unat (rrCnt p mod of_nat (length (rr_usable p info))) < length (rr_usable p info)"
    using some by (simp add: unat_mod_length)
  then show "\<exists>k \<in> set (rr_usable p info). fst (rr_Pick p info) = Inr k"
    using some by (simp add: rr_Pick_eq)
qed

section \<open>Runs of picks\<close>

lemma rr_picks_eq:
  assumes "length us < 2 ^ 64" and "us \<noteq> []"
    and "\<And>info. info \<in> set infos \<Longrightarrow> rr_usable p info = us"
    and "unat (rrCnt p) + length infos \<le> 2 ^ 64"
  shows "rr.picks p infos = map (\<lambda>i. Inr (us ! ((unat (rrCnt p) + i) mod length us))) [0..<length infos]"
  using assms(3,4)
proof (induction infos arbitrary: p)
  case (Cons info infos)
  define q where "q = p\<lparr>rrCnt := rrCnt p + 1\<rparr>"
  have us: "rr_usable p info = us" using Cons.prems(1) by simp
  have pick: "rr_Pick p info = (Inr (us ! (unat (rrCnt p) mod length us)), q)"
    using assms(1,2) by (simp add: rr_Pick_eq us unat_mod_length q_def)
  have step: "rr.picks q infos = map (\<lambda>i. Inr (us ! ((Suc (unat (rrCnt p)) + i) mod length us))) [0..<length infos]"
  proof (cases "infos = []")
    case False
    then have "unat (rrCnt p) + 1 < 2 ^ 64" using Cons.prems(2) by (cases infos) simp_all
    then have "unat (rrCnt q) = Suc (unat (rrCnt p))"
      by (simp add: q_def unat_word_ariths)
    moreover have "rr_usable q = rr_usable p" by (simp add: q_def rr_usable_def fun_eq_iff)
    ultimately show ?thesis using Cons.IH [of q] Cons.prems by simp
  qed simp
  show ?case
    by (simp add: pick step upt_conv_Cons del: upt_Suc flip: map_Suc_upt)
qed simp

text \<open>In \<open>m\<close> consecutive numbers, \<open>m\<close> a multiple of \<open>n\<close>, each residue occurs equally often.\<close>

lemma card_residue:
  assumes "k < (n :: nat)"
  shows "card {i. i < m * n \<and> (c + i) mod n = k} = m"
proof (induction m)
  case (Suc m)
  define j where "j = (k + (n - c mod n)) mod n"
  have j: "j < n" "(c + j) mod n = k"
  proof -
    show "j < n" using assms by (simp add: j_def)
    have "(c + j) mod n = (c mod n + (k + (n - c mod n))) mod n"
      by (simp add: j_def mod_simps)
    also have "c mod n + (k + (n - c mod n)) = k + n"
      using assms mod_less_divisor [of n c] by linarith
    finally show "(c + j) mod n = k" using assms by simp
  qed
  have uniq: "i = j" if "i < n" "(c + i) mod n = k" for i
  proof -
    have "(c + i) mod n = (c + j) mod n" using that j by simp
    then obtain q1 q2 where "c + i + n * q1 = c + j + n * q2" unfolding nat_mod_eq_iff by blast
    then have "i + n * q1 = j + n * q2" by simp
    then have "i mod n = j mod n" unfolding nat_mod_eq_iff by blast
    then show ?thesis using that j by simp
  qed
  have "{i. i < Suc m * n \<and> (c + i) mod n = k} = insert (m * n + j) {i. i < m * n \<and> (c + i) mod n = k}"
  proof (intro equalityI subsetI)
    fix i assume "i \<in> {i. i < Suc m * n \<and> (c + i) mod n = k}"
    then have i: "i < m * n + n" "(c + i) mod n = k" by (simp_all add: add.commute)
    show "i \<in> insert (m * n + j) {i. i < m * n \<and> (c + i) mod n = k}"
    proof (cases "i < m * n")
      case False
      then have "c + i = c + (i - m * n) + m * n" by simp
      then have "i - m * n < n" "(c + (i - m * n)) mod n = k"
        using i False by (simp, metis mod_mult_self1)
      then have "i = m * n + j" using uniq [of "i - m * n"] False by simp
      then show ?thesis by simp
    qed (use i in simp)
  next
    fix i assume "i \<in> insert (m * n + j) {i. i < m * n \<and> (c + i) mod n = k}"
    then show "i \<in> {i. i < Suc m * n \<and> (c + i) mod n = k}"
      using j by (auto simp: add.left_commute [of c] mult.commute [of m])
  qed
  then show ?case using Suc.IH by simp
qed simp

lemma rr_rounds:
  assumes "rr_fits p" and "k \<in> set us" and "list_all (\<lambda>info. rr_usable p info = us) infos"
    and "length infos = m * length us" and "unat (rrCnt p) + length infos \<le> 2 ^ 64"
  shows "count_list (rr.picks p infos) (Inr k) = m"
proof (cases infos)
  case Nil
  then show ?thesis using assms(2,4) by auto
next
  case (Cons info _)
  then have us: "us = rr_usable p info" using assms(3) by simp
  then have fits: "length us < 2 ^ 64" and dist: "distinct us"
    using length_rr_usable [of p info] assms(1) distinct_candidates by (auto simp: rr_fits_def rr_usable_def)
  obtain j where j: "j < length us" "us ! j = k" using assms(2) by (auto simp: in_set_conv_nth)
  have eq: "us ! ((c + i) mod length us) = k \<longleftrightarrow> (c + i) mod length us = j" for c i
    using j dist by (metis mod_less_divisor nth_eq_iff_index_eq gr_implies_not0 not_gr_zero)
  have "rr.picks p infos = map (\<lambda>i. Inr (us ! ((unat (rrCnt p) + i) mod length us))) [0..<length infos]"
    using fits assms(2,3,5) by (intro rr_picks_eq) (auto simp: list_all_iff)
  then have "count_list (rr.picks p infos) (Inr k) = card {i. i < m * length us \<and> (unat (rrCnt p) + i) mod length us = j}"
    by (simp add: count_list_map_upt eq assms(4))
  then show ?thesis using card_residue [OF j(1)] by simp
qed

section \<open>Properties\<close>

text \<open>
  C18: As long as the same connections are usable and the counter does not wrap, any \<open>m\<close> full rounds
  of picks choose every usable connection exactly \<open>m\<close> times.
\<close>

theorem round_robin_fair:
  assumes "rr_fits p" and "k \<in> set us" and "list_all (\<lambda>info. rr_usable p info = us) infos"
    and "length infos = m * length us" and "unat (rrCnt p) + length infos \<le> 2 ^ 64"
  shows "count_list (rr.picks p infos) (Inr k) = m"
  using assms by (rule rr_rounds)

definition sample_addresses :: "(nat \<times> address) list" where
  "sample_addresses =
     [(0, \<lparr>addrAddr = [1], addrAttrs = [group_key \<mapsto> AttrString [65]]\<rparr>),
      (1, \<lparr>addrAddr = [2], addrAttrs = [group_key \<mapsto> AttrString [66]]\<rparr>),
      (2, \<lparr>addrAddr = [3], addrAttrs = [group_key \<mapsto> AttrString [65]]\<rparr>)]"

definition sample_info :: pick_info where
  "sample_info = \<lparr>piGroup = Some (AttrString [65])\<rparr>"

lemma sample_candidates: "candidates GroupFilter sample_info (map snd sample_addresses) = [0, 2]"
  by (simp add: candidates_def sample_addresses_def sample_info_def GroupFilter_def upt_rec)

theorem round_robin_fair_witness:
  "count_list (rr.picks (rr_Build (Some GroupFilter) sample_addresses) (replicate 6 sample_info)) (Inr 2) = 3"
proof (rule round_robin_fair [where us = "[0, 2]"])
  have "map rrAddress (rrConnections (rr_Build (Some GroupFilter) sample_addresses)) = map snd sample_addresses"
    by (simp add: rr_Build_def case_prod_beta)
  then have "rr_usable (rr_Build (Some GroupFilter) sample_addresses) sample_info = [0, 2]"
    using sample_candidates by (simp add: rr_usable_def) (simp add: rr_Build_def built_filter_def)
  then show "list_all (\<lambda>info. rr_usable (rr_Build (Some GroupFilter) sample_addresses) info = [0, 2]) (replicate 6 sample_info)"
    by (simp add: list_all_iff)
qed (simp_all add: rr_fits_def rr_Build_def sample_addresses_def)

end
