(* ===== verification/RandomPicker.thy ===== *)
theory RandomPicker
  imports Balancer
begin

text \<open>
  The random pickers (\<^verbatim>\<open>loadbalance/random\<close>). The number that \<^verbatim>\<open>rand.Intn(n)\<close> returns is an input:
  a function of \<open>n\<close>, legal when it is in the range \<open>0 \<le> r < n\<close>. The builders are those of the other
  pickers: they panic, for the weighted one, on an address without a weight.
\<close>

section \<open>Random\<close>

record 'c rnd_conn =
  rndSubConn :: 'c
  rndAddress :: address

record 'c rnd_picker =
  rndConnections :: "'c rnd_conn list"
  rndFilter :: filter_fn

definition rnd_Build :: "filter_fn option \<Rightarrow> ('c \<times> address) list \<Rightarrow> 'c rnd_picker" where
  "rnd_Build f ready =
     \<lparr>rndConnections = map (\<lambda>(c, a). \<lparr>rndSubConn = c, rndAddress = a\<rparr>) ready,
      rndFilter = built_filter f\<rparr>"

fun rnd_collect :: "filter_fn \<Rightarrow> pick_info \<Rightarrow> nat \<Rightarrow> 'c rnd_conn list \<Rightarrow> nat list" where
  "rnd_collect f info i [] = []"
| "rnd_collect f info i (con # cons) =
     (if \<not> f info (rndAddress con) then rnd_collect f info (Suc i) cons
      else i # rnd_collect f info (Suc i) cons)"

type_synonym intn = "int \<Rightarrow> int"

definition rnd_Pick :: "'c rnd_picker \<Rightarrow> pick_info \<times> intn \<Rightarrow> (go_error + nat) \<times> 'c rnd_picker" where
  "rnd_Pick p i =
     (case i of (info, intn) \<Rightarrow>
        if length (rndConnections p) = 0 then (Inl ErrNoSubConnAvailable, p)
        else (let cands = rnd_collect (rndFilter p) info 0 (rndConnections p)
              in if length cands = 0 then (Inl ErrNoSubConnAvailable, p)
                 else (let index = intn (int (length cands)) in (Inr (cands ! nat index), p))))"

section \<open>Weighted random\<close>

record 'c wrnd_conn =
  wrndWeight :: u32
  wrndSubConn :: 'c
  wrndAddress :: address

record 'c wrnd_picker =
  wrndConnections :: "'c wrnd_conn list"
  wrndFilter :: filter_fn

definition wrnd_weight_of :: "address \<Rightarrow> u32 go" where
  "wrnd_weight_of a =
     (case addrAttrs a weight_key of Some (AttrUint32 w) \<Rightarrow> Inr w | _ \<Rightarrow> Inl TypeAssertion)"

fun wrnd_connections :: "('c \<times> address) list \<Rightarrow> 'c wrnd_conn list go" where
  "wrnd_connections [] = Inr []"
| "wrnd_connections ((c, a) # ready) =
     go_bind (wrnd_weight_of a) (\<lambda>w.
     go_bind (wrnd_connections ready) (\<lambda>cons.
       Inr (\<lparr>wrndWeight = w, wrndSubConn = c, wrndAddress = a\<rparr> # cons)))"

definition wrnd_Build :: "filter_fn option \<Rightarrow> ('c \<times> address) list \<Rightarrow> 'c wrnd_picker go" where
  "wrnd_Build f ready =
     go_bind (wrnd_connections ready) (\<lambda>cons. Inr \<lparr>wrndConnections = cons, wrndFilter = built_filter f\<rparr>)"

text \<open>The first loop adds the weights up, in 32 bits.\<close>

fun wrnd_total :: "filter_fn \<Rightarrow> pick_info \<Rightarrow> u32 \<Rightarrow> 'c wrnd_conn list \<Rightarrow> u32" where
  "wrnd_total f info tot [] = tot"
| "wrnd_total f info tot (con # cons) =
     (if \<not> f info (wrndAddress con) then wrnd_total f info tot cons
      else wrnd_total f info (tot + wrndWeight con) cons)"

text \<open>The second one takes them off the random number; \<open>None\<close> is the end of the loop.\<close>

fun wrnd_scan :: "filter_fn \<Rightarrow> pick_info \<Rightarrow> nat \<Rightarrow> int \<Rightarrow> 'c wrnd_conn list \<Rightarrow> nat option" where
  "wrnd_scan f info i val [] = None"
| "wrnd_scan f info i val (con # cons) =
     (if \<not> f info (wrndAddress con) then wrnd_scan f info (Suc i) val cons
      else (let val = val - uint (wrndWeight con)
            in if val \<le> 0 then Some i else wrnd_scan f info (Suc i) val cons))"

definition wrnd_Pick :: "'c wrnd_picker \<Rightarrow> pick_info \<times> intn \<Rightarrow> (go_error + nat) \<times> 'c wrnd_picker" where
  "wrnd_Pick p i =
     (case i of (info, intn) \<Rightarrow>
        if length (wrndConnections p) = 0 then (Inl ErrNoSubConnAvailable, p)
        else (let tot = wrnd_total (wrndFilter p) info 0 (wrndConnections p);
                  val = intn (uint tot + 1)
              in case wrnd_scan (wrndFilter p) info 0 val (wrndConnections p) of
                   None \<Rightarrow> (Inl ErrNoSubConnAvailable, p)
                 | Some k \<Rightarrow> (Inr k, p)))"

section \<open>Facts\<close>

definition legal_intn :: "pick_info \<times> intn \<Rightarrow> bool" where
  "legal_intn i \<longleftrightarrow> (\<forall>n > 0. 0 \<le> snd i n \<and> snd i n < n)"

lemma legal_intnD: "legal_intn i \<Longrightarrow> 0 < n \<Longrightarrow> 0 \<le> snd i n \<and> snd i n < n"
  by (simp add: legal_intn_def)

lemma rnd_collect_eq:
  "rnd_collect f info n cons = map (\<lambda>i. n + i) (candidates f info (map rndAddress cons))"
proof (induction cons arbitrary: n rule: list.induct)
  case (Cons con cons)
  then show ?case using Cons.IH [of "Suc n"] by (simp add: candidates_Cons)
qed (simp add: candidates_def)

definition rnd_usable :: "'c rnd_picker \<Rightarrow> pick_info \<times> intn \<Rightarrow> nat list" where
  "rnd_usable p i = candidates (rndFilter p) (fst i) (map rndAddress (rndConnections p))"

lemma rnd_Pick_eq:
  "rnd_Pick p i =
     (if rnd_usable p i = [] then (Inl ErrNoSubConnAvailable, p)
      else (Inr (rnd_usable p i ! nat (snd i (int (length (rnd_usable p i))))), p))"
proof -
  have "rndConnections p = [] \<Longrightarrow> rnd_usable p i = []" by (simp add: rnd_usable_def candidates_def)
  then show ?thesis by (auto simp: rnd_Pick_def rnd_usable_def rnd_collect_eq Let_def split: prod.split)
qed

interpretation rnd: picker rnd_Pick "\<lambda>p i. set (rnd_usable p i)" "\<lambda>_. True" legal_intn
proof
  fix p :: "'a rnd_picker" and i :: "pick_info \<times> intn"
  assume "legal_intn i" and some: "set (rnd_usable p i) \<noteq> {}"
  then have "0 \<le> snd i (int (length (rnd_usable p i)))" "snd i (int (length (rnd_usable p i))) < int (length (rnd_usable p i))"
    by (auto simp: legal_intn_def)
  then have "nat (snd i (int (length (rnd_usable p i)))) < length (rnd_usable p i)" by linarith
  then show "\<exists>k \<in> set (rnd_usable p i). fst (rnd_Pick p i) = Inr k"
    using some by (simp add: rnd_Pick_eq)
qed (simp_all add: rnd_Pick_eq)

definition wrnd_usable :: "'c wrnd_picker \<Rightarrow> pick_info \<times> intn \<Rightarrow> nat list" where
  "wrnd_usable p i = candidates (wrndFilter p) (fst i) (map wrndAddress (wrndConnections p))"

definition wrnd_sum :: "filter_fn \<Rightarrow> pick_info \<Rightarrow> 'c wrnd_conn list \<Rightarrow> int" where
  "wrnd_sum f info cons = sum_list (map (\<lambda>con. if f info (wrndAddress con) then uint (wrndWeight con) else 0) cons)"

lemma wrnd_sum_simps [simp]:
  "wrnd_sum f info [] = 0"
  "wrnd_sum f info (con # cons) = (if f info (wrndAddress con) then uint (wrndWeight con) else 0) + wrnd_sum f info cons"
  by (simp_all add: wrnd_sum_def)

lemma wrnd_sum_nonneg: "0 \<le> wrnd_sum f info cons"
  by (induction cons) simp_all

lemma wrnd_total_eq: "wrnd_total f info tot cons = tot + word_of_int (wrnd_sum f info cons)"
  by (induction cons arbitrary: tot) (simp_all add: add.assoc)

text \<open>The second loop only sees the candidates and their weights.\<close>

fun scan_pairs :: "int \<Rightarrow> (nat \<times> int) list \<Rightarrow> nat option" where
  "scan_pairs val [] = None"
| "scan_pairs val ((k, w) # xs) = (if val - w \<le> 0 then Some k else scan_pairs (val - w) xs)"

definition weighted :: "filter_fn \<Rightarrow> pick_info \<Rightarrow> nat \<Rightarrow> 'c wrnd_conn list \<Rightarrow> (nat \<times> int) list" where
  "weighted f info n cons =
     map (\<lambda>i. (n + i, uint (wrndWeight (cons ! i)))) (candidates f info (map wrndAddress cons))"

lemma weighted_simps [simp]:
  "weighted f info n [] = []"
  "weighted f info n (con # cons) =
     (if f info (wrndAddress con) then [(n, uint (wrndWeight con))] else []) @ weighted f info (Suc n) cons"
  by (simp_all add: weighted_def candidates_Cons) (simp add: candidates_def)

lemma wrnd_scan_eq: "wrnd_scan f info n val cons = scan_pairs val (weighted f info n cons)"
  by (induction cons arbitrary: n val) (simp_all add: Let_def)

lemma weighted_sum: "sum_list (map snd (weighted f info n cons)) = wrnd_sum f info cons"
  by (induction cons arbitrary: n) simp_all

lemma scan_pairs_None: "scan_pairs val xs = None \<Longrightarrow> xs = [] \<or> sum_list (map snd xs) < val"
  by (induction val xs rule: scan_pairs.induct) (auto split: if_splits)

lemma scan_pairs_Some: "scan_pairs val xs = Some k \<Longrightarrow> k \<in> fst ` set xs"
  by (induction val xs rule: scan_pairs.induct) (auto split: if_splits)

lemma scan_pairs_share:
  "0 < r \<Longrightarrow> \<forall>x \<in> set ys. 0 \<le> snd x \<Longrightarrow> k \<notin> fst ` set ys \<Longrightarrow> k \<notin> fst ` set zs \<Longrightarrow>
     scan_pairs r (ys @ (k, w) # zs) = Some k \<longleftrightarrow>
       sum_list (map snd ys) < r \<and> r \<le> sum_list (map snd ys) + w"
proof (induction ys arbitrary: r)
  case Nil
  then show ?case using scan_pairs_Some [of "r - w" zs k] by auto
next
  case (Cons y ys)
  obtain j v where y: "y = (j, v)" by (cases y)
  have "0 \<le> sum_list (map snd ys)" using Cons.prems(2) by (intro sum_list_nonneg) auto
  then show ?case using Cons.IH [of "r - v"] Cons.prems by (auto simp: y)
qed

lemma scan_pairs_card:
  assumes "\<forall>x \<in> set (ys @ (k, w) # zs). 0 \<le> snd x" and "k \<notin> fst ` set ys" "k \<notin> fst ` set zs"
  shows "card {r. 0 \<le> r \<and> r \<le> sum_list (map snd (ys @ (k, w) # zs)) \<and> scan_pairs r (ys @ (k, w) # zs) = Some k}
           = nat w + (if ys = [] then 1 else 0)"
proof -
  define s where "s = sum_list (map snd ys)"
  have s: "0 \<le> s" and z: "0 \<le> sum_list (map snd zs)" and w: "0 \<le> w"
    using assms(1) unfolding s_def by (auto intro!: sum_list_nonneg)
  have zero: "scan_pairs 0 (ys @ (k, w) # zs) = Some k \<longleftrightarrow> ys = []"
    using assms w by (cases ys) (auto split: prod.splits)
  have "{r. 0 \<le> r \<and> r \<le> sum_list (map snd (ys @ (k, w) # zs)) \<and> scan_pairs r (ys @ (k, w) # zs) = Some k}
      = {s <.. s + w} \<union> (if ys = [] then {0} else {})"
  proof (intro set_eqI iffI)
    fix r assume r: "r \<in> {r. 0 \<le> r \<and> r \<le> sum_list (map snd (ys @ (k, w) # zs)) \<and> scan_pairs r (ys @ (k, w) # zs) = Some k}"
    then show "r \<in> {s <.. s + w} \<union> (if ys = [] then {0} else {})"
      using scan_pairs_share [of r ys k zs w] assms zero by (cases "r = 0") (auto simp: s_def)
  next
    fix r assume "r \<in> {s <.. s + w} \<union> (if ys = [] then {0} else {})"
    then consider "s < r" "r \<le> s + w" | "r = 0" "ys = []" by (auto split: if_splits)
    then show "r \<in> {r. 0 \<le> r \<and> r \<le> sum_list (map snd (ys @ (k, w) # zs)) \<and> scan_pairs r (ys @ (k, w) # zs) = Some k}"
    proof cases
      case 1
      then show ?thesis using scan_pairs_share [of r ys k zs w] assms s z by (auto simp: s_def)
    next
      case 2
      then show ?thesis using zero z w by simp
    qed
  qed
  moreover have "{s <.. s + w} \<inter> {0} = {}" using s by auto
  ultimately show ?thesis using w by (simp add: card_Un_disjoint)
qed

interpretation wrnd: picker wrnd_Pick "\<lambda>p i. set (wrnd_usable p i)" "\<lambda>_. True" legal_intn
proof
  fix p :: "'a wrnd_picker" and i :: "pick_info \<times> intn"
  let ?ws = "weighted (wrndFilter p) (fst i) 0 (wrndConnections p)"
  have keys: "fst ` set ?ws = set (wrnd_usable p i)"
    by (simp add: weighted_def wrnd_usable_def image_image)
  have empty: "?ws = [] \<longleftrightarrow> wrnd_usable p i = []" by (simp add: weighted_def wrnd_usable_def)
  have eq: "fst (wrnd_Pick p i) = (if wrndConnections p = [] then Inl ErrNoSubConnAvailable
      else case scan_pairs (snd i (uint (wrnd_total (wrndFilter p) (fst i) 0 (wrndConnections p)) + 1)) ?ws of
             None \<Rightarrow> Inl ErrNoSubConnAvailable | Some k \<Rightarrow> Inr k)"
    by (simp add: wrnd_Pick_def wrnd_scan_eq Let_def split: prod.split option.split)
  show "set (wrnd_usable p i) = {} \<Longrightarrow> fst (wrnd_Pick p i) = Inl ErrNoSubConnAvailable"
    using empty by (simp add: eq)
  show "(\<lambda>i'. set (wrnd_usable (snd (wrnd_Pick p i)) i')) = (\<lambda>i. set (wrnd_usable p i))"
    by (simp add: wrnd_Pick_def Let_def split: prod.split option.split)
  assume legal: "legal_intn i" and some: "set (wrnd_usable p i) \<noteq> {}"
  let ?r = "snd i (uint (wrnd_total (wrndFilter p) (fst i) 0 (wrndConnections p)) + 1)"
  have conns: "wrndConnections p \<noteq> []" using some by (auto simp: wrnd_usable_def candidates_def)
  have "uint (word_of_int (wrnd_sum (wrndFilter p) (fst i) (wrndConnections p)) :: u32)
      \<le> wrnd_sum (wrndFilter p) (fst i) (wrndConnections p)"
    by (simp add: uint_word_of_int zmod_le_nonneg_dividend wrnd_sum_nonneg)
  moreover have "?r < uint (wrnd_total (wrndFilter p) (fst i) 0 (wrndConnections p)) + 1"
    by (rule legal_intnD [OF legal, THEN conjunct2]) (rule add_nonneg_pos, simp_all)
  ultimately have "?r \<le> wrnd_sum (wrndFilter p) (fst i) (wrndConnections p)"
    by (simp add: wrnd_total_eq)
  then obtain k where k: "scan_pairs ?r ?ws = Some k"
    using scan_pairs_None [of ?r ?ws] some empty by (auto simp: weighted_sum)
  then have "fst (wrnd_Pick p i) = Inr k" using conns by (simp add: eq)
  then show "\<exists>k \<in> set (wrnd_usable p i). fst (wrnd_Pick p i) = Inr k"
    using scan_pairs_Some [OF k] keys by blast
qed simp_all


section \<open>Properties\<close>

lemma weighted_split:
  assumes "k \<in> set (candidates f info (map wrndAddress cons))"
  obtains ys zs where "weighted f info 0 cons = ys @ (k, uint (wrndWeight (cons ! k))) # zs"
    and "k \<notin> fst ` set ys" "k \<notin> fst ` set zs"
    and "ys = [] \<longleftrightarrow> hd (candidates f info (map wrndAddress cons)) = k"
proof -
  obtain as bs where split: "candidates f info (map wrndAddress cons) = as @ k # bs"
    using split_list [OF assms] by blast
  then have "distinct (as @ k # bs)" using distinct_candidates by metis
  then show thesis
    using split by (intro that [of "map (\<lambda>i. (i, uint (wrndWeight (cons ! i)))) as"
          "map (\<lambda>i. (i, uint (wrndWeight (cons ! i)))) bs"]) (auto simp: weighted_def hd_append)
qed


definition sample_wrnd :: "unit wrnd_picker" where
  "sample_wrnd =
     \<lparr>wrndConnections = map (\<lambda>w. \<lparr>wrndWeight = w, wrndSubConn = (), wrndAddress = \<lparr>addrAddr = [], addrAttrs = Map.empty\<rparr>\<rparr>) [3, 2],
      wrndFilter = no_filter\<rparr>"


end
