(* ===== verification/LeastActive.thy ===== *)
theory LeastActive
  imports Balancer
begin

text \<open>
  The least-active picker (\<^verbatim>\<open>loadbalance/leastactive/picker.go\<close>). \<^verbatim>\<open>Pick\<close> takes no lock: it loads one
  counter after the other, then adds to the one it chose. \<open>la_step\<close> interleaves any number of calls
  at these atomic operations; \<open>la_Pick\<close> is one call that nothing interrupts.

  The callback adds the constant \<^verbatim>\<open>-1\<close> to a \<^verbatim>\<open>uint32\<close>, which the Go compiler rejects as it overflows.
  The model takes it for what it is meant to be, the word whose bits are all set.
\<close>

section \<open>Data\<close>

record 'c la_conn =
  laSubConn :: 'c
  laAddress :: address
  laActive :: u32

record 'c la_picker =
  laConnections :: "'c la_conn list"
  laFilter :: filter_fn

definition la_Build :: "filter_fn option \<Rightarrow> ('c \<times> address) list \<Rightarrow> 'c la_picker" where
  "la_Build f ready =
     \<lparr>laConnections = map (\<lambda>(c, a). \<lparr>laSubConn = c, laAddress = a, laActive = 0\<rparr>) ready,
      laFilter = built_filter f\<rparr>"

definition add_active :: "nat \<Rightarrow> u32 \<Rightarrow> 'c la_picker \<Rightarrow> 'c la_picker" where
  "add_active k d p =
     p\<lparr>laConnections := (laConnections p)[k := (laConnections p ! k)\<lparr>laActive := laActive (laConnections p ! k) + d\<rparr>]\<rparr>"

section \<open>One call alone\<close>

fun la_scan ::
  "filter_fn \<Rightarrow> pick_info \<Rightarrow> nat \<Rightarrow> u32 \<Rightarrow> nat option \<Rightarrow> 'c la_conn list \<Rightarrow> nat option" where
  "la_scan f info i least res [] = res"
| "la_scan f info i least res (con # cons) =
     (if \<not> f info (laAddress con) then la_scan f info (Suc i) least res cons
      else if laActive con < least then la_scan f info (Suc i) (laActive con) (Some i) cons
      else la_scan f info (Suc i) least res cons)"

definition la_Pick :: "'c la_picker \<Rightarrow> pick_info \<Rightarrow> (go_error + nat) \<times> 'c la_picker" where
  "la_Pick p info =
     (if length (laConnections p) = 0 then (Inl ErrNoSubConnAvailable, p)
      else (case la_scan (laFilter p) info 0 4294967295 None (laConnections p) of
              None \<Rightarrow> (Inl ErrNoSubConnAvailable, p)
            | Some k \<Rightarrow> (Inr k, add_active k 1 p)))"

definition la_Done :: "nat \<Rightarrow> 'c la_picker \<Rightarrow> 'c la_picker" where
  "la_Done k p = add_active k (- 1) p"

section \<open>Calls side by side\<close>

text \<open>
  Where a call is: before the loop looks at connection \<open>i\<close>; before the addition; between the return
  of \<^verbatim>\<open>Pick\<close> and the callback; after the callback, or after \<^verbatim>\<open>Pick\<close> failed.
\<close>

datatype la_pc = Scanning nat u32 "nat option" | Chosen nat | InFlight nat | CallDone | CallFailed

record 'c la_system =
  laPicker :: "'c la_picker"
  laCalls :: "(pick_info \<times> la_pc) list"

abbreviation la_conn_at :: "'c la_system \<Rightarrow> nat \<Rightarrow> 'c la_conn" where
  "la_conn_at s i \<equiv> laConnections (laPicker s) ! i"

inductive la_step :: "'c la_system \<Rightarrow> 'c la_system \<Rightarrow> bool" where
  new_call: "la_step s (s\<lparr>laCalls := laCalls s @ [(info, Scanning 0 4294967295 None)]\<rparr>)"
| look: "t < length (laCalls s) \<Longrightarrow> laCalls s ! t = (info, Scanning i least res) \<Longrightarrow>
    i < length (laConnections (laPicker s)) \<Longrightarrow>
    pc = (if \<not> laFilter (laPicker s) info (laAddress (la_conn_at s i)) then Scanning (Suc i) least res
          else if laActive (la_conn_at s i) < least then Scanning (Suc i) (laActive (la_conn_at s i)) (Some i)
          else Scanning (Suc i) least res) \<Longrightarrow>
    la_step s (s\<lparr>laCalls := (laCalls s)[t := (info, pc)]\<rparr>)"
| loop_ends: "t < length (laCalls s) \<Longrightarrow> laCalls s ! t = (info, Scanning i least res) \<Longrightarrow>
    i = length (laConnections (laPicker s)) \<Longrightarrow>
    pc = (case res of None \<Rightarrow> CallFailed | Some k \<Rightarrow> Chosen k) \<Longrightarrow>
    la_step s (s\<lparr>laCalls := (laCalls s)[t := (info, pc)]\<rparr>)"
| count_up: "t < length (laCalls s) \<Longrightarrow> laCalls s ! t = (info, Chosen k) \<Longrightarrow>
    la_step s (s\<lparr>laPicker := add_active k 1 (laPicker s), laCalls := (laCalls s)[t := (info, InFlight k)]\<rparr>)"
| count_down: "t < length (laCalls s) \<Longrightarrow> laCalls s ! t = (info, InFlight k) \<Longrightarrow>
    la_step s (s\<lparr>laPicker := add_active k (- 1) (laPicker s), laCalls := (laCalls s)[t := (info, CallDone)]\<rparr>)"

inductive_cases la_stepE: "la_step s t"

section \<open>One call chooses a least active connection\<close>

definition la_usable :: "'c la_picker \<Rightarrow> pick_info \<Rightarrow> nat list" where
  "la_usable p info = candidates (laFilter p) info (map laAddress (laConnections p))"

text \<open>The loop only sees the candidates and their numbers of active calls.\<close>

fun pick_min :: "u32 \<Rightarrow> nat option \<Rightarrow> (nat \<times> u32) list \<Rightarrow> nat option" where
  "pick_min least res [] = res"
| "pick_min least res ((i, a) # xs) = (if a < least then pick_min a (Some i) xs else pick_min least res xs)"

definition actives :: "filter_fn \<Rightarrow> pick_info \<Rightarrow> nat \<Rightarrow> 'c la_conn list \<Rightarrow> (nat \<times> u32) list" where
  "actives f info n cons = map (\<lambda>i. (n + i, laActive (cons ! i))) (candidates f info (map laAddress cons))"

lemma actives_simps [simp]:
  "actives f info n [] = []"
  "actives f info n (con # cons) =
     (if f info (laAddress con) then [(n, laActive con)] else []) @ actives f info (Suc n) cons"
  by (simp_all add: actives_def candidates_Cons) (simp add: candidates_def)

lemma la_scan_eq: "la_scan f info n least res cons = pick_min least res (actives f info n cons)"
  by (induction cons arbitrary: n least res) simp_all

lemma pick_min_None: "pick_min least res xs = None \<longleftrightarrow> res = None \<and> (\<forall>x \<in> set xs. least \<le> snd x)"
proof (induction least res xs rule: pick_min.induct)
  case (2 least res i a xs)
  then show ?case by (cases "a < least") (auto simp: not_less)
qed simp

lemma pick_min_Some:
  assumes "pick_min least res xs = Some k"
  shows "res = Some k \<and> (\<forall>x \<in> set xs. least \<le> snd x)
    \<or> (\<exists>ys a zs. xs = ys @ (k, a) # zs \<and> a < least \<and> (\<forall>y \<in> set ys. a < snd y) \<and> (\<forall>z \<in> set zs. a \<le> snd z))"
  using assms
proof (induction least res xs rule: pick_min.induct)
  case (2 least res i v xs)
  show ?case
  proof (cases "v < least")
    case True
    then have "pick_min v (Some i) xs = Some k" using "2.prems" by simp
    from "2.IH"(1) [OF True this] consider "i = k" "\<forall>x \<in> set xs. v \<le> snd x"
      | ys a zs where "xs = ys @ (k, a) # zs" "a < v" "\<forall>y \<in> set ys. a < snd y" "\<forall>z \<in> set zs. a \<le> snd z"
      by auto
    then show ?thesis
    proof cases
      case 1
      then have "(i, v) # xs = [] @ (k, v) # xs" by simp
      with 1 True show ?thesis by (metis empty_iff list.set(1))
    next
      case 2
      then have "(i, v) # xs = ((i, v) # ys) @ (k, a) # zs" by simp
      moreover have "\<forall>y \<in> set ((i, v) # ys). a < snd y" "a < least" using 2 True by auto
      ultimately show ?thesis using 2(4) by metis
    qed
  next
    case False
    then have "pick_min least res xs = Some k" using "2.prems" by simp
    from "2.IH"(2) [OF False this] consider "res = Some k" "\<forall>x \<in> set xs. least \<le> snd x"
      | ys a zs where "xs = ys @ (k, a) # zs" "a < least" "\<forall>y \<in> set ys. a < snd y" "\<forall>z \<in> set zs. a \<le> snd z"
      by auto
    then show ?thesis
    proof cases
      case 1
      then show ?thesis using False by (simp add: not_less)
    next
      case 2
      then have "(i, v) # xs = ((i, v) # ys) @ (k, a) # zs" by simp
      moreover have "\<forall>y \<in> set ((i, v) # ys). a < snd y" using 2 False by auto
      ultimately show ?thesis using 2(2,4) by metis
    qed
  qed
qed simp

lemma sorted_candidates: "sorted_wrt (<) (candidates f info addrs)"
  by (simp add: candidates_def sorted_wrt_filter)

lemma la_scan_least:
  assumes "la_scan f info 0 4294967295 None cons = Some k"
  shows "k \<in> set (candidates f info (map laAddress cons))"
    and "j \<in> set (candidates f info (map laAddress cons)) \<Longrightarrow> laActive (cons ! k) \<le> laActive (cons ! j)"
    and "j \<in> set (candidates f info (map laAddress cons)) \<Longrightarrow> j < k \<Longrightarrow> laActive (cons ! k) < laActive (cons ! j)"
proof -
  let ?cands = "candidates f info (map laAddress cons)"
  obtain ys a zs where "actives f info 0 cons = ys @ (k, a) # zs" "\<forall>y \<in> set ys. a < snd y" "\<forall>z \<in> set zs. a \<le> snd z"
    using pick_min_Some [of 4294967295 None "actives f info 0 cons" k] assms by (auto simp: la_scan_eq)
  moreover from this(1) obtain us vs where cands: "?cands = us @ k # vs" and "a = laActive (cons ! k)"
      "ys = map (\<lambda>i. (i, laActive (cons ! i))) us" "zs = map (\<lambda>i. (i, laActive (cons ! i))) vs"
    by (auto simp: actives_def map_eq_append_conv map_eq_Cons_conv)
  ultimately have us: "\<forall>j \<in> set us. laActive (cons ! k) < laActive (cons ! j)"
    and vs: "\<forall>j \<in> set vs. laActive (cons ! k) \<le> laActive (cons ! j)" by auto
  have sorted: "sorted_wrt (<) (us @ k # vs)" using sorted_candidates [of f info "map laAddress cons"] by (simp add: cands)
  show "k \<in> set ?cands" by (simp add: cands)
  show "laActive (cons ! k) \<le> laActive (cons ! j)" if "j \<in> set ?cands"
    using that us vs by (auto simp: cands)
  show "laActive (cons ! k) < laActive (cons ! j)" if "j \<in> set ?cands" "j < k"
    using that us sorted by (auto simp: cands sorted_wrt_append)
qed

section \<open>The counters\<close>

text \<open>The calls that were counted up and not yet down.\<close>

definition in_flight :: "'c la_system \<Rightarrow> nat \<Rightarrow> nat" where
  "in_flight s k = length (filter (\<lambda>c. snd c = InFlight k) (laCalls s))"

definition chosen_ok :: "'c la_system \<Rightarrow> bool" where
  "chosen_ok s \<longleftrightarrow> (\<forall>c \<in> set (laCalls s). case snd c of
      Scanning i least res \<Rightarrow> i \<le> length (laConnections (laPicker s))
        \<and> (case res of None \<Rightarrow> True | Some k \<Rightarrow> k < length (laConnections (laPicker s)))
    | Chosen k \<Rightarrow> k < length (laConnections (laPicker s))
    | InFlight k \<Rightarrow> k < length (laConnections (laPicker s))
    | _ \<Rightarrow> True)"

definition counters_ok :: "'c la_system \<Rightarrow> bool" where
  "counters_ok s \<longleftrightarrow>
     (\<forall>k < length (laConnections (laPicker s)). laActive (la_conn_at s k) = of_nat (in_flight s k))"

lemma in_flight_update:
  assumes "t < length (laCalls s)"
  shows "int (length (filter (\<lambda>c. snd c = InFlight k) ((laCalls s)[t := c']))) =
    int (in_flight s k) - (if snd (laCalls s ! t) = InFlight k then 1 else 0) + (if snd c' = InFlight k then 1 else 0)"
  using length_filter_update [OF assms, of "\<lambda>c. snd c = InFlight k" c'] by (simp add: in_flight_def split: if_splits)

lemma add_active_simps [simp]:
  "length (laConnections (add_active k d p)) = length (laConnections p)"
  "map laAddress (laConnections (add_active k d p)) = map laAddress (laConnections p)"
  "i < length (laConnections p) \<Longrightarrow> laActive (laConnections (add_active k d p) ! i) =
     laActive (laConnections p ! i) + (if i = k then d else 0)"
  by (auto simp: add_active_def map_update nth_list_update)
     (metis length_map list_update_beyond list_update_id map_update not_less nth_map)

lemma in_flight_simps:
  "in_flight (s\<lparr>laPicker := p\<rparr>) = in_flight s"
  "in_flight (s\<lparr>laCalls := laCalls s @ [(info, Scanning i least res)]\<rparr>) = in_flight s"
  by (simp_all add: in_flight_def fun_eq_iff)

text \<open>A call that neither enters nor leaves its flight changes no count.\<close>

lemma in_flight_same:
  assumes "t < length (laCalls s)" and "\<And>k. snd (laCalls s ! t) \<noteq> InFlight k" and "\<And>k. snd c \<noteq> InFlight k"
  shows "in_flight (s\<lparr>laCalls := (laCalls s)[t := c]\<rparr>) = in_flight s"
  using in_flight_update [OF assms(1), of _ c] assms(2,3) by (simp add: in_flight_def fun_eq_iff)

lemma in_flight_up:
  assumes "t < length (laCalls s)" and "laCalls s ! t = (info, Chosen k)"
  shows "in_flight (s\<lparr>laPicker := p, laCalls := (laCalls s)[t := (info, InFlight k)]\<rparr>) j
    = in_flight s j + (if j = k then 1 else 0)"
  using in_flight_update [OF assms(1), of j "(info, InFlight k)"] assms(2)
  by (simp add: in_flight_def split: if_splits)

lemma in_flight_down:
  assumes "t < length (laCalls s)" and "laCalls s ! t = (info, InFlight k)"
  shows "in_flight (s\<lparr>laPicker := p, laCalls := (laCalls s)[t := (info, CallDone)]\<rparr>) j + (if j = k then 1 else 0)
    = in_flight s j"
  using in_flight_update [OF assms(1), of j "(info, CallDone)"] assms(2)
  by (simp add: in_flight_def split: if_splits)

lemma counters_step:
  assumes "la_step s t" and "counters_ok s"
  shows "counters_ok t"
  using assms
proof (cases rule: la_step.cases)
  case (new_call info)
  with assms(2) show ?thesis by (simp add: counters_ok_def in_flight_simps)
next
  case (look t info i least res pc)
  then have "in_flight (s\<lparr>laCalls := (laCalls s)[t := (info, pc)]\<rparr>) = in_flight s"
    by (intro in_flight_same) auto
  with look assms(2) show ?thesis by (simp add: counters_ok_def)
next
  case (loop_ends t info i least res pc)
  then have "in_flight (s\<lparr>laCalls := (laCalls s)[t := (info, pc)]\<rparr>) = in_flight s"
    by (intro in_flight_same) (auto split: option.splits)
  with loop_ends assms(2) show ?thesis by (simp add: counters_ok_def)
next
  case (count_up t info k)
  then show ?thesis
    using in_flight_up [of t s info k "add_active k 1 (laPicker s)"] assms(2)
    by (simp add: counters_ok_def)
next
  case (count_down t info k)
  have "laActive (la_conn_at s j) + (if j = k then - 1 else 0) =
      of_nat (in_flight (s\<lparr>laPicker := add_active k (- 1) (laPicker s), laCalls := (laCalls s)[t := (info, CallDone)]\<rparr>) j)"
    if "j < length (laConnections (laPicker s))" for j
  proof -
    have "of_nat (in_flight s j) = (of_nat (in_flight (s\<lparr>laPicker := add_active k (- 1) (laPicker s),
        laCalls := (laCalls s)[t := (info, CallDone)]\<rparr>) j) :: u32) + (if j = k then 1 else 0)"
      unfolding in_flight_down [OF count_down(2,3), of "add_active k (- 1) (laPicker s)" j, symmetric] by simp
    then show ?thesis using assms(2) that by (simp add: counters_ok_def)
  qed
  then show ?thesis using count_down(1) by (simp add: counters_ok_def)
qed

definition la_start :: "'c la_picker \<Rightarrow> 'c la_system" where
  "la_start p = \<lparr>laPicker = p, laCalls = []\<rparr>"

lemma counters_reach:
  assumes "la_step\<^sup>*\<^sup>* (la_start (la_Build f ready)) s"
  shows "counters_ok s"
  using assms
proof (induction rule: rtranclp_induct)
  case base
  show ?case by (auto simp: counters_ok_def la_start_def la_Build_def in_flight_def split: prod.split)
next
  case (step s t)
  then show ?case using counters_step by blast
qed

section \<open>Properties\<close>

text \<open>
  C20: A call that nothing interrupts chooses the first of the usable connections with the fewest
  active calls and counts it, and it fails only when every usable connection is at the greatest count.
\<close>

theorem least_active_chosen:
  "case la_Pick p info of
     (Inl e, p') \<Rightarrow> e = ErrNoSubConnAvailable \<and> p' = p
       \<and> {k \<in> set (la_usable p info). laActive (laConnections p ! k) < 4294967295} = {}
   | (Inr k, p') \<Rightarrow> k \<in> set (la_usable p info) \<and> p' = add_active k 1 p
       \<and> {j \<in> set (la_usable p info). laActive (laConnections p ! j) < laActive (laConnections p ! k)} = {}
       \<and> {j \<in> set (la_usable p info). j < k \<and> laActive (laConnections p ! j) = laActive (laConnections p ! k)} = {}"
proof (cases "la_scan (laFilter p) info 0 4294967295 None (laConnections p)")
  case None
  then have "\<forall>x \<in> set (actives (laFilter p) info 0 (laConnections p)). 4294967295 \<le> snd x"
    by (simp add: la_scan_eq pick_min_None)
  then have "\<not> laActive (laConnections p ! k) < 4294967295" if "k \<in> set (la_usable p info)" for k
    using that by (auto simp: actives_def la_usable_def not_less)
  with None show ?thesis by (auto simp: la_Pick_def)
next
  case (Some k)
  then have "laConnections p \<noteq> []" by auto
  with Some la_scan_least [OF Some] show ?thesis
    by (fastforce simp: la_Pick_def la_usable_def not_less)
qed

text \<open>
  However the calls interleave, the counter of a connection is, modulo \<open>2 ^ 32\<close>, the number of
  calls that chose it and have not reported back.
\<close>

theorem active_counts_calls:
  assumes "la_step\<^sup>*\<^sup>* (la_start (la_Build f ready)) s" and "k < length (laConnections (laPicker s))"
  shows "laActive (laConnections (laPicker s) ! k) = of_nat (in_flight s k)"
  using counters_reach [OF assms(1)] assms(2) by (simp add: counters_ok_def)

theorem active_counts_calls_witness:
  "\<exists>s. la_step\<^sup>*\<^sup>* (la_start (la_Build None [((), \<lparr>addrAddr = [], addrAttrs = Map.empty\<rparr>)])) s
     \<and> laCalls s = [(\<lparr>piGroup = None\<rparr>, InFlight 0)] \<and> laActive (laConnections (laPicker s) ! 0) = of_nat (in_flight s 0)"
proof -
  let ?info = "\<lparr>piGroup = None\<rparr>"
  let ?p = "la_Build None [((), \<lparr>addrAddr = [], addrAttrs = Map.empty\<rparr>)]"
  let ?at = "\<lambda>pc. \<lparr>laPicker = ?p, laCalls = [(?info, pc)]\<rparr>"
  let ?s = "\<lparr>laPicker = add_active 0 1 ?p, laCalls = [(?info, InFlight 0)]\<rparr>"
  have "la_step (la_start ?p) (?at (Scanning 0 4294967295 None))"
    using new_call [of "la_start ?p" ?info] by (simp add: la_start_def)
  moreover have "la_step (?at (Scanning 0 4294967295 None)) (?at (Scanning 1 0 (Some 0)))"
    using look [of 0 "?at (Scanning 0 4294967295 None)" ?info 0 4294967295 None "Scanning 1 0 (Some 0)"]
    by (simp add: la_Build_def built_filter_def no_filter_def)
  moreover have "la_step (?at (Scanning 1 0 (Some 0))) (?at (Chosen 0))"
    using loop_ends [of 0 "?at (Scanning 1 0 (Some 0))" ?info 1 0 "Some 0" "Chosen 0"]
    by (simp add: la_Build_def)
  moreover have "la_step (?at (Chosen 0)) ?s"
    using count_up [of 0 "?at (Chosen 0)" ?info 0] by simp
  ultimately have reach: "la_step\<^sup>*\<^sup>* (la_start ?p) ?s"
    by (meson converse_rtranclp_into_rtranclp rtranclp.rtrancl_refl)
  have "0 < length (laConnections (laPicker ?s))" by (simp add: la_Build_def)
  with active_counts_calls [OF reach this] reach show ?thesis by (intro exI [of _ ?s]) simp
qed

end
