(* ===== verification/StaticPickers.thy ===== *)
theory StaticPickers
  imports Balancer RpcTypes
begin

text \<open>
  The pickers of \<^verbatim>\<open>loadbalance/hash\<close>, which return the first connection, and of
  \<^verbatim>\<open>loadbalance/fastest\<close>, which choose by response times that a Prometheus server reports.

  \<^item> The consistent-hash picker has the code of the hash picker, under other names.
  \<^item> A \<^verbatim>\<open>sync.RWMutex\<close> is whether a writer holds it and how many readers do. Unlocking for a reader
    when no reader holds it ends the program (\<open>FatalError\<close>), and so does \<^verbatim>\<open>log.Fatalln\<close>.
  \<^item> The HTTP exchange with the Prometheus server is an input: an error, or the decoded response.
\<close>

section \<open>Hash\<close>

record 'c hash_picker =
  hashLength :: int
  hashFilter :: filter_fn
  hashConnections :: "'c list"

definition hash_Build :: "filter_fn option \<Rightarrow> ('c \<times> address) list \<Rightarrow> 'c hash_picker" where
  "hash_Build f ready =
     \<lparr>hashLength = int (length ready), hashFilter = built_filter f, hashConnections = map fst ready\<rparr>"

definition hash_Pick :: "'c hash_picker \<Rightarrow> pick_info \<Rightarrow> (go_error + nat) go" where
  "hash_Pick b info =
     (if hashLength b = 0 then Inr (Inl ErrNoSubConnAvailable)
      else go_bind (index_at (hashConnections b) 0) (\<lambda>_. Inr (Inr 0)))"

definition consistent_Build :: "filter_fn option \<Rightarrow> ('c \<times> address) list \<Rightarrow> 'c hash_picker" where
  "consistent_Build f ready =
     \<lparr>hashLength = int (length ready), hashFilter = built_filter f, hashConnections = map fst ready\<rparr>"

definition consistent_Pick :: "'c hash_picker \<Rightarrow> pick_info \<Rightarrow> (go_error + nat) go" where
  "consistent_Pick b info =
     (if hashLength b = 0 then Inr (Inl ErrNoSubConnAvailable)
      else go_bind (index_at (hashConnections b) 0) (\<lambda>_. Inr (Inr 0)))"

section \<open>The lock of the fastest picker\<close>

record rw_mutex =
  rwWriter :: bool
  rwReaders :: nat

text \<open>\<^verbatim>\<open>Lock\<close> waits (\<open>None\<close>) while anybody holds the lock.\<close>

definition rw_Lock :: "rw_mutex \<Rightarrow> rw_mutex option" where
  "rw_Lock m = (if rwWriter m \<or> 0 < rwReaders m then None else Some (m\<lparr>rwWriter := True\<rparr>))"

definition rw_RUnlock :: "rw_mutex \<Rightarrow> rw_mutex go" where
  "rw_RUnlock m = (if rwReaders m = 0 then Inl FatalError else Inr (m\<lparr>rwReaders := rwReaders m - 1\<rparr>))"

section \<open>Fastest\<close>

text \<open>\<open>fcDuration\<close> is in nanoseconds.\<close>

record 'c fast_conn =
  fcSubConn :: 'c
  fcAddress :: address
  fcDuration :: int

record 'c fast_picker =
  fpConnections :: "'c fast_conn list"
  fpMutex :: rw_mutex
  fpFilter :: filter_fn

text \<open>\<^verbatim>\<open>runtime.SetFinalizer(obj, f)\<close> ends the program unless \<open>f\<close> has exactly one parameter.\<close>

definition SetFinalizer :: "nat \<Rightarrow> unit go" where
  "SetFinalizer params = (if params = 1 then Inr () else Inl FatalError)"

definition fast_Build :: "filter_fn option \<Rightarrow> ('c \<times> address) list \<Rightarrow> 'c fast_picker go" where
  "fast_Build f ready =
     (let res = \<lparr>fpConnections = map (\<lambda>(c, a). \<lparr>fcSubConn = c, fcAddress = a, fcDuration = 0\<rparr>) ready,
                 fpMutex = \<lparr>rwWriter = False, rwReaders = 0\<rparr>, fpFilter = built_filter f\<rparr>
      in go_bind (SetFinalizer 0) (\<lambda>_. Inr res))"

fun fast_scan :: "filter_fn \<Rightarrow> pick_info \<Rightarrow> nat \<Rightarrow> (nat \<times> int) option \<Rightarrow> 'c fast_conn list \<Rightarrow> (nat \<times> int) option" where
  "fast_scan f info i res [] = res"
| "fast_scan f info i res (c # cs) =
     (if \<not> f info (fcAddress c) then fast_scan f info (Suc i) res cs
      else case res of
             None \<Rightarrow> fast_scan f info (Suc i) (Some (i, fcDuration c)) cs
           | Some (k, d) \<Rightarrow>
               if fcDuration c < d then fast_scan f info (Suc i) (Some (i, fcDuration c)) cs
               else fast_scan f info (Suc i) res cs)"

text \<open>\<open>None\<close>: the call waits for the lock.\<close>

definition fast_Pick :: "'c fast_picker \<Rightarrow> pick_info \<Rightarrow> ((go_error + nat) \<times> 'c fast_picker) go option" where
  "fast_Pick p info =
     (case rw_Lock (fpMutex p) of
        None \<Rightarrow> None
      | Some m \<Rightarrow>
          Some (if length (fpConnections p) = 0
                then go_bind (rw_RUnlock m) (\<lambda>m. Inr (Inl ErrNoSubConnAvailable, p\<lparr>fpMutex := m\<rparr>))
                else (case fast_scan (fpFilter p) info 0 None (fpConnections p) of
                        None \<Rightarrow> go_bind (rw_RUnlock m) (\<lambda>m. Inr (Inl ErrNoSubConnAvailable, p\<lparr>fpMutex := m\<rparr>))
                      | Some (k, d) \<Rightarrow> go_bind (rw_RUnlock m) (\<lambda>m. Inr (Inr k, p\<lparr>fpMutex := m\<rparr>)))))"

section \<open>Response times\<close>

text \<open>An element of \<^verbatim>\<open>value\<close> in the JSON response is a string or something else.\<close>

datatype prom_value = PromString go_string | PromOther

record prom_result =
  prMetric :: "go_string \<rightharpoonup> go_string"
  prValue :: "prom_value list"

record prom_response =
  prStatus :: go_string
  prResults :: "prom_result list"

definition millisecond :: int where
  "millisecond = 1000000"

text \<open>One result on one connection: the type assertion on \<^verbatim>\<open>Value[1]\<close> may panic.\<close>

definition update_conn :: "prom_result \<Rightarrow> go_string \<Rightarrow> 'c fast_conn \<Rightarrow> 'c fast_conn go" where
  "update_conn r addr c =
     (if addrAddr (fcAddress c) = addr
      then go_bind (index_at (prValue r) 1) (\<lambda>v.
           case v of
             PromOther \<Rightarrow> Inl TypeAssertion
           | PromString s \<Rightarrow>
               (case ParseInt s of
                  None \<Rightarrow> Inr c
                | Some ms \<Rightarrow> Inr (c\<lparr>fcDuration := i64 (ms * millisecond)\<rparr>)))
      else Inr c)"

fun update_conns :: "prom_result \<Rightarrow> go_string \<Rightarrow> 'c fast_conn list \<Rightarrow> 'c fast_conn list go" where
  "update_conns r addr [] = Inr []"
| "update_conns r addr (c # cs) =
     go_bind (update_conn r addr c) (\<lambda>c. go_bind (update_conns r addr cs) (\<lambda>cs. Inr (c # cs)))"

definition address_key :: go_string where
  "address_key = go_str ''address''"

text \<open>The loop over the results stops at the first one without an address.\<close>

fun update_results :: "prom_result list \<Rightarrow> 'c fast_conn list \<Rightarrow> 'c fast_conn list go" where
  "update_results [] cs = Inr cs"
| "update_results (r # rs) cs =
     (case prMetric r address_key of
        None \<Rightarrow> Inr cs
      | Some addr \<Rightarrow> go_bind (update_conns r addr cs) (update_results rs))"

definition updateRespTime :: "go_error + go_error + prom_response \<Rightarrow> 'c fast_picker \<Rightarrow> 'c fast_picker go" where
  "updateRespTime http p =
     (case http of
        Inl e \<Rightarrow> Inl FatalError
      | Inr (Inl e) \<Rightarrow> Inl FatalError
      | Inr (Inr resp) \<Rightarrow>
          if prStatus resp \<noteq> go_str ''success'' then Inl FatalError
          else go_bind (update_results (prResults resp) (fpConnections p))
                 (\<lambda>cs. Inr (p\<lparr>fpConnections := cs\<rparr>)))"

section \<open>The fastest connection\<close>

lemma fast_scan_Some_res: "\<exists>r. fast_scan f info n (Some kd) cs = Some r"
  by (induction cs arbitrary: n kd) (auto split: prod.split)

text \<open>The loop as a search in the list of the candidates and their times.\<close>

definition times :: "filter_fn \<Rightarrow> pick_info \<Rightarrow> nat \<Rightarrow> 'c fast_conn list \<Rightarrow> (nat \<times> int) list" where
  "times f info n cs = map (\<lambda>i. (n + i, fcDuration (cs ! i))) (candidates f info (map fcAddress cs))"

lemma times_simps [simp]:
  "times f info n [] = []"
  "times f info n (c # cs) =
     (if f info (fcAddress c) then [(n, fcDuration c)] else []) @ times f info (Suc n) cs"
  by (simp_all add: times_def candidates_Cons) (simp add: candidates_def)

lemma fast_scan_Some:
  "fast_scan f info n res cs = Some (k, d) \<Longrightarrow>
     ((k, d) \<in> set (times f info n cs) \<or> res = Some (k, d))
     \<and> (\<forall>x \<in> set (times f info n cs). d \<le> snd x) \<and> (\<forall>j e. res = Some (j, e) \<longrightarrow> d \<le> e)"
proof (induction cs arbitrary: n res)
  case (Cons c cs)
  show ?case
  proof (cases "f info (fcAddress c)")
    case True
    show ?thesis
    proof (cases res)
      case None
      then show ?thesis using Cons.prems True Cons.IH [of "Suc n" "Some (n, fcDuration c)"] by auto
    next
      case (Some je)
      obtain j e where je: "je = (j, e)" by (cases je)
      show ?thesis
      proof (cases "fcDuration c < e")
        case True
        then show ?thesis using Cons.prems \<open>f info (fcAddress c)\<close> Some je
            Cons.IH [of "Suc n" "Some (n, fcDuration c)"] by auto
      next
        case False
        then show ?thesis using Cons.prems \<open>f info (fcAddress c)\<close> Some je
            Cons.IH [of "Suc n" "Some (j, e)"] by auto
      qed
    qed
  next
    case False
    then show ?thesis using Cons.prems Cons.IH [of "Suc n" res] by simp
  qed
qed auto

lemma fast_scan_None: "fast_scan f info n None cs = None \<longleftrightarrow> candidates f info (map fcAddress cs) = []"
proof (induction cs arbitrary: n)
  case (Cons c cs)
  show ?case
  proof (cases "f info (fcAddress c)")
    case True
    then show ?thesis using fast_scan_Some_res [of f info "Suc n" "(n, fcDuration c)" cs]
      by (auto simp: candidates_Cons)
  next
    case False
    then show ?thesis using Cons.IH [of "Suc n"] by (simp add: candidates_Cons)
  qed
qed (simp add: candidates_def)

section \<open>Updates\<close>

text \<open>What a result for an address means to a connection that has it.\<close>

definition sample_of :: "prom_result \<Rightarrow> int option" where
  "sample_of r =
     (case prValue r of
        _ # PromString s # _ \<Rightarrow> map_option (\<lambda>ms. i64 (ms * millisecond)) (ParseInt s)
      | _ \<Rightarrow> None)"

definition well_formed_result :: "prom_result \<Rightarrow> bool" where
  "well_formed_result r \<longleftrightarrow> (\<exists>addr. prMetric r address_key = Some addr) \<and> (\<exists>v s vs. prValue r = v # PromString s # vs)"

fun last_time :: "prom_result list \<Rightarrow> go_string \<Rightarrow> int \<Rightarrow> int" where
  "last_time [] addr d = d"
| "last_time (r # rs) addr d =
     last_time rs addr (if prMetric r address_key = Some addr
                        then (case sample_of r of None \<Rightarrow> d | Some t \<Rightarrow> t) else d)"

definition timed :: "prom_result list \<Rightarrow> 'c fast_conn \<Rightarrow> 'c fast_conn" where
  "timed rs c = c\<lparr>fcDuration := last_time rs (addrAddr (fcAddress c)) (fcDuration c)\<rparr>"

lemma update_conn_ok:
  assumes "well_formed_result r" and "prMetric r address_key = Some addr"
  shows "update_conn r addr c = Inr (timed [r] c)"
proof -
  obtain v s vs where "prValue r = v # PromString s # vs" using assms(1) by (auto simp: well_formed_result_def)
  then show ?thesis using assms(2)
    by (auto simp: update_conn_def timed_def sample_of_def index_at_def split: option.split)
qed

lemma update_conns_ok:
  assumes "well_formed_result r" and "prMetric r address_key = Some addr"
  shows "update_conns r addr cs = Inr (map (timed [r]) cs)"
  by (induction cs) (simp_all add: update_conn_ok [OF assms])

lemma timed_Cons: "timed rs (timed [r] c) = timed (r # rs) c"
  by (simp add: timed_def)

lemma update_results_ok: "list_all well_formed_result rs \<Longrightarrow> update_results rs cs = Inr (map (timed rs) cs)"
proof (induction rs arbitrary: cs)
  case Nil
  show ?case by (simp add: timed_def map_idI)
next
  case (Cons r rs)
  then obtain addr where addr: "prMetric r address_key = Some addr" by (auto simp: well_formed_result_def)
  have "update_conns r addr cs = Inr (map (timed [r]) cs)"
    using Cons.prems addr by (intro update_conns_ok) simp_all
  then show ?case using Cons addr by (simp add: timed_Cons)
qed

section \<open>Properties\<close>

text \<open>
  The hash pickers look neither at the filter nor at the call: as soon as there is a connection,
  every call goes to the first one, also when the filter rejects it.
\<close>

theorem hash_always_first:
  assumes "ready \<noteq> []"
  shows "hash_Pick (hash_Build f ready) info = Inr (Inr 0)
    \<and> consistent_Pick (consistent_Build f ready) info = Inr (Inr 0)"
  using assms by (simp add: hash_Pick_def hash_Build_def consistent_Pick_def consistent_Build_def index_at_def)

definition first_address :: address where
  "first_address = \<lparr>addrAddr = [1], addrAttrs = [group_key \<mapsto> AttrString [65]]\<rparr>"

theorem hash_always_first_witness:
  "hash_Pick (hash_Build (Some GroupFilter) [((), first_address)]) \<lparr>piGroup = Some (AttrString [66])\<rparr> = Inr (Inr 0)
   \<and> \<not> GroupFilter \<lparr>piGroup = Some (AttrString [66])\<rparr> first_address"
  using hash_always_first [of "[((), first_address)]" "Some GroupFilter" "\<lparr>piGroup = Some (AttrString [66])\<rparr>"]
  by (simp add: first_address_def GroupFilter_def)

text \<open>
  The fastest picker ends the program on every pick that gets its lock, whatever it would have
  chosen: it takes the lock for writing and gives it back for reading. Its builder ends it, too.
\<close>

theorem fastest_is_fatal:
  "(case fast_Pick p info of None \<Rightarrow> rwWriter (fpMutex p) \<or> 0 < rwReaders (fpMutex p) | Some r \<Rightarrow> r = Inl FatalError)
   \<and> fast_Build f ready = Inl FatalError"
proof
  show "fast_Build f ready = Inl FatalError" by (simp add: fast_Build_def SetFinalizer_def)
  show "case fast_Pick p info of None \<Rightarrow> rwWriter (fpMutex p) \<or> 0 < rwReaders (fpMutex p) | Some r \<Rightarrow> r = Inl FatalError"
    by (auto simp: fast_Pick_def rw_Lock_def rw_RUnlock_def split: option.split if_splits)
qed

text \<open>
  The choice the fastest picker makes before it ends the program is right: a connection that
  passes the filter and whose response time no other such connection undercuts.
\<close>

theorem fastest_choice_minimal:
  "case fast_scan f info 0 None cs of
     None \<Rightarrow> candidates f info (map fcAddress cs) = []
   | Some (k, d) \<Rightarrow> k \<in> set (candidates f info (map fcAddress cs)) \<and> d = fcDuration (cs ! k)
       \<and> {j \<in> set (candidates f info (map fcAddress cs)). fcDuration (cs ! j) < d} = {}"
proof (cases "fast_scan f info 0 None cs")
  case None
  then show ?thesis using fast_scan_None [of f info 0 cs] by simp
next
  case (Some kd)
  obtain k d where kd: "kd = (k, d)" by (cases kd)
  have "(k, d) \<in> set (times f info 0 cs)" "\<forall>x \<in> set (times f info 0 cs). d \<le> snd x"
    using fast_scan_Some [of f info 0 None cs k d] Some kd by auto
  then show ?thesis by (auto simp: Some kd times_def)
qed

text \<open>
  When every result has an address and a string for its value, an update returns, and leaves
  every connection with the time of the last parseable result for its address, or its old time.
\<close>

theorem response_times_updated:
  assumes "prStatus resp = go_str ''success''" and "list_all well_formed_result (prResults resp)"
  shows "updateRespTime (Inr (Inr resp)) p = Inr (p\<lparr>fpConnections := map (timed (prResults resp)) (fpConnections p)\<rparr>)"
  using assms(1) by (simp add: updateRespTime_def update_results_ok [OF assms(2)])

theorem response_times_updated_witness:
  "updateRespTime (Inr (Inr \<lparr>prStatus = go_str ''success'', prResults =
       [\<lparr>prMetric = [address_key \<mapsto> [1]], prValue = [PromOther, PromString (FormatInt 12)]\<rparr>]\<rparr>))
     \<lparr>fpConnections = [\<lparr>fcSubConn = (), fcAddress = first_address, fcDuration = 0\<rparr>],
      fpMutex = \<lparr>rwWriter = False, rwReaders = 0\<rparr>, fpFilter = no_filter\<rparr> =
   Inr \<lparr>fpConnections = [\<lparr>fcSubConn = (), fcAddress = first_address, fcDuration = 12000000\<rparr>],
      fpMutex = \<lparr>rwWriter = False, rwReaders = 0\<rparr>, fpFilter = no_filter\<rparr>"
proof -
  let ?resp = "\<lparr>prStatus = go_str ''success'', prResults =
       [\<lparr>prMetric = [address_key \<mapsto> [1]], prValue = [PromOther, PromString (FormatInt 12)]\<rparr>]\<rparr>"
  have "list_all well_formed_result (prResults ?resp)" by (simp add: well_formed_result_def)
  from response_times_updated [OF _ this, of "\<lparr>fpConnections = [\<lparr>fcSubConn = (), fcAddress = first_address, fcDuration = 0\<rparr>],
      fpMutex = \<lparr>rwWriter = False, rwReaders = 0\<rparr>, fpFilter = no_filter\<rparr>"] show ?thesis
    by (simp add: timed_def sample_of_def ParseInt_FormatInt first_address_def millisecond_def i64_def)
qed

section \<open>The goroutine of the fastest picker\<close>

text \<open>
  The goroutine that the builder means to start after the finalizer: a tick with what the HTTP request
  gives, or the signal of the finalizer. \<^verbatim>\<open>time.NewTicker\<close> panics on an interval that is not positive. The second
  component tells whether the goroutine has returned.
\<close>

datatype refresh_event = TickerFires "go_error + go_error + prom_response" | FinalizerRan

fun refresh_loop :: "refresh_event list \<Rightarrow> 'c fast_picker \<Rightarrow> ('c fast_picker \<times> bool) go" where
  "refresh_loop [] p = Inr (p, False)"
| "refresh_loop (TickerFires http # es) p = go_bind (updateRespTime http p) (refresh_loop es)"
| "refresh_loop (FinalizerRan # es) p = Inr (p, True)"

definition refresh :: "int \<Rightarrow> refresh_event list \<Rightarrow> 'c fast_picker \<Rightarrow> ('c fast_picker \<times> bool) go" where
  "refresh interval es p = (if interval \<le> 0 then Inl NonPositiveArg else refresh_loop es p)"

definition good_response :: "prom_response \<Rightarrow> bool" where
  "good_response resp \<longleftrightarrow> prStatus resp = go_str ''success'' \<and> list_all well_formed_result (prResults resp)"

lemma last_time_append: "last_time (rs @ rs') a d = last_time rs' a (last_time rs a d)"
  by (induction rs arbitrary: d) simp_all

lemma timed_append: "timed (rs @ rs') c = timed rs' (timed rs c)"
  by (simp add: timed_def last_time_append)

lemma refresh_loop_good:
  assumes "list_all good_response resps"
  shows "refresh_loop (map (TickerFires \<circ> Inr \<circ> Inr) resps @ es) p =
     refresh_loop es (p\<lparr>fpConnections := map (timed (concat (map prResults resps))) (fpConnections p)\<rparr>)"
  using assms
proof (induction resps arbitrary: p)
  case Nil
  show ?case by (simp add: timed_def)
next
  case (Cons resp resps)
  have "updateRespTime (Inr (Inr resp)) p = Inr (p\<lparr>fpConnections := map (timed (prResults resp)) (fpConnections p)\<rparr>)"
    using Cons.prems by (simp add: good_response_def updateRespTime_def update_results_ok)
  then show ?case using Cons by (simp add: timed_append comp_def)
qed

text \<open>
  Were it started, the goroutine would keep every connection at the time of the last parseable result for
  its address over all refreshes so far, and one request that fails would end the program. The builder
  never starts it: its finalizer ends the program first.
\<close>

theorem refresh_keeps_last_times:
  assumes "list_all good_response resps" and "0 < interval"
  shows "refresh interval (map (TickerFires \<circ> Inr \<circ> Inr) resps) p =
      Inr (p\<lparr>fpConnections := map (timed (concat (map prResults resps))) (fpConnections p)\<rparr>, False)
    \<and> refresh interval (map (TickerFires \<circ> Inr \<circ> Inr) resps @ [TickerFires (Inl err)]) p = Inl FatalError
    \<and> fast_Build f ready = Inl FatalError"
  using refresh_loop_good [OF assms(1), of "[]" p] refresh_loop_good [OF assms(1), of "[TickerFires (Inl err)]" p] assms(2)
  by (simp add: refresh_def updateRespTime_def fast_Build_def SetFinalizer_def)

theorem refresh_keeps_last_times_witness:
  "refresh 5 [TickerFires (Inr (Inr \<lparr>prStatus = go_str ''success'', prResults =
         [\<lparr>prMetric = [address_key \<mapsto> [1]], prValue = [PromOther, PromString (FormatInt 12)]\<rparr>]\<rparr>))]
     \<lparr>fpConnections = [\<lparr>fcSubConn = (), fcAddress = first_address, fcDuration = 0\<rparr>],
      fpMutex = \<lparr>rwWriter = False, rwReaders = 0\<rparr>, fpFilter = no_filter\<rparr> =
   Inr (\<lparr>fpConnections = [\<lparr>fcSubConn = (), fcAddress = first_address, fcDuration = 12000000\<rparr>],
      fpMutex = \<lparr>rwWriter = False, rwReaders = 0\<rparr>, fpFilter = no_filter\<rparr>, False)"
proof -
  let ?resp = "\<lparr>prStatus = go_str ''success'', prResults =
       [\<lparr>prMetric = [address_key \<mapsto> [1]], prValue = [PromOther, PromString (FormatInt 12)]\<rparr>]\<rparr>"
  have "list_all good_response [?resp]" by (simp add: good_response_def well_formed_result_def)
  from refresh_keeps_last_times [OF this, of 5 "\<lparr>fpConnections = [\<lparr>fcSubConn = (), fcAddress = first_address, fcDuration = 0\<rparr>],
      fpMutex = \<lparr>rwWriter = False, rwReaders = 0\<rparr>, fpFilter = no_filter\<rparr>" CtxCanceled None "[] :: (unit \<times> address) list"] show ?thesis
    by (simp add: timed_def sample_of_def ParseInt_FormatInt first_address_def millisecond_def i64_def)
qed

end
