(* ===== verification/RateLimit.thy ===== *)
theory RateLimit
  imports Errs
begin

text \<open>
  The rate limiters of \<^verbatim>\<open>ratelimit\<close> that keep a window of time: the rejection strategies
  (\<^verbatim>\<open>types.go\<close>), the limiter for one method (\<^verbatim>\<open>method_limiter.go\<close>), the fixed window
  (\<^verbatim>\<open>fix_window.go\<close>) and the sliding window (\<^verbatim>\<open>slide_window.go\<close>).

  \<^item> A context is whether it is marked as limited, and its error once it is done. A handler takes a
    context and a request.
  \<^item> Times are in nanoseconds since the epoch, durations in nanoseconds.
  \<^item> The fixed window takes no lock: \<open>fw_step\<close> interleaves its atomic operations; \<open>fw_call\<close> is one call
    that nothing interrupts. The sliding window works under its mutex: a run is a list of calls, in
    the order in which they get the mutex.
\<close>

section \<open>Interceptors\<close>

record rl_ctx =
  rlLimited :: bool
  rlErr :: "go_error option"

type_synonym ('q, 'r) handler = "rl_ctx \<Rightarrow> 'q \<Rightarrow> go_error + 'r"
type_synonym ('q, 'r) reject = "rl_ctx \<Rightarrow> 'q \<Rightarrow> go_string \<Rightarrow> ('q, 'r) handler \<Rightarrow> go_error + 'r"
type_synonym ('q, 'r) interceptor = "rl_ctx \<Rightarrow> 'q \<Rightarrow> go_string \<Rightarrow> ('q, 'r) handler \<Rightarrow> go_error + 'r"

definition limit_text :: bytes where
  "limit_text = [232, 167, 166, 229, 143, 145, 233, 153, 144, 230, 181, 129, 32]"

definition defaultRejection :: "('q, 'r) reject" where
  "defaultRejection ctx req method handler = Inl (StatusError ResourceExhausted (limit_text @ method))"

definition markLimitedRejection :: "('q, 'r) reject" where
  "markLimitedRejection ctx req method handler = handler (ctx\<lparr>rlLimited := True\<rparr>) req"

text \<open>How a limiter answers once it has decided.\<close>

definition decided :: "bool \<Rightarrow> ('q, 'r) reject \<Rightarrow> ('q, 'r) interceptor" where
  "decided admit onReject ctx req method handler =
     (if admit then handler ctx req else onReject ctx req method handler)"

definition method_interceptor :: "go_string \<Rightarrow> ('q, 'r) interceptor \<Rightarrow> ('q, 'r) interceptor" where
  "method_interceptor full_method inner ctx req method handler =
     (if method = full_method then inner ctx req method handler else handler ctx req)"

section \<open>The fixed window\<close>

record fix_window =
  fwInterval :: int
  fwMaxRate :: int
  fwCnt :: int
  fwStart :: int

definition NewFixWindowLimiter :: "int \<Rightarrow> int \<Rightarrow> fix_window" where
  "NewFixWindowLimiter interval maxRate =
     \<lparr>fwInterval = interval, fwMaxRate = maxRate, fwCnt = 0, fwStart = 0\<rparr>"

text \<open>\<^verbatim>\<open>time.Now().Nanosecond()\<close> is the offset within the second.\<close>

definition Nanosecond :: "int \<Rightarrow> int" where
  "Nanosecond now = now mod 1000000000"

definition fw_expired :: "fix_window \<Rightarrow> int \<Rightarrow> int \<Rightarrow> bool" where
  "fw_expired l windowStart current \<longleftrightarrow> i64 (windowStart + fwInterval l) < current"

definition fw_call :: "int \<Rightarrow> fix_window \<Rightarrow> bool \<times> fix_window" where
  "fw_call now l =
     (let current = Nanosecond now;
          l = (if fw_expired l (fwStart l) current then l\<lparr>fwStart := current, fwCnt := 0\<rparr> else l);
          cnt = i64 (fwCnt l + 1)
      in (\<not> fwMaxRate l < cnt, l\<lparr>fwCnt := cnt\<rparr>))"

fun fw_calls :: "int list \<Rightarrow> fix_window \<Rightarrow> bool list" where
  "fw_calls [] l = []"
| "fw_calls (now # nows) l = (case fw_call now l of (admit, l) \<Rightarrow> admit # fw_calls nows l)"

text \<open>
  Where a call is: before the load of the start; before the compare-and-swap; before the store of
  the counter; before the addition; after it. \<open>FwDecided\<close> also keeps the start of the window that
  the limiter was in when the number was taken.
\<close>

datatype fw_pc = FwBegin int | FwSwap int int | FwStore | FwAdd | FwDecided int bool

record fw_system =
  fwLimiter :: fix_window
  fwCalls :: "fw_pc list"

inductive fw_step :: "fw_system \<Rightarrow> fw_system \<Rightarrow> bool" where
  fw_new: "fw_step s (s\<lparr>fwCalls := fwCalls s @ [FwBegin (Nanosecond now)]\<rparr>)"
| fw_load: "t < length (fwCalls s) \<Longrightarrow> fwCalls s ! t = FwBegin current \<Longrightarrow>
    pc = (if fw_expired (fwLimiter s) (fwStart (fwLimiter s)) current
          then FwSwap (fwStart (fwLimiter s)) current else FwAdd) \<Longrightarrow>
    fw_step s (s\<lparr>fwCalls := (fwCalls s)[t := pc]\<rparr>)"
| fw_swap: "t < length (fwCalls s) \<Longrightarrow> fwCalls s ! t = FwSwap start current \<Longrightarrow>
    fwStart (fwLimiter s) = start \<Longrightarrow>
    fw_step s (s\<lparr>fwLimiter := (fwLimiter s)\<lparr>fwStart := current\<rparr>, fwCalls := (fwCalls s)[t := FwStore]\<rparr>)"
| fw_swap_fails: "t < length (fwCalls s) \<Longrightarrow> fwCalls s ! t = FwSwap start current \<Longrightarrow>
    fwStart (fwLimiter s) \<noteq> start \<Longrightarrow>
    fw_step s (s\<lparr>fwCalls := (fwCalls s)[t := FwAdd]\<rparr>)"
| fw_store: "t < length (fwCalls s) \<Longrightarrow> fwCalls s ! t = FwStore \<Longrightarrow>
    fw_step s (s\<lparr>fwLimiter := (fwLimiter s)\<lparr>fwCnt := 0\<rparr>, fwCalls := (fwCalls s)[t := FwAdd]\<rparr>)"
| fw_add: "t < length (fwCalls s) \<Longrightarrow> fwCalls s ! t = FwAdd \<Longrightarrow>
    cnt = i64 (fwCnt (fwLimiter s) + 1) \<Longrightarrow>
    fw_step s (s\<lparr>fwLimiter := (fwLimiter s)\<lparr>fwCnt := cnt\<rparr>,
      fwCalls := (fwCalls s)[t := FwDecided (fwStart (fwLimiter s)) (\<not> fwMaxRate (fwLimiter s) < cnt)]\<rparr>)"

definition fw_start :: "fix_window \<Rightarrow> fw_system" where
  "fw_start l = \<lparr>fwLimiter = l, fwCalls = []\<rparr>"

definition admitted_in :: "int \<Rightarrow> fw_system \<Rightarrow> nat" where
  "admitted_in start s = count_list (fwCalls s) (FwDecided start True)"

section \<open>The sliding window\<close>

record slide_window =
  swMaxRate :: int
  swQueue :: "int list"
  swInterval :: int

definition NewSlideWindowLimiter :: "int \<Rightarrow> int \<Rightarrow> slide_window" where
  "NewSlideWindowLimiter rate interval = \<lparr>swMaxRate = rate, swQueue = [], swInterval = interval\<rparr>"

fun drop_before :: "int \<Rightarrow> int list \<Rightarrow> int list" where
  "drop_before start [] = []"
| "drop_before start (reqTime # q) = (if reqTime < start then drop_before start q else reqTime # q)"

definition sw_call :: "int \<Rightarrow> slide_window \<Rightarrow> bool \<times> slide_window" where
  "sw_call current l =
     (if int (length (swQueue l)) < swMaxRate l
      then (True, l\<lparr>swQueue := swQueue l @ [current]\<rparr>)
      else (let q = drop_before (current - swInterval l) (swQueue l)
            in if swMaxRate l < int (length q) then (False, l\<lparr>swQueue := q\<rparr>)
               else (True, l\<lparr>swQueue := q @ [current]\<rparr>)))"

text \<open>The times of the calls that a run admits, and the limiter after it.\<close>

fun sw_calls :: "int list \<Rightarrow> slide_window \<Rightarrow> int list \<times> slide_window" where
  "sw_calls [] l = ([], l)"
| "sw_calls (now # nows) l =
     (case sw_call now l of (admit, l) \<Rightarrow>
        (case sw_calls nows l of (adm, l) \<Rightarrow> (if admit then now # adm else adm, l)))"

section \<open>Facts on the sliding window\<close>

lemma drop_before_length: "length (drop_before start q) \<le> length q"
  by (induction q) auto

lemma drop_before_suffix: "\<exists>ys. q = ys @ drop_before start q \<and> (\<forall>y \<in> set ys. y < start)"
proof (induction q)
  case (Cons x q)
  then show ?case
  proof (cases "x < start")
    case True
    with Cons obtain ys where "q = ys @ drop_before start q" "\<forall>y \<in> set ys. y < start" by blast
    with True show ?thesis by (intro exI [of _ "x # ys"]) auto
  next
    case False
    then show ?thesis by (intro exI [of _ "[]"]) simp
  qed
qed simp

lemma sw_call_frame [simp]:
  "swMaxRate (snd (sw_call now l)) = swMaxRate l" "swInterval (snd (sw_call now l)) = swInterval l"
  by (simp_all add: sw_call_def Let_def)

lemma sw_call_cases:
  obtains (room) "fst (sw_call now l)" "swQueue (snd (sw_call now l)) = swQueue l @ [now]"
  | (full) "\<not> fst (sw_call now l)"
      "swQueue (snd (sw_call now l)) = drop_before (now - swInterval l) (swQueue l)"
  | (slid) "fst (sw_call now l)"
      "swQueue (snd (sw_call now l)) = drop_before (now - swInterval l) (swQueue l) @ [now]"
proof (cases "int (length (swQueue l)) < swMaxRate l")
  case True
  then show thesis using room by (simp add: sw_call_def)
next
  case False
  show thesis
  proof (cases "swMaxRate l < int (length (drop_before (now - swInterval l) (swQueue l)))")
    case True
    then show thesis using False full by (simp add: sw_call_def)
  next
    case False
    then show thesis using \<open>\<not> int (length (swQueue l)) < swMaxRate l\<close> slid by (simp add: sw_call_def)
  qed
qed

lemma sw_call_bound:
  assumes "length (swQueue l) \<le> nat (swMaxRate l + 1)"
  shows "length (swQueue (snd (sw_call now l))) \<le> nat (swMaxRate l + 1)"
  using assms drop_before_length [of "now - swInterval l" "swQueue l"]
  by (auto simp: sw_call_def Let_def)

lemma sw_calls_frame:
  "swMaxRate (snd (sw_calls nows l)) = swMaxRate l \<and> swInterval (snd (sw_calls nows l)) = swInterval l"
proof (induction nows arbitrary: l)
  case (Cons now nows)
  then show ?case using Cons.IH [of "snd (sw_call now l)"] by (simp add: case_prod_beta)
qed simp

lemma sw_calls_bound:
  "length (swQueue l) \<le> nat (swMaxRate l + 1) \<Longrightarrow>
     length (swQueue (snd (sw_calls nows l))) \<le> nat (swMaxRate l + 1)"
proof (induction nows arbitrary: l)
  case (Cons now nows)
  then show ?case
    using Cons.IH [of "snd (sw_call now l)"] sw_call_bound [OF Cons.prems, of now]
    by (simp add: case_prod_beta)
qed simp

lemma sw_calls_snoc:
  "sw_calls (nows @ [now]) l =
     (case sw_calls nows l of (adm, l) \<Rightarrow>
        (case sw_call now l of (admit, l) \<Rightarrow> (adm @ (if admit then [now] else []), l)))"
proof (induction nows arbitrary: l)
  case (Cons x nows)
  show ?case using Cons.IH [of "snd (sw_call x l)"] by (simp add: case_prod_beta)
qed (simp add: case_prod_beta)

text \<open>
  When the calls come in the order of their times, the queue holds every admitted time that is not
  before the window of the last call.
\<close>

lemma sw_calls_queue:
  assumes "sorted nows" and "0 \<le> swInterval l" and "swQueue l = []"
  shows "\<exists>old. fst (sw_calls nows l) = old @ swQueue (snd (sw_calls nows l))
    \<and> (\<forall>y \<in> set old. nows \<noteq> [] \<and> y < last nows - swInterval l)"
  using assms(1)
proof (induction nows rule: rev_induct)
  case Nil
  show ?case using assms(3) by simp
next
  case (snoc now nows)
  let ?l = "snd (sw_calls nows l)"
  have sorted: "sorted nows" "\<forall>x \<in> set nows. x \<le> now" using snoc.prems by (auto simp: sorted_append)
  then obtain old where old: "fst (sw_calls nows l) = old @ swQueue ?l"
      "\<forall>y \<in> set old. nows \<noteq> [] \<and> y < last nows - swInterval l"
    using snoc.IH by blast
  then have old': "\<forall>y \<in> set old. y < now - swInterval l" using sorted(2) by (fastforce dest: last_in_set)
  obtain ys where ys: "swQueue ?l = ys @ drop_before (now - swInterval l) (swQueue ?l)"
      "\<forall>y \<in> set ys. y < now - swInterval l"
    using drop_before_suffix by blast
  have interval: "swInterval ?l = swInterval l" using sw_calls_frame by blast
  show ?case
  proof (cases rule: sw_call_cases [of now ?l])
    case room
    then show ?thesis using old old' by (intro exI [of _ old]) (simp add: sw_calls_snoc case_prod_beta)
  next
    case full
    then show ?thesis using old old' ys interval
      by (intro exI [of _ "old @ ys"]) (auto simp: sw_calls_snoc case_prod_beta)
  next
    case slid
    then show ?thesis using old old' ys interval
      by (intro exI [of _ "old @ ys"]) (auto simp: sw_calls_snoc case_prod_beta)
  qed
qed

section \<open>A fixed window of a second or more\<close>

definition fw_taken :: "fw_system \<Rightarrow> nat" where
  "fw_taken s = length (filter (\<lambda>c. \<exists>w a. c = FwDecided w a) (fwCalls s))"

definition fw_admitted :: "fw_system \<Rightarrow> nat" where
  "fw_admitted s = length (filter (\<lambda>c. \<exists>w. c = FwDecided w True) (fwCalls s))"

text \<open>In such a window, no call ever finds the window expired.\<close>

fun fw_pc_stuck :: "fw_pc \<Rightarrow> bool" where
  "fw_pc_stuck (FwBegin current) \<longleftrightarrow> current < 1000000000"
| "fw_pc_stuck FwAdd \<longleftrightarrow> True"
| "fw_pc_stuck (FwDecided w a) \<longleftrightarrow> True"
| "fw_pc_stuck _ \<longleftrightarrow> False"

definition fw_stuck :: "fw_system \<Rightarrow> bool" where
  "fw_stuck s \<longleftrightarrow>
     fwStart (fwLimiter s) = 0 \<and> 1000000000 \<le> fwInterval (fwLimiter s) \<and> fwInterval (fwLimiter s) < 2 ^ 63
     \<and> list_all fw_pc_stuck (fwCalls s)
     \<and> fwCnt (fwLimiter s) = int (fw_taken s)
     \<and> fw_admitted s \<le> nat (fwMaxRate (fwLimiter s))"

lemma fw_counts_update:
  assumes "t < length (fwCalls s)" and "\<forall>w a. fwCalls s ! t \<noteq> FwDecided w a"
    and "fwCalls s' = (fwCalls s)[t := c]"
  shows "fw_taken s' = fw_taken s + (if \<exists>w a. c = FwDecided w a then 1 else 0)"
    and "fw_admitted s' = fw_admitted s + (if \<exists>w. c = FwDecided w True then 1 else 0)"
  using length_filter_update [OF assms(1), of "\<lambda>c. \<exists>w a. c = FwDecided w a" c]
    length_filter_update [OF assms(1), of "\<lambda>c. \<exists>w. c = FwDecided w True" c] assms(2,3)
  by (simp_all add: fw_taken_def fw_admitted_def split: if_splits)

lemma fw_admitted_taken: "fw_admitted s \<le> fw_taken s"
  unfolding fw_admitted_def fw_taken_def by (rule length_filter_mono) blast

lemma fw_stuck_at: "fw_stuck s \<Longrightarrow> t < length (fwCalls s) \<Longrightarrow> fw_pc_stuck (fwCalls s ! t)"
  by (simp add: fw_stuck_def list_all_iff)

lemma fw_stuck_step:
  assumes "fw_step s s'" and "fw_stuck s" and "length (fwCalls s) < 2 ^ 63"
  shows "fw_stuck s'"
  using assms(1)
proof cases
  case (fw_new now)
  then show ?thesis using assms(2)
    by (simp add: fw_stuck_def fw_taken_def fw_admitted_def Nanosecond_def)
next
  case (fw_load t current pc)
  have "fw_pc_stuck (fwCalls s ! t)" using fw_stuck_at assms(2) fw_load(2) by blast
  then have "current < 1000000000" using fw_load(3) by simp
  then have pc: "pc = FwAdd"
    using fw_load(4) assms(2) by (simp add: fw_stuck_def fw_expired_def i64_id)
  have "fw_taken s' = fw_taken s" "fw_admitted s' = fw_admitted s"
    using fw_counts_update [of t s s' pc] fw_load pc by simp_all
  then show ?thesis using assms(2) pc by (simp add: fw_load(1) fw_stuck_def list_all_update)
next
  case (fw_swap t start current)
  then have "fw_pc_stuck (fwCalls s ! t)" using fw_stuck_at assms(2) by blast
  then show ?thesis using fw_swap(3) by simp
next
  case (fw_swap_fails t start current)
  then have "fw_pc_stuck (fwCalls s ! t)" using fw_stuck_at assms(2) by blast
  then show ?thesis using fw_swap_fails(3) by simp
next
  case (fw_store t)
  then have "fw_pc_stuck (fwCalls s ! t)" using fw_stuck_at assms(2) by blast
  then show ?thesis using fw_store(3) by simp
next
  case (fw_add t cnt)
  have "fw_taken s < length (fwCalls s)"
    unfolding fw_taken_def using nth_mem [OF fw_add(2)] fw_add(3)
    by (intro length_filter_less [of "fwCalls s ! t"]) simp_all
  then have "int (fw_taken s) + 1 < 2 ^ 63" using assms(3) by simp
  then have cnt: "cnt = int (fw_taken s) + 1"
    using fw_add(4) assms(2) by (simp add: fw_stuck_def i64_id)
  have counts: "fw_taken s' = fw_taken s + 1"
      "fw_admitted s' = fw_admitted s + (if fwMaxRate (fwLimiter s) < cnt then 0 else 1)"
    using fw_counts_update [of t s s' "FwDecided (fwStart (fwLimiter s)) (\<not> fwMaxRate (fwLimiter s) < cnt)"] fw_add
    by simp_all
  moreover have "fw_admitted s' \<le> nat (fwMaxRate (fwLimiter s))"
    using counts(2) cnt fw_admitted_taken [of s] assms(2) by (auto simp: fw_stuck_def)
  ultimately show ?thesis using assms(2) cnt by (simp add: fw_add(1) fw_stuck_def list_all_update)
qed

lemma fw_step_grows: "fw_step s s' \<Longrightarrow> length (fwCalls s) \<le> length (fwCalls s')"
  by (induction rule: fw_step.induct) simp_all

lemma fw_stuck_reach:
  assumes "fw_step\<^sup>*\<^sup>* (fw_start (NewFixWindowLimiter interval maxRate)) s"
    and "1000000000 \<le> interval" and "interval < 2 ^ 63" and "length (fwCalls s) < 2 ^ 63"
  shows "fw_stuck s \<and> fwMaxRate (fwLimiter s) = maxRate"
  using assms(1,4)
proof (induction rule: rtranclp_induct)
  case base
  then show ?case using assms(2,3)
    by (simp add: fw_stuck_def fw_start_def NewFixWindowLimiter_def fw_taken_def fw_admitted_def)
next
  case (step s s')
  have small: "length (fwCalls s) < 2 ^ 63" using fw_step_grows [OF step.hyps(2)] step.prems by linarith
  moreover have "fwMaxRate (fwLimiter s') = fwMaxRate (fwLimiter s)"
    using step.hyps(2) by cases simp_all
  ultimately show ?case using step.IH fw_stuck_step [OF step.hyps(2)] by simp
qed

section \<open>Properties\<close>

text \<open>
  A fixed window of a second or more never resets, since the time it compares with is the offset
  within the second: however many calls come, and whenever, it admits \<open>maxRate\<close> of them in all.
\<close>

theorem fix_window_never_resets:
  assumes "fw_step\<^sup>*\<^sup>* (fw_start (NewFixWindowLimiter interval maxRate)) s"
    and "1000000000 \<le> interval" and "interval < 2 ^ 63" and "length (fwCalls s) < 2 ^ 63"
  shows "fwStart (fwLimiter s) = 0 \<and> fw_admitted s \<le> nat maxRate"
  using fw_stuck_reach [OF assms] by (auto simp: fw_stuck_def)

theorem fix_window_never_resets_witness:
  "\<exists>s. fw_step\<^sup>*\<^sup>* (fw_start (NewFixWindowLimiter 60000000000 1)) s
     \<and> fwCalls s = [FwBegin 5] \<and> fwStart (fwLimiter s) = 0 \<and> fw_admitted s \<le> nat 1"
proof -
  let ?init = "fw_start (NewFixWindowLimiter 60000000000 1)"
  let ?s = "\<lparr>fwLimiter = NewFixWindowLimiter 60000000000 1, fwCalls = [FwBegin 5]\<rparr>"
  have "fw_step ?init ?s" using fw_new [of ?init 5] by (simp add: fw_start_def Nanosecond_def)
  then have reach: "fw_step\<^sup>*\<^sup>* ?init ?s" by (rule r_into_rtranclp)
  show ?thesis using fix_window_never_resets [OF reach] reach by (intro exI [of _ ?s]) simp
qed

text \<open>
  The reset is not atomic: a limiter that allows one call per window can admit two in the same
  window, when one takes its number between the swap of the start and the store of the counter.
\<close>

theorem fix_window_reset_race:
  "\<exists>s. fw_step\<^sup>*\<^sup>* (fw_start (NewFixWindowLimiter 5 1)) s \<and> admitted_in 10 s = 2"
proof -
  let ?l = "\<lambda>cnt. \<lparr>fwInterval = 5, fwMaxRate = 1, fwCnt = cnt, fwStart = 10\<rparr>"
  let ?init = "fw_start (NewFixWindowLimiter 5 1)"
  let ?at = "\<lambda>l a b. \<lparr>fwLimiter = l, fwCalls = [a, b]\<rparr>"
  let ?n = "NewFixWindowLimiter 5 1"
  note eval = NewFixWindowLimiter_def fw_start_def Nanosecond_def fw_expired_def i64_def
  have "fw_step ?init \<lparr>fwLimiter = ?n, fwCalls = [FwBegin 10]\<rparr>"
    using fw_new [of ?init 10] by (simp add: eval)
  moreover have "fw_step \<lparr>fwLimiter = ?n, fwCalls = [FwBegin 10]\<rparr> (?at ?n (FwBegin 10) (FwBegin 11))"
    using fw_new [of "\<lparr>fwLimiter = ?n, fwCalls = [FwBegin 10]\<rparr>" 11] by (simp add: eval)
  moreover have "fw_step (?at ?n (FwBegin 10) (FwBegin 11)) (?at ?n (FwSwap 0 10) (FwBegin 11))"
    using fw_load [of 0 "?at ?n (FwBegin 10) (FwBegin 11)" 10 "FwSwap 0 10"] by (simp add: eval)
  moreover have "fw_step (?at ?n (FwSwap 0 10) (FwBegin 11)) (?at (?l 0) FwStore (FwBegin 11))"
    using fw_swap [of 0 "?at ?n (FwSwap 0 10) (FwBegin 11)" 0 10] by (simp add: eval)
  moreover have "fw_step (?at (?l 0) FwStore (FwBegin 11)) (?at (?l 0) FwStore FwAdd)"
    using fw_load [of 1 "?at (?l 0) FwStore (FwBegin 11)" 11 FwAdd] by (simp add: eval)
  moreover have "fw_step (?at (?l 0) FwStore FwAdd) (?at (?l 1) FwStore (FwDecided 10 True))"
    using fw_add [of 1 "?at (?l 0) FwStore FwAdd" 1] by (simp add: eval)
  moreover have "fw_step (?at (?l 1) FwStore (FwDecided 10 True)) (?at (?l 0) FwAdd (FwDecided 10 True))"
    using fw_store [of 0 "?at (?l 1) FwStore (FwDecided 10 True)"] by simp
  moreover have "fw_step (?at (?l 0) FwAdd (FwDecided 10 True)) (?at (?l 1) (FwDecided 10 True) (FwDecided 10 True))"
    using fw_add [of 0 "?at (?l 0) FwAdd (FwDecided 10 True)" 1] by (simp add: eval)
  ultimately have "fw_step\<^sup>*\<^sup>* ?init (?at (?l 1) (FwDecided 10 True) (FwDecided 10 True))"
    by (meson converse_rtranclp_into_rtranclp rtranclp.rtrancl_refl)
  then show ?thesis
    by (intro exI [of _ "?at (?l 1) (FwDecided 10 True) (FwDecided 10 True)"]) (simp add: admitted_in_def)
qed



text \<open>
  The limit is off by one: of a burst of calls, a sliding window for \<open>rate\<close> calls admits
  \<open>rate + 1\<close>.
\<close>

theorem sliding_window_off_by_one:
  assumes "0 \<le> interval"
  shows "length (fst (sw_calls (replicate n t) (NewSlideWindowLimiter (int rate) interval))) = min n (rate + 1)"
proof -
  have keep: "drop_before (t - interval) (replicate m t) = replicate m t" for m
    using assms by (cases m) simp_all
  have "sw_calls (replicate n t) \<lparr>swMaxRate = int rate, swQueue = replicate m t, swInterval = interval\<rparr> =
      (replicate (min n (rate + 1 - m)) t,
       \<lparr>swMaxRate = int rate, swQueue = replicate (m + min n (rate + 1 - m)) t, swInterval = interval\<rparr>)"
    if "m \<le> rate + 1" for m
    using that
  proof (induction n arbitrary: m)
    case (Suc n)
    show ?case
    proof (cases "m \<le> rate")
      case True
      then have "sw_call t \<lparr>swMaxRate = int rate, swQueue = replicate m t, swInterval = interval\<rparr> =
          (True, \<lparr>swMaxRate = int rate, swQueue = replicate (Suc m) t, swInterval = interval\<rparr>)"
        by (simp add: sw_call_def keep replicate_append_same)
      then show ?thesis using Suc.IH [of "Suc m"] True by (simp add: Suc_diff_le)
    next
      case False
      then have "m = rate + 1" using Suc.prems by simp
      then have "sw_call t \<lparr>swMaxRate = int rate, swQueue = replicate m t, swInterval = interval\<rparr> =
          (False, \<lparr>swMaxRate = int rate, swQueue = replicate m t, swInterval = interval\<rparr>)"
        by (simp add: sw_call_def keep del: replicate_Suc)
      then show ?thesis using Suc.IH [of m] \<open>m = rate + 1\<close> by simp
    qed
  qed simp
  from this [of 0] show ?thesis by (simp add: NewSlideWindowLimiter_def)
qed

theorem sliding_window_off_by_one_witness:
  "length (fst (sw_calls (replicate 5 0) (NewSlideWindowLimiter (int 2) 1000))) = min 5 (2 + 1)"
  by (rule sliding_window_off_by_one) simp

end
