(* ===== verification/Buckets.thy ===== *)
theory Buckets
  imports RateLimit
begin

text \<open>
  The token bucket (\<^verbatim>\<open>ratelimit/token_bucket.go\<close>) and the leaky bucket
  (\<^verbatim>\<open>ratelimit/leaky_bucket.go\<close>) as step relations, whose labels are what an observer sees.

  \<^item> The channel of a ticker holds one tick; a tick that finds it full is lost. Creating a ticker
    panics unless the interval is positive.
  \<^item> A \<^verbatim>\<open>select\<close> takes any of its ready cases, and its default only when none is ready. A closed
    channel is always ready, and closing it again panics.
  \<^item> The channel of tokens is its length. For a buffer of 0 a send needs a waiting receiver, and
    both ends here only poll, so that it stays at its capacity.
\<close>

section \<open>Labels\<close>

datatype bucket_event =
    Tick
  | Produce
  | ProducerStops
  | CallAnswered go_error
  | Admitted
  | CloseReturns
  | ClosePanics go_panic

text \<open>
  What both buckets promise: a credit that a tick raises by at most one and that an admitted call
  uses up, whatever else happens.
\<close>

locale metered =
  fixes step :: "'s \<Rightarrow> 'e \<Rightarrow> 's \<Rightarrow> bool"
    and credit :: "'s \<Rightarrow> nat"
    and tick :: 'e
    and admit :: 'e
  assumes step_tick: "step s tick t \<Longrightarrow> credit t \<le> Suc (credit s)"
    and step_admit: "step s admit t \<Longrightarrow> Suc (credit t) \<le> credit s"
    and step_other: "step s e t \<Longrightarrow> e \<noteq> tick \<Longrightarrow> e \<noteq> admit \<Longrightarrow> credit t \<le> credit s"
    and tick_admit: "tick \<noteq> admit"
begin

lemma trace_credit: "trace step s es t \<Longrightarrow> credit t + count_list es admit \<le> credit s + count_list es tick"
proof (induction rule: trace.induct)
  case (trace_snoc es t e u)
  then show ?case
    using step_tick [of t u] step_admit [of t u] step_other [of t e u] tick_admit
    by (cases "e = tick"; cases "e = admit") auto
qed simp

lemma admitted_bound: "trace step s es t \<Longrightarrow> count_list es admit \<le> credit s + count_list es tick"
  using trace_credit by fastforce

end

section \<open>The token bucket\<close>

record token_bucket =
  tbBuffer :: nat
  tbTokens :: nat
  tbPending :: bool
  tbProducer :: bool
  tbClosed :: bool

definition NewTokenBucketLimiter :: "int \<Rightarrow> int \<Rightarrow> token_bucket go" where
  "NewTokenBucketLimiter buffer interval =
     (if buffer < 0 \<or> interval \<le> 0 then Inl NonPositiveArg
      else Inr \<lparr>tbBuffer = nat buffer, tbTokens = 0, tbPending = False, tbProducer = True, tbClosed = False\<rparr>)"

definition unprotected_error :: go_error where
  "unprotected_error = TextError (go_str ''emicro: '' @
     [231, 179, 187, 231, 187, 159, 230, 156, 170, 232, 162, 171, 228, 191, 157, 230, 138, 164])"

definition limited_error :: go_error where
  "limited_error = TextError (go_str ''emicro: '' @
     [232, 162, 171, 233, 153, 144, 230, 181, 129, 228, 186, 134])"

text \<open>The producer on a tick: it sends a token unless the buffer is full.\<close>

definition tb_send :: "token_bucket \<Rightarrow> token_bucket" where
  "tb_send l = (if tbTokens l < tbBuffer l then l\<lparr>tbTokens := Suc (tbTokens l)\<rparr> else l)"

lemma tb_send_simps [simp]:
  "tbTokens (tb_send l) = (if tbTokens l < tbBuffer l then Suc (tbTokens l) else tbTokens l)"
  "tbBuffer (tb_send l) = tbBuffer l" "tbPending (tb_send l) = tbPending l"
  "tbProducer (tb_send l) = tbProducer l" "tbClosed (tb_send l) = tbClosed l"
  by (simp_all add: tb_send_def)

text \<open>The goroutine of the producer.\<close>

inductive tb_producer :: "token_bucket \<Rightarrow> bucket_event \<Rightarrow> token_bucket \<Rightarrow> bool" where
  tb_tick: "tbProducer l \<Longrightarrow> tb_producer l Tick (l\<lparr>tbPending := True\<rparr>)"
| tb_produce: "tbProducer l \<Longrightarrow> tbPending l \<Longrightarrow>
    tb_producer l Produce (tb_send (l\<lparr>tbPending := False\<rparr>))"
| tb_stop: "tbProducer l \<Longrightarrow> tbClosed l \<Longrightarrow>
    tb_producer l ProducerStops (l\<lparr>tbProducer := False, tbPending := False\<rparr>)"

text \<open>With it the calls and \<^verbatim>\<open>Close\<close>.\<close>

inductive tb_step :: "token_bucket \<Rightarrow> bucket_event \<Rightarrow> token_bucket \<Rightarrow> bool" where
  tb_produces: "tb_producer l e l' \<Longrightarrow> tb_step l e l'"
| tb_done: "tb_step l (CallAnswered e) l" if "e = CtxCanceled \<or> e = CtxDeadlineExceeded"
| tb_unprotected: "tbClosed l \<Longrightarrow> tb_step l (CallAnswered unprotected_error) l"
| tb_admit: "0 < tbTokens l \<Longrightarrow> tb_step l Admitted (l\<lparr>tbTokens := tbTokens l - 1\<rparr>)"
| tb_limited: "tbTokens l = 0 \<Longrightarrow> \<not> tbClosed l \<Longrightarrow> tb_step l (CallAnswered limited_error) l"
| tb_close: "\<not> tbClosed l \<Longrightarrow> tb_step l CloseReturns (l\<lparr>tbClosed := True\<rparr>)"
| tb_close_again: "tbClosed l \<Longrightarrow> tb_step l (ClosePanics CloseOfClosed) l"

lemma tb_stepE:
  assumes "tb_step l e l'"
  obtains "tbProducer l" "e = Tick" "l' = l\<lparr>tbPending := True\<rparr>"
  | "tbProducer l" "tbPending l" "e = Produce" "l' = tb_send (l\<lparr>tbPending := False\<rparr>)"
  | "tbProducer l" "tbClosed l" "e = ProducerStops" "l' = l\<lparr>tbProducer := False, tbPending := False\<rparr>"
  | err where "err = CtxCanceled \<or> err = CtxDeadlineExceeded" "e = CallAnswered err" "l' = l"
  | "tbClosed l" "e = CallAnswered unprotected_error" "l' = l"
  | "0 < tbTokens l" "e = Admitted" "l' = l\<lparr>tbTokens := tbTokens l - 1\<rparr>"
  | "tbTokens l = 0" "\<not> tbClosed l" "e = CallAnswered limited_error" "l' = l"
  | "\<not> tbClosed l" "e = CloseReturns" "l' = l\<lparr>tbClosed := True\<rparr>"
  | "tbClosed l" "e = ClosePanics CloseOfClosed" "l' = l"
  using assms
proof cases
  case tb_produces
  then show thesis by cases (rule that(1) that(2) that(3); assumption)+
qed (rule that(4) that(5) that(6) that(7) that(8) that(9); assumption)+

section \<open>The leaky bucket\<close>

record leaky_bucket =
  lbPending :: bool
  lbStopped :: bool
  lbClosed :: bool

definition NewLeakyBucketLimiter :: "int \<Rightarrow> leaky_bucket go" where
  "NewLeakyBucketLimiter interval =
     (if interval \<le> 0 then Inl NonPositiveArg
      else Inr \<lparr>lbPending = False, lbStopped = False, lbClosed = False\<rparr>)"

text \<open>\<^verbatim>\<open>Close\<close> closes the channel, then stops the ticker; a call that finds nothing ready waits.\<close>

inductive lb_step :: "leaky_bucket \<Rightarrow> bucket_event \<Rightarrow> leaky_bucket \<Rightarrow> bool" where
  lb_tick: "\<not> lbStopped l \<Longrightarrow> lb_step l Tick (l\<lparr>lbPending := True\<rparr>)"
| lb_done: "lb_step l (CallAnswered e) l" if "e = CtxCanceled \<or> e = CtxDeadlineExceeded"
| lb_unprotected: "lbClosed l \<Longrightarrow> lb_step l (CallAnswered unprotected_error) l"
| lb_admit: "lbPending l \<Longrightarrow> lb_step l Admitted (l\<lparr>lbPending := False\<rparr>)"
| lb_close: "\<not> lbClosed l \<Longrightarrow> lb_step l CloseReturns (l\<lparr>lbClosed := True\<rparr>)"
| lb_stop: "lbClosed l \<Longrightarrow> lb_step l ProducerStops (l\<lparr>lbStopped := True\<rparr>)"
| lb_close_again: "lbClosed l \<Longrightarrow> lb_step l (ClosePanics CloseOfClosed) l"

inductive_cases lb_stepE: "lb_step l e l'"

section \<open>Credits\<close>

definition tb_credit :: "token_bucket \<Rightarrow> nat" where
  "tb_credit l = tbTokens l + (if tbPending l then 1 else 0)"

interpretation token: metered tb_step tb_credit Tick Admitted
  by unfold_locales (auto simp: tb_credit_def elim!: tb_stepE)

definition lb_credit :: "leaky_bucket \<Rightarrow> nat" where
  "lb_credit l = (if lbPending l then 1 else 0)"

interpretation leaky: metered lb_step lb_credit Tick Admitted
  by unfold_locales (auto simp: lb_credit_def elim!: lb_stepE)

lemma tb_step_bound:
  "tb_step l e l' \<Longrightarrow> tbTokens l \<le> tbBuffer l \<Longrightarrow> tbTokens l' \<le> tbBuffer l' \<and> tbBuffer l' = tbBuffer l"
  by (erule tb_stepE) auto

lemma tb_trace_bound:
  assumes "NewTokenBucketLimiter buffer interval = Inr start" and "trace tb_step start es l"
  shows "tbTokens l \<le> tbBuffer l \<and> tbBuffer l = nat buffer"
  using assms(2,1)
proof (induction rule: trace.induct)
  case trace_Nil
  then show ?case by (auto simp: NewTokenBucketLimiter_def split: if_splits)
next
  case (trace_snoc es t e u)
  then show ?case using tb_step_bound [of t e u] by simp
qed

text \<open>Once the producer has stopped, it stays stopped.\<close>

definition tb_drained :: "token_bucket \<Rightarrow> bool" where
  "tb_drained l \<longleftrightarrow> \<not> tbProducer l \<and> \<not> tbPending l"

lemma tb_drained_step: "tb_step l e l' \<Longrightarrow> tb_drained l \<Longrightarrow> tb_drained l' \<and> e \<noteq> Tick"
  by (erule tb_stepE) (auto simp: tb_drained_def)

lemma tb_drained_trace: "trace tb_step l es l' \<Longrightarrow> tb_drained l \<Longrightarrow> tb_drained l' \<and> count_list es Tick = 0"
proof (induction rule: trace.induct)
  case (trace_snoc es t e u)
  then show ?case using tb_drained_step [of t e u] by simp
qed simp

lemma tb_stopped_drained: "tb_step l ProducerStops l' \<Longrightarrow> tb_drained l'"
  by (erule tb_stepE) (simp_all add: tb_drained_def)

section \<open>Properties\<close>

text \<open>
  C23: In any stretch of the life of a token bucket, the calls admitted are at most the buffer, one
  tick not yet turned into a token, and the ticks of that stretch; the tokens never exceed the buffer.
\<close>

theorem token_bucket_rate:
  assumes "NewTokenBucketLimiter buffer interval = Inr start"
    and "trace tb_step start es l" and "trace tb_step l fs l'"
  shows "count_list fs Admitted \<le> nat buffer + 1 + count_list fs Tick \<and> tbTokens l \<le> nat buffer"
proof -
  have "tb_credit l \<le> nat buffer + 1" using tb_trace_bound [OF assms(1,2)] by (simp add: tb_credit_def)
  then show ?thesis using token.admitted_bound [OF assms(3)] tb_trace_bound [OF assms(1,2)] by simp
qed

theorem token_bucket_rate_witness:
  "\<exists>start l l'. NewTokenBucketLimiter 1 5 = Inr start \<and> trace tb_step start [Tick] l
     \<and> trace tb_step l [Produce] l' \<and> count_list [Produce] Admitted \<le> nat 1 + 1 + count_list [Produce] Tick"
proof -
  let ?start = "\<lparr>tbBuffer = 1, tbTokens = 0, tbPending = False, tbProducer = True, tbClosed = False\<rparr>"
  have n: "NewTokenBucketLimiter 1 5 = Inr ?start" by (simp add: NewTokenBucketLimiter_def)
  have t: "trace tb_step ?start [Tick] (?start\<lparr>tbPending := True\<rparr>)"
    by (rule trace_one, rule tb_produces, rule tb_tick) simp
  have p: "trace tb_step (?start\<lparr>tbPending := True\<rparr>) [Produce] (?start\<lparr>tbTokens := 1\<rparr>)"
    using tb_produces [OF tb_produce [of "?start\<lparr>tbPending := True\<rparr>"]] by (intro trace_one) (simp add: tb_send_def)
  show ?thesis using token_bucket_rate [OF n t p] n t p by blast
qed

text \<open>
  Closing a token bucket does not stop it at once: after its producer has ended, as many calls
  as there are tokens left, and no more, can still be admitted.
\<close>

theorem token_bucket_drains:
  assumes "tb_step l ProducerStops m" and "trace tb_step m fs n"
  shows "count_list fs Admitted \<le> tbTokens l"
proof -
  have "tb_drained m" using assms(1) by (rule tb_stopped_drained)
  then have "tb_credit m = tbTokens m" "count_list fs Tick = 0"
    using tb_drained_trace [OF assms(2)] by (simp_all add: tb_drained_def tb_credit_def)
  moreover have "tbTokens m = tbTokens l" using assms(1) by (rule tb_stepE) simp_all
  ultimately show ?thesis using token.admitted_bound [OF assms(2)] by simp
qed

theorem token_bucket_drains_witness:
  "\<exists>l m n. tbClosed l \<and> tb_step l ProducerStops m \<and> trace tb_step m [Admitted] n \<and> count_list [Admitted] Admitted \<le> tbTokens l"
proof -
  let ?l = "\<lparr>tbBuffer = 1, tbTokens = 1, tbPending = False, tbProducer = True, tbClosed = True\<rparr>"
  have s: "tb_step ?l ProducerStops (?l\<lparr>tbProducer := False\<rparr>)" using tb_produces [OF tb_stop [of ?l]] by simp
  have a: "trace tb_step (?l\<lparr>tbProducer := False\<rparr>) [Admitted] (?l\<lparr>tbProducer := False, tbTokens := 0\<rparr>)"
    using tb_admit [of "?l\<lparr>tbProducer := False\<rparr>"] by (intro trace_one) simp
  have "tbClosed ?l" by simp
  with token_bucket_drains [OF s a] s a show ?thesis by blast
qed

text \<open>
  In any stretch of the life of a leaky bucket, the calls admitted are at most the ticks of that
  stretch and one that was waiting: calls that come together are spread over the ticks.
\<close>

theorem leaky_bucket_rate:
  assumes "NewLeakyBucketLimiter interval = Inr start" and "trace lb_step start es l" and "trace lb_step l fs l'"
  shows "count_list fs Admitted \<le> 1 + count_list fs Tick \<and> count_list es Admitted \<le> count_list es Tick"
proof -
  have "lb_credit start = 0" "lb_credit l \<le> 1"
    using assms(1) by (auto simp: NewLeakyBucketLimiter_def lb_credit_def split: if_splits)
  then show ?thesis using leaky.admitted_bound [OF assms(2)] leaky.admitted_bound [OF assms(3)] by simp
qed

theorem leaky_bucket_rate_witness:
  "\<exists>start l l'. NewLeakyBucketLimiter 5 = Inr start \<and> trace lb_step start [Tick] l
     \<and> trace lb_step l [Admitted] l' \<and> count_list [Admitted] Admitted \<le> 1 + count_list [Admitted] Tick"
proof -
  let ?start = "\<lparr>lbPending = False, lbStopped = False, lbClosed = False\<rparr>"
  have n: "NewLeakyBucketLimiter 5 = Inr ?start" by (simp add: NewLeakyBucketLimiter_def)
  have t: "trace lb_step ?start [Tick] (?start\<lparr>lbPending := True\<rparr>)"
    by (rule trace_one, rule lb_tick) simp
  have a: "trace lb_step (?start\<lparr>lbPending := True\<rparr>) [Admitted] ?start"
    using lb_admit [of "?start\<lparr>lbPending := True\<rparr>"] by (intro trace_one) simp
  show ?thesis using leaky_bucket_rate [OF n t a] n t a by blast
qed

end
