(* ===== verification/RedisLimit.thy ===== *)
theory RedisLimit
  imports RateLimit
begin

text \<open>
  The limiters that keep their window in Redis (\<^verbatim>\<open>ratelimit/redis_fix_window.go\<close>,
  \<^verbatim>\<open>ratelimit/redis_slide_window.go\<close>), with the Lua scripts they send (\<^verbatim>\<open>ratelimit/lua\<close>).

  \<^item> The Go side is the interceptor: \<open>eval\<close> is what \<^verbatim>\<open>Eval(...).Bool()\<close> returns.
  \<^item> The scripts run in Redis without interruption. The commands they call are a parameter: functions
    on a state \<open>'d\<close> of the key. What the scripts rely on is in \<open>string_key_laws\<close> and \<open>sorted_set_laws\<close>,
    which say what the Redis documentation says of them. Times are in milliseconds.
\<close>

section \<open>The interceptors\<close>

definition redis_interceptor :: "('q, 'r) reject \<Rightarrow> go_error + bool \<Rightarrow> ('q, 'r) interceptor" where
  "redis_interceptor onReject eval ctx req method handler =
     (case eval of
        Inl e \<Rightarrow> Inl e
      | Inr limit \<Rightarrow> if limit then onReject ctx req method handler else handler ctx req)"

text \<open>
  The limiters and the script, the keys and the arguments that they send. The fixed window keeps its
  interval as a duration, in nanoseconds, the sliding one in milliseconds; \<open>client\<close> is what Redis answers.
\<close>

datatype lua_script = LuaFixWindow | LuaSlideWindow

record ('q, 'r) redis_limiter =
  rlKey :: go_string
  rlMaxRate :: int
  rlInterval :: int
  rlOnReject :: "('q, 'r) reject"

type_synonym redis_client = "lua_script \<Rightarrow> go_string list \<Rightarrow> int list \<Rightarrow> go_error + bool"

text \<open>\<^verbatim>\<open>Duration.Milliseconds\<close> divides towards zero.\<close>

definition Milliseconds :: "int \<Rightarrow> int" where
  "Milliseconds d = (if 0 \<le> d then d div 1000000 else - (- d div 1000000))"

definition NewRedisFixWindowLimiter :: "go_string \<Rightarrow> int \<Rightarrow> int \<Rightarrow> ('q, 'r) redis_limiter" where
  "NewRedisFixWindowLimiter key maxRate interval =
     \<lparr>rlKey = key, rlMaxRate = maxRate, rlInterval = interval, rlOnReject = defaultRejection\<rparr>"

definition redis_fix_limit :: "redis_client \<Rightarrow> ('q, 'r) redis_limiter \<Rightarrow> go_error + bool" where
  "redis_fix_limit client l = client LuaFixWindow [rlKey l] [Milliseconds (rlInterval l), rlMaxRate l]"

definition NewRedisSlideWindowLimiter :: "go_string \<Rightarrow> int \<Rightarrow> int \<Rightarrow> ('q, 'r) redis_limiter" where
  "NewRedisSlideWindowLimiter key maxRate interval =
     \<lparr>rlKey = key, rlMaxRate = maxRate, rlInterval = Milliseconds interval, rlOnReject = defaultRejection\<rparr>"

text \<open>\<open>now\<close> is the clock in milliseconds.\<close>

definition redis_slide_limit :: "redis_client \<Rightarrow> int \<Rightarrow> ('q, 'r) redis_limiter \<Rightarrow> go_error + bool" where
  "redis_slide_limit client now l = client LuaSlideWindow [rlKey l] [rlMaxRate l, rlInterval l, now]"

definition redis_slide_interceptor :: "redis_client \<Rightarrow> int \<Rightarrow> ('q, 'r) redis_limiter \<Rightarrow> ('q, 'r) interceptor" where
  "redis_slide_interceptor client now l = redis_interceptor (rlOnReject l) (redis_slide_limit client now l)"

definition redis_fix_interceptor :: "redis_client \<Rightarrow> ('q, 'r) redis_limiter \<Rightarrow> ('q, 'r) interceptor" where
  "redis_fix_interceptor client l = redis_interceptor (rlOnReject l) (redis_fix_limit client l)"

section \<open>The fixed window\<close>

text \<open>The commands on a key with a string value: \<open>rkGet\<close> is \<open>None\<close> when there is no such key now.\<close>

record 'd string_key =
  rkGet :: "int \<Rightarrow> 'd \<Rightarrow> int option"
  rkSetPX :: "int \<Rightarrow> int \<Rightarrow> int \<Rightarrow> 'd \<Rightarrow> 'd"
  rkIncr :: "int \<Rightarrow> 'd \<Rightarrow> 'd"

text \<open>The script at time \<open>now\<close>, in milliseconds: whether to limit, and the state after it.\<close>

definition lua_fix_window :: "'d string_key \<Rightarrow> int \<Rightarrow> int \<Rightarrow> int \<Rightarrow> 'd \<Rightarrow> bool \<times> 'd" where
  "lua_fix_window r window limit now d =
     (case rkGet r now d of
        None \<Rightarrow> if limit < 1 then (True, d) else (False, rkSetPX r now 1 window d)
      | Some val \<Rightarrow> if val < limit then (False, rkIncr r now d) else (True, d))"

text \<open>
  A key set with an expiry reads as its value until then; an increment keeps the expiry.
\<close>

definition string_key_laws :: "'d string_key \<Rightarrow> ('d \<Rightarrow> (int \<times> int) option) \<Rightarrow> bool" where
  "string_key_laws r val \<longleftrightarrow>
     (\<forall>now d. rkGet r now d = (case val d of None \<Rightarrow> None | Some (v, expiry) \<Rightarrow> if now < expiry then Some v else None))
     \<and> (\<forall>now v ttl d. 0 < ttl \<longrightarrow> val (rkSetPX r now v ttl d) = Some (v, now + ttl))
     \<and> (\<forall>now d v expiry. val d = Some (v, expiry) \<longrightarrow> now < expiry \<longrightarrow> val (rkIncr r now d) = Some (v + 1, expiry))"

fun lua_fix_calls :: "'d string_key \<Rightarrow> int \<Rightarrow> int \<Rightarrow> int list \<Rightarrow> 'd \<Rightarrow> bool list \<times> 'd" where
  "lua_fix_calls r window limit [] d = ([], d)"
| "lua_fix_calls r window limit (now # nows) d =
     (case lua_fix_window r window limit now d of (limited, d) \<Rightarrow>
        (case lua_fix_calls r window limit nows d of (ls, d) \<Rightarrow> ((\<not> limited) # ls, d)))"

section \<open>The sliding window\<close>

record 'd sorted_set =
  rsRemRangeByScore :: "int \<Rightarrow> 'd \<Rightarrow> 'd"
  rsCount :: "'d \<Rightarrow> int"
  rsAdd :: "int \<Rightarrow> int \<Rightarrow> 'd \<Rightarrow> 'd"
  rsPexpire :: "int \<Rightarrow> int \<Rightarrow> 'd \<Rightarrow> 'd"

definition lua_slide_window :: "'d sorted_set \<Rightarrow> int \<Rightarrow> int \<Rightarrow> int \<Rightarrow> 'd \<Rightarrow> bool \<times> 'd" where
  "lua_slide_window r threshold window now d =
     (let min = now - window;
          d = rsRemRangeByScore r min d;
          cnt = rsCount r d
      in if threshold \<le> cnt then (True, d)
         else (False, rsPexpire r now window (rsAdd r now now d)))"

text \<open>
  The set maps members to scores; removing by score removes the members up to it, adding a member
  that is there changes its score; an expiry in the future changes no member.
\<close>

definition sorted_set_laws :: "'d sorted_set \<Rightarrow> ('d \<Rightarrow> (int \<times> int) set) \<Rightarrow> bool" where
  "sorted_set_laws r members \<longleftrightarrow>
     (\<forall>d. finite (members d))
     \<and> (\<forall>m d. members (rsRemRangeByScore r m d) = {x \<in> members d. m < snd x})
     \<and> (\<forall>d. rsCount r d = int (card (members d)))
     \<and> (\<forall>s k d. members (rsAdd r s k d) = insert (k, s) {x \<in> members d. fst x \<noteq> k})
     \<and> (\<forall>now ttl d. 0 < ttl \<longrightarrow> members (rsPexpire r now ttl d) = members d)"

fun lua_slide_calls :: "'d sorted_set \<Rightarrow> int \<Rightarrow> int \<Rightarrow> int list \<Rightarrow> 'd \<Rightarrow> bool list \<times> 'd" where
  "lua_slide_calls r threshold window [] d = ([], d)"
| "lua_slide_calls r threshold window (now # nows) d =
     (case lua_slide_window r threshold window now d of (limited, d) \<Rightarrow>
        (case lua_slide_calls r threshold window nows d of (ls, d) \<Rightarrow> ((\<not> limited) # ls, d)))"

section \<open>Facts\<close>

lemma lua_slide_same_ms:
  assumes "sorted_set_laws r members" and "2 \<le> threshold" and "0 < window"
    and "members d \<subseteq> {(now, now)}"
  shows "\<exists>d'. lua_slide_window r threshold window now d = (False, d') \<and> members d' = {(now, now)}"
proof -
  let ?d = "rsRemRangeByScore r (now - window) d"
  have sub: "members ?d \<subseteq> {(now, now)}" using assms(1,4) by (auto simp: sorted_set_laws_def)
  then have "card (members ?d) \<le> 1" using card_mono [OF _ sub] by simp
  then have "\<not> threshold \<le> rsCount r ?d" using assms(1,2) by (simp add: sorted_set_laws_def)
  moreover have "members (rsPexpire r now window (rsAdd r now now ?d)) = {(now, now)}"
    using assms(1,3) sub by (auto simp: sorted_set_laws_def)
  ultimately show ?thesis by (simp add: lua_slide_window_def Let_def)
qed

lemma lua_fix_in_window:
  assumes "string_key_laws r val" and "val d = Some (v, expiry)" and "\<forall>now \<in> set nows. now < expiry" and "0 \<le> v"
  shows "\<exists>d'. lua_fix_calls r window limit nows d = (map (\<lambda>i. v + int i < limit) [0..<length nows], d')"
  using assms(2,3,4)
proof (induction nows arbitrary: d v)
  case (Cons now nows)
  have get: "rkGet r now d = Some v" using assms(1) Cons.prems by (simp add: string_key_laws_def)
  show ?case
  proof (cases "v < limit")
    case True
    have "val (rkIncr r now d) = Some (v + 1, expiry)"
      using assms(1) Cons.prems by (simp add: string_key_laws_def)
    then obtain d' where "lua_fix_calls r window limit nows (rkIncr r now d) =
        (map (\<lambda>i. v + 1 + int i < limit) [0..<length nows], d')"
      using Cons.IH [of "rkIncr r now d" "v + 1"] Cons.prems by auto
    then show ?thesis using True
      by (simp add: lua_fix_window_def get upt_conv_Cons comp_def add.assoc del: upt_Suc flip: map_Suc_upt)
  next
    case False
    then obtain d' where "lua_fix_calls r window limit nows d = (map (\<lambda>i. v + int i < limit) [0..<length nows], d')"
      using Cons.IH [of d v] Cons.prems by auto
    moreover have "map (\<lambda>i. v + int i < limit) [0..<length nows] = map (\<lambda>i. v + 1 + int i < limit) [0..<length nows]"
      using False by auto
    ultimately show ?thesis using False
      by (simp add: lua_fix_window_def get upt_conv_Cons comp_def add.assoc del: upt_Suc flip: map_Suc_upt)
  qed
qed simp

section \<open>Properties\<close>

text \<open>
  In the window that its first call opens, the script for the fixed window admits exactly the
  first \<open>limit\<close> calls and no other.
\<close>

theorem redis_fix_window_exact:
  assumes "string_key_laws r val" and "rkGet r now d = None" and "1 \<le> limit" and "0 < window"
    and "list_all (\<lambda>t. t < now + window) nows"
  shows "fst (lua_fix_calls r window limit (now # nows) d) = map (\<lambda>i. int i < limit) [0..<Suc (length nows)]"
proof -
  have "val (rkSetPX r now 1 window d) = Some (1, now + window)"
    using assms(1,4) by (simp add: string_key_laws_def)
  then obtain d' where "lua_fix_calls r window limit nows (rkSetPX r now 1 window d) =
      (map (\<lambda>i. 1 + int i < limit) [0..<length nows], d')"
    using lua_fix_in_window [OF assms(1), of "rkSetPX r now 1 window d" 1 "now + window" nows window limit] assms(5)
    by (auto simp: list_all_iff)
  then show ?thesis using assms(2,3)
    by (simp add: lua_fix_window_def upt_conv_Cons del: upt_Suc comp_def flip: map_Suc_upt)
qed

text \<open>A key in memory: its value and the time of its expiry, if there is one.\<close>

definition memory_key :: "(int \<times> int) option string_key" where
  "memory_key =
     \<lparr>rkGet = (\<lambda>now d. case d of None \<Rightarrow> None | Some (v, e) \<Rightarrow> if now < e then Some v else None),
      rkSetPX = (\<lambda>now v ttl d. Some (v, now + ttl)),
      rkIncr = (\<lambda>now d. map_option (\<lambda>(v, e). (v + 1, e)) d)\<rparr>"

lemma memory_key_laws: "string_key_laws memory_key (\<lambda>d. d)"
  by (simp add: string_key_laws_def memory_key_def)

theorem redis_fix_window_exact_witness:
  "fst (lua_fix_calls memory_key 100 2 [5, 6, 7] None) = [True, True, False]"
  using redis_fix_window_exact [OF memory_key_laws, of 5 None 2 100 "[6, 7]"]
  by (simp add: memory_key_def)

text \<open>
  The script for the sliding window counts the calls of one millisecond as one, since they are
  the same member of its set: with a threshold of two or more, any number of them is admitted.
\<close>

theorem redis_slide_window_same_ms:
  assumes "sorted_set_laws r members" and "2 \<le> threshold" and "0 < window" and "members d = {}"
  shows "fst (lua_slide_calls r threshold window (replicate n now) d) = replicate n True"
proof -
  have "members d \<subseteq> {(now, now)} \<Longrightarrow> fst (lua_slide_calls r threshold window (replicate n now) d) = replicate n True" for d
  proof (induction n arbitrary: d)
    case (Suc n)
    then show ?case using lua_slide_same_ms [OF assms(1-3) Suc.prems] by (auto simp: case_prod_beta)
  qed simp
  then show ?thesis using assms(4) by simp
qed

text \<open>A sorted set in memory.\<close>

definition memory_set :: "(int \<times> int) list sorted_set" where
  "memory_set =
     \<lparr>rsRemRangeByScore = (\<lambda>m d. filter (\<lambda>x. m < snd x) d),
      rsCount = (\<lambda>d. int (length (remdups d))),
      rsAdd = (\<lambda>s k d. (k, s) # filter (\<lambda>x. fst x \<noteq> k) d),
      rsPexpire = (\<lambda>now ttl d. d)\<rparr>"

lemma memory_set_laws: "sorted_set_laws memory_set set"
  by (auto simp: sorted_set_laws_def memory_set_def length_remdups_card_conv)

theorem redis_slide_window_same_ms_witness:
  "fst (lua_slide_calls memory_set 2 1000 (replicate 7 12345) []) = replicate 7 True"
  by (rule redis_slide_window_same_ms [OF memory_set_laws]) simp_all

end
