(* ===== verification/GoJson.thy ===== *)
theory GoJson
  imports Errs
begin

text \<open>
  What the code uses of the packages \<^verbatim>\<open>encoding/json\<close>, \<^verbatim>\<open>unicode/utf8\<close> and \<^verbatim>\<open>strconv\<close> of the standard
  library (Go 1.18): \<^verbatim>\<open>json.Marshal\<close> and \<^verbatim>\<open>json.Unmarshal\<close> on a struct whose fields are strings and
  \<^verbatim>\<open>uint32\<close>s, which is what a registry stores.

  \<^item> Text: \<open>runes\<close> cuts a string into its UTF-8 sequences, \<open>quote_body\<close> and \<open>unquote\<close> are the escaping
    of a JSON string, with the replacement character for bytes that are not UTF-8.
  \<^item> Parsing: \<open>scan_step\<close> is the scanner of the package, one byte at a time with the stack of the open
    arrays and objects; it also builds the value, which the package does in a second pass. The texts
    of the errors are those of the package.
  \<^item> Structs: \<open>marshal_struct\<close> and \<open>unmarshal_struct\<close> on the list of the fields, in their order.
    \<open>unmarshal_marshal\<close> is the round trip.
\<close>

section \<open>Text\<close>

definition cont_byte :: "byte \<Rightarrow> bool" where
  "cont_byte b \<longleftrightarrow> 0x80 \<le> b \<and> b \<le> 0xBF"

fun utf8_seq :: "bytes \<Rightarrow> bool" where
  "utf8_seq [a] = (a < 0x80)"
| "utf8_seq [a, b] = (0xC2 \<le> a \<and> a \<le> 0xDF \<and> cont_byte b)"
| "utf8_seq [a, b, c] =
     (0xE0 \<le> a \<and> a \<le> 0xEF \<and> (if a = 0xE0 then 0xA0 else 0x80) \<le> b
      \<and> b \<le> (if a = 0xED then 0x9F else 0xBF) \<and> cont_byte c)"
| "utf8_seq [a, b, c, d] =
     (0xF0 \<le> a \<and> a \<le> 0xF4 \<and> (if a = 0xF0 then 0x90 else 0x80) \<le> b
      \<and> b \<le> (if a = 0xF4 then 0x8F else 0xBF) \<and> cont_byte c \<and> cont_byte d)"
| "utf8_seq _ = False"

text \<open>The length of the sequence a string starts with, 0 when there is none.\<close>

definition utf8_head :: "bytes \<Rightarrow> nat" where
  "utf8_head xs =
     (case find (\<lambda>n. n \<le> length xs \<and> utf8_seq (take n xs)) [1, 2, 3, 4] of None \<Rightarrow> 0 | Some n \<Rightarrow> n)"

fun runes :: "bytes \<Rightarrow> bytes option list" where
  "runes [] = []"
| "runes (b # bs) =
     (case utf8_head (b # bs) of
        0 \<Rightarrow> None # runes bs
      | Suc n \<Rightarrow> Some (b # take n bs) # runes (drop n bs))"

definition replacement :: bytes where
  "replacement = [0xEF, 0xBF, 0xBD]"

fun clean_rune :: "bytes option \<Rightarrow> bytes" where
  "clean_rune None = replacement"
| "clean_rune (Some w) = w"

definition clean_text :: "go_string \<Rightarrow> go_string" where
  "clean_text s = concat (map clean_rune (runes s))"

definition valid_utf8 :: "go_string \<Rightarrow> bool" where
  "valid_utf8 s \<longleftrightarrow> None \<notin> set (runes s)"

text \<open>\<^verbatim>\<open>utf8.EncodeRune\<close>, for a number below \<open>2 ^ 21\<close>.\<close>

definition encode_rune :: "nat \<Rightarrow> bytes" where
  "encode_rune r =
     (if r < 0x80 then [of_nat r]
      else if r < 0x800 then [of_nat (0xC0 + r div 64), of_nat (0x80 + r mod 64)]
      else if 0x10FFFF < r \<or> 0xD800 \<le> r \<and> r < 0xE000 then replacement
      else if r < 0x10000 then
        [of_nat (0xE0 + r div 4096), of_nat (0x80 + r div 64 mod 64), of_nat (0x80 + r mod 64)]
      else [of_nat (0xF0 + r div 262144), of_nat (0x80 + r div 4096 mod 64),
            of_nat (0x80 + r div 64 mod 64), of_nat (0x80 + r mod 64)])"

section \<open>Strings\<close>

definition hex_lower :: "nat \<Rightarrow> byte" where
  "hex_lower n = (if n < 10 then of_nat (48 + n) else of_nat (87 + n))"

text \<open>The bytes that \<^verbatim>\<open>json.Marshal\<close> writes as they are.\<close>

definition html_safe :: "byte \<Rightarrow> bool" where
  "html_safe b \<longleftrightarrow> 0x20 \<le> b \<and> b \<notin> {34, 38, 60, 62, 92}"

definition quote_byte :: "byte \<Rightarrow> bytes" where
  "quote_byte b =
     (if html_safe b then [b]
      else if b = 92 \<or> b = 34 then [92, b]
      else if b = 10 then [92, 110]
      else if b = 13 then [92, 114]
      else if b = 9 then [92, 116]
      else [92, 117, 48, 48, hex_lower (unat b div 16), hex_lower (unat b mod 16)])"

fun quote_rune :: "bytes option \<Rightarrow> bytes" where
  "quote_rune None = 92 # go_str ''ufffd''"
| "quote_rune (Some w) =
     (if length w = 1 then quote_byte (hd w)
      else if w = [0xE2, 0x80, 0xA8] then 92 # go_str ''u2028''
      else if w = [0xE2, 0x80, 0xA9] then 92 # go_str ''u2029''
      else w)"

definition quote_body :: "go_string \<Rightarrow> bytes" where
  "quote_body s = concat (map quote_rune (runes s))"

definition quote_string :: "go_string \<Rightarrow> bytes" where
  "quote_string s = 34 # quote_body s @ [34]"

definition is_hex :: "byte \<Rightarrow> bool" where
  "is_hex c \<longleftrightarrow> 48 \<le> c \<and> c \<le> 57 \<or> 97 \<le> c \<and> c \<le> 102 \<or> 65 \<le> c \<and> c \<le> 70"

definition hex_value :: "byte \<Rightarrow> nat" where
  "hex_value c = (if c \<le> 57 then unat c - 48 else if c \<le> 70 then unat c - 55 else unat c - 87)"

text \<open>\<^verbatim>\<open>getu4\<close>: the number of an escape \<^verbatim>\<open>\uXXXX\<close> at the start of a text.\<close>

fun getu4 :: "bytes \<Rightarrow> nat option" where
  "getu4 (x # y # a # b # c # d # _) =
     (if x = 92 \<and> y = 117 \<and> list_all is_hex [a, b, c, d]
      then Some (((hex_value a * 16 + hex_value b) * 16 + hex_value c) * 16 + hex_value d) else None)"
| "getu4 _ = None"

text \<open>\<^verbatim>\<open>utf16.DecodeRune\<close> of a surrogate and the escape after it.\<close>

definition surrogate_pair :: "nat \<Rightarrow> nat option \<Rightarrow> nat option" where
  "surrogate_pair r r1 =
     (case r1 of
        Some l \<Rightarrow> if r < 0xDC00 \<and> 0xDC00 \<le> l \<and> l < 0xE000
                 then Some ((r - 0xD800) * 1024 + (l - 0xDC00) + 0x10000) else None
      | None \<Rightarrow> None)"

definition unescape :: "byte \<Rightarrow> byte" where
  "unescape e = (if e = 98 then 8 else if e = 102 then 12 else if e = 110 then 10
     else if e = 114 then 13 else if e = 116 then 9 else e)"

function unquote :: "bytes \<Rightarrow> go_string" where
  "unquote [] = []"
| "unquote (b # bs) =
     (if b = 92 then
        (case getu4 (b # bs) of
           Some r \<Rightarrow>
             if 0xD800 \<le> r \<and> r < 0xE000 then
               (case surrogate_pair r (getu4 (drop 5 bs)) of
                  Some p \<Rightarrow> encode_rune p @ unquote (drop 11 bs)
                | None \<Rightarrow> replacement @ unquote (drop 5 bs))
             else encode_rune r @ unquote (drop 5 bs)
         | None \<Rightarrow> (case bs of [] \<Rightarrow> [] | e # bs' \<Rightarrow> unescape e # unquote bs'))
      else
        (case utf8_head (b # bs) of
           0 \<Rightarrow> replacement @ unquote bs
         | Suc n \<Rightarrow> (b # take n bs) @ unquote (drop n bs)))"
  by pat_completeness auto
termination by (relation "measure length") auto

declare unquote.simps(2) [simp del]

section \<open>Numbers\<close>

fun digits :: "nat \<Rightarrow> bytes" where
  "digits n = (if n < 10 then [of_nat (48 + n)] else digits (n div 10) @ [of_nat (48 + n mod 10)])"

declare digits.simps [simp del]

text \<open>A signed number.\<close>

definition int_text :: "int \<Rightarrow> bytes" where
  "int_text n = (if n < 0 then 45 # digits (nat (- n)) else digits (nat n))"

definition is_digit :: "byte \<Rightarrow> bool" where
  "is_digit c \<longleftrightarrow> 48 \<le> c \<and> c \<le> 57"

definition digits_value :: "bytes \<Rightarrow> nat" where
  "digits_value ds = foldl (\<lambda>n d. 10 * n + (unat d - 48)) 0 ds"

text \<open>\<^verbatim>\<open>strconv.ParseUint\<close> in base 10, and the check that the result fits in a \<^verbatim>\<open>uint32\<close>.\<close>

definition parse_u32 :: "bytes \<Rightarrow> u32 option" where
  "parse_u32 ds =
     (if ds \<noteq> [] \<and> list_all is_digit ds \<and> digits_value ds < 2 ^ 32 then Some (of_nat (digits_value ds)) else None)"


section \<open>Text written and read back\<close>

lemmas byte_nat = word_le_nat_alt word_less_nat_alt

lemma utf8_head_Suc:
  assumes "utf8_head xs = Suc n"
  shows "Suc n \<le> length xs" "utf8_seq (take (Suc n) xs)"
  using assms by (simp_all add: utf8_head_def split: option.splits if_splits)
    (auto simp: numeral_eq_Suc)

lemma utf8_head_seq:
  assumes "utf8_seq w"
  shows "utf8_head (w @ ys) = length w"
  using assms
proof (cases w rule: utf8_seq.cases)
  case (2 a b)
  then have "\<not> a < 128" using assms by (auto simp: byte_nat)
  with 2 assms show ?thesis by (simp add: utf8_head_def)
next
  case (3 a b c)
  then have "\<not> a < 128" "\<not> a \<le> 223" using assms by (auto simp: byte_nat)
  with 3 assms show ?thesis by (simp add: utf8_head_def)
next
  case (4 a b c d)
  then have "\<not> a < 128" "\<not> a \<le> 223" "\<not> a \<le> 239" using assms by (auto simp: byte_nat)
  with 4 assms show ?thesis by (simp add: utf8_head_def)
qed (simp_all add: utf8_head_def)

lemma utf8_seq_nonempty: "utf8_seq w \<Longrightarrow> w \<noteq> []"
  by (cases w) auto

lemma runes_seq:
  assumes "utf8_seq w"
  shows "runes (w @ ys) = Some w # runes ys"
proof -
  obtain b bs where w: "w = b # bs" using utf8_seq_nonempty [OF assms] by (cases w) auto
  show ?thesis using utf8_head_seq [OF assms, of ys] by (simp add: w)
qed

lemma runes_Some: "Some w \<in> set (runes s) \<Longrightarrow> utf8_seq w"
proof (induction s rule: runes.induct)
  case (2 b bs)
  then show ?case
    using utf8_head_Suc [of "b # bs"] by (auto split: nat.splits)
qed simp

lemma multi_bytes:
  assumes "utf8_seq w" and "length w \<noteq> 1"
  shows "list_all (\<lambda>b. 128 \<le> b) w"
  using assms by (cases w rule: utf8_seq.cases) (auto simp: cont_byte_def byte_nat split: if_splits)

lemma quote_body_Nil [simp]: "quote_body [] = []"
  by (simp add: quote_body_def)

lemma clean_text_Nil [simp]: "clean_text [] = []"
  by (simp add: clean_text_def)

lemma below_16: "n < 16 \<Longrightarrow> n \<in> {0, 1, 2, 3, 4, 5, 6, 7, 8, 9, 10, 11, 12, 13, 14, 15 :: nat}"
  by simp presburger

lemma hex_lower_hex:
  assumes "n < 16"
  shows "is_hex (hex_lower n)" "hex_value (hex_lower n) = n"
  using below_16 [OF assms] by (auto simp: hex_lower_def hex_value_def is_hex_def)

lemma getu4_byte:
  "getu4 (92 # 117 # 48 # 48 # hex_lower (unat (b :: byte) div 16) # hex_lower (unat b mod 16) # rest) = Some (unat b)"
proof -
  have "unat b < 256" using unsigned_less [of b] by simp
  then have "unat b div 16 < 16" by simp
  then show ?thesis
    by (simp add: hex_lower_hex) (simp add: is_hex_def hex_value_def)
qed

lemma encode_ascii: "(b :: byte) < 128 \<Longrightarrow> encode_rune (unat b) = [b]"
  by (simp add: encode_rune_def byte_nat)

lemma unquote_plain:
  assumes "utf8_seq w" and "hd w \<noteq> 92"
  shows "unquote (w @ rest) = w @ unquote rest"
proof -
  obtain b bs where w: "w = b # bs" using utf8_seq_nonempty [OF assms(1)] by (cases w) auto
  show ?thesis using utf8_head_seq [OF assms(1), of rest] assms(2) by (simp add: w unquote.simps(2))
qed

lemma getu4_other: "y \<noteq> 117 \<Longrightarrow> getu4 (x # y # rest) = None"
  by (cases "x # y # rest" rule: getu4.cases) auto

lemma unquote_escape: "e \<noteq> 117 \<Longrightarrow> unquote (92 # e # rest) = unescape e # unquote rest"
  by (subst unquote.simps(2)) (simp add: getu4_other)

lemma unquote_byte:
  assumes "b < 128"
  shows "unquote (quote_byte b @ rest) = b # unquote rest"
proof (cases "html_safe b")
  case True
  then have "b \<noteq> 92" by (auto simp: html_safe_def)
  then show ?thesis using unquote_plain [of "[b]" rest] assms True by (simp add: quote_byte_def)
next
  case False
  show ?thesis
  proof (cases "b \<in> {92, 34, 10, 13, 9}")
    case True
    then show ?thesis by (auto simp: quote_byte_def html_safe_def unescape_def unquote_escape)
  next
    case esc: False
    then have q: "quote_byte b = 92 # 117 # 48 # 48 # hex_lower (unat b div 16) # [hex_lower (unat b mod 16)]"
      using False by (simp add: quote_byte_def)
    have "unat b < 128" using assms by (simp add: byte_nat)
    then have "\<not> 0xD800 \<le> unat b" by simp
    then show ?thesis
      unfolding q append_Cons append_Nil
      by (subst unquote.simps(2), subst getu4_byte) (simp add: encode_ascii [OF assms])
  qed
qed

lemma unquote_rune:
  assumes "r = None \<or> (\<exists>w. r = Some w \<and> utf8_seq w)"
  shows "unquote (quote_rune r @ rest) = clean_rune r @ unquote rest"
proof -
  consider "r = None" | w where "r = Some w" "utf8_seq w" using assms by blast
  then show ?thesis
  proof cases
    case 1
    then show ?thesis by (simp add: unquote.simps(2) [of 92] is_hex_def hex_value_def encode_rune_def replacement_def)
  next
    case (2 w)
    show ?thesis
    proof (cases "length w = 1")
      case True
      then obtain b where "w = [b]" by (cases w) auto
      then show ?thesis using 2 unquote_byte by simp
    next
      case False
      have "128 \<le> hd w" using multi_bytes [OF 2(2) False] utf8_seq_nonempty [OF 2(2)] by (cases w) auto
      then have "hd w \<noteq> 92" by auto
      then show ?thesis using unquote_plain [OF 2(2)] 2 False
        by (simp add: unquote.simps(2) [of 92] is_hex_def hex_value_def encode_rune_def)
    qed
  qed
qed

lemma unquote_quote: "unquote (quote_body s @ rest) = clean_text s @ unquote rest"
proof -
  have "unquote (concat (map quote_rune rs) @ rest) = concat (map clean_rune rs) @ unquote rest"
    if "\<And>w. Some w \<in> set rs \<Longrightarrow> utf8_seq w" for rs
    using that
  proof (induction rs)
    case (Cons r rs)
    have "r = None \<or> (\<exists>w. r = Some w \<and> utf8_seq w)" using Cons.prems by (cases r) auto
    from unquote_rune [OF this] Cons show ?case by simp
  qed simp
  then show ?thesis unfolding quote_body_def clean_text_def using runes_Some by blast
qed

lemma clean_valid:
  assumes "valid_utf8 s"
  shows "clean_text s = s"
proof -
  have "concat (map clean_rune (runes s)) = s" if "None \<notin> set (runes s)" for s
    using that
  proof (induction s rule: runes.induct)
    case (2 b bs)
    then show ?case by (simp split: nat.splits)
  qed simp
  then show ?thesis using assms by (simp add: clean_text_def valid_utf8_def)
qed

lemma valid_Nil [simp]: "valid_utf8 []"
  by (simp add: valid_utf8_def)

lemma valid_ascii [simp]: "b < 128 \<Longrightarrow> valid_utf8 (b # bs) \<longleftrightarrow> valid_utf8 bs"
  using runes_seq [of "[b]" bs] by (simp add: valid_utf8_def)

lemma list_all_valid: "list_all (\<lambda>b. b < 128) s \<Longrightarrow> valid_utf8 s"
  by (induction s) simp_all

section \<open>Values and the scanner\<close>

datatype json =
    JNull
  | JBool bool
  | JNumber bytes
  | JString go_string
  | JArray "json list"
  | JObject "(go_string \<times> json) list"

datatype scan_state =
    BeginValue | BeginValueOrEmpty | BeginStringOrEmpty | BeginString | EndValue | EndTop
  | InString | InStringEsc | InStringEscU nat
  | NumNeg | NumInt | NumZero | NumDot | NumFrac | NumE | NumESign | NumExp
  | InLiteral bytes bytes json

text \<open>
  The open arrays and objects: before a key, after a key, before a value and after a pair for an
  object (the package has one state for the first two and one for the others).
\<close>

datatype frame =
    FArray "json list"
  | FKey "(go_string \<times> json) list"
  | FColon "(go_string \<times> json) list" go_string
  | FValue "(go_string \<times> json) list" go_string
  | FPair "(go_string \<times> json) list"

record scanner =
  scStep :: scan_state
  scStack :: "frame list"
  scToken :: bytes
  scValue :: "json option"

definition is_space :: "byte \<Rightarrow> bool" where
  "is_space c \<longleftrightarrow> c = 32 \<or> c = 9 \<or> c = 13 \<or> c = 10"

text \<open>\<^verbatim>\<open>quoteChar\<close>, which shows a byte as \<^verbatim>\<open>strconv.Quote\<close> shows the character of that number.\<close>

definition quote_char :: "byte \<Rightarrow> bytes" where
  "quote_char c =
     (let hex2 = [hex_lower (unat c div 16), hex_lower (unat c mod 16)] in
      if c = 39 then [39, 92, 39, 39]
      else if c = 34 then [39, 34, 39]
      else 39 # (if c = 92 then [92, 92]
        else if 32 \<le> c \<and> c < 127 then [c]
        else if c = 7 then [92, 97] else if c = 8 then [92, 98] else if c = 12 then [92, 102]
        else if c = 10 then [92, 110] else if c = 13 then [92, 114] else if c = 9 then [92, 116]
        else if c = 11 then [92, 118]
        else if c < 32 \<or> c = 127 then [92, 120] @ hex2
        else if 161 \<le> c \<and> c \<noteq> 173 then encode_rune (unat c)
        else [92, 117, 48, 48] @ hex2) @ [39])"

definition scan_error :: "byte \<Rightarrow> bytes \<Rightarrow> bytes + scanner" where
  "scan_error c ctxt = Inl (go_str ''invalid character '' @ quote_char c @ 32 # ctxt)"

definition max_depth :: nat where
  "max_depth = 10000"

text \<open>A value is complete: it goes to the innermost open array or object.\<close>

definition emit :: "json \<Rightarrow> scanner \<Rightarrow> scanner" where
  "emit v s =
     (case scStack s of
        [] \<Rightarrow> s\<lparr>scValue := Some v\<rparr>
      | FArray vs # fs \<Rightarrow> s\<lparr>scStack := FArray (vs @ [v]) # fs\<rparr>
      | FKey ps # fs \<Rightarrow> (case v of JString k \<Rightarrow> s\<lparr>scStack := FColon ps k # fs\<rparr> | _ \<Rightarrow> s)
      | FValue ps k # fs \<Rightarrow> s\<lparr>scStack := FPair (ps @ [(k, v)]) # fs\<rparr>
      | _ \<Rightarrow> s)"

definition push_frame :: "frame \<Rightarrow> scan_state \<Rightarrow> byte \<Rightarrow> scanner \<Rightarrow> bytes + scanner" where
  "push_frame f st c s =
     (if length (scStack s) < max_depth then Inr (s\<lparr>scStep := st, scStack := f # scStack s\<rparr>)
      else scan_error c (go_str ''exceeded max depth''))"

definition pop_frame :: "json \<Rightarrow> scanner \<Rightarrow> scanner" where
  "pop_frame v s =
     emit v (s\<lparr>scStack := tl (scStack s), scStep := (if length (scStack s) = 1 then EndTop else EndValue)\<rparr>)"

definition end_value :: "scanner \<Rightarrow> byte \<Rightarrow> bytes + scanner" where
  "end_value s c =
     (case scStack s of
        [] \<Rightarrow> if is_space c then Inr (s\<lparr>scStep := EndTop\<rparr>) else scan_error c (go_str ''after top-level value'')
      | f # fs \<Rightarrow>
          if is_space c then Inr (s\<lparr>scStep := EndValue\<rparr>)
          else (case f of
              FColon ps k \<Rightarrow>
                if c = 58 then Inr (s\<lparr>scStep := BeginValue, scStack := FValue ps k # fs\<rparr>)
                else scan_error c (go_str ''after object key'')
            | FPair ps \<Rightarrow>
                if c = 44 then Inr (s\<lparr>scStep := BeginString, scStack := FKey ps # fs\<rparr>)
                else if c = 125 then Inr (pop_frame (JObject ps) s)
                else scan_error c (go_str ''after object key:value pair'')
            | FArray vs \<Rightarrow>
                if c = 44 then Inr (s\<lparr>scStep := BeginValue\<rparr>)
                else if c = 93 then Inr (pop_frame (JArray vs) s)
                else scan_error c (go_str ''after array element'')
            | _ \<Rightarrow> scan_error c []))"

text \<open>A number ends at the byte after it.\<close>

definition end_number :: "scanner \<Rightarrow> byte \<Rightarrow> bytes + scanner" where
  "end_number s c = end_value (emit (JNumber (scToken s)) s) c"

definition take_byte :: "scan_state \<Rightarrow> byte \<Rightarrow> scanner \<Rightarrow> bytes + scanner" where
  "take_byte st c s = Inr (s\<lparr>scStep := st, scToken := scToken s @ [c]\<rparr>)"

definition begin_token :: "scan_state \<Rightarrow> bytes \<Rightarrow> scanner \<Rightarrow> bytes + scanner" where
  "begin_token st tok s = Inr (s\<lparr>scStep := st, scToken := tok\<rparr>)"

definition begin_value :: "scanner \<Rightarrow> byte \<Rightarrow> bytes + scanner" where
  "begin_value s c =
     (if is_space c then Inr s
      else if c = 123 then push_frame (FKey []) BeginStringOrEmpty c s
      else if c = 91 then push_frame (FArray []) BeginValueOrEmpty c s
      else if c = 34 then begin_token InString [] s
      else if c = 45 then begin_token NumNeg [c] s
      else if c = 48 then begin_token NumZero [c] s
      else if c = 116 then begin_token (InLiteral (go_str ''rue'') (go_str ''true'') (JBool True)) [] s
      else if c = 102 then begin_token (InLiteral (go_str ''alse'') (go_str ''false'') (JBool False)) [] s
      else if c = 110 then begin_token (InLiteral (go_str ''ull'') (go_str ''null'') JNull) [] s
      else if is_digit c then begin_token NumInt [c] s
      else scan_error c (go_str ''looking for beginning of value''))"

definition begin_string :: "scanner \<Rightarrow> byte \<Rightarrow> bytes + scanner" where
  "begin_string s c =
     (if is_space c then Inr s
      else if c = 34 then begin_token InString [] s
      else scan_error c (go_str ''looking for beginning of object key string''))"

definition after_integer :: "scanner \<Rightarrow> byte \<Rightarrow> bytes + scanner" where
  "after_integer s c =
     (if c = 46 then take_byte NumDot c s
      else if c = 101 \<or> c = 69 then take_byte NumE c s
      else end_number s c)"

definition exponent_digit :: "scanner \<Rightarrow> byte \<Rightarrow> bytes + scanner" where
  "exponent_digit s c =
     (if is_digit c then take_byte NumExp c s
      else scan_error c (go_str ''in exponent of numeric literal''))"

fun scan_literal :: "bytes \<Rightarrow> bytes \<Rightarrow> json \<Rightarrow> scanner \<Rightarrow> byte \<Rightarrow> bytes + scanner" where
  "scan_literal (e # es) name v s c =
     (if c \<noteq> e then scan_error c (go_str ''in literal '' @ name @ go_str '' (expecting '' @ quote_char e @ [41])
      else if es = [] then Inr (emit v (s\<lparr>scStep := EndValue\<rparr>))
      else Inr (s\<lparr>scStep := InLiteral es name v\<rparr>))"
| "scan_literal [] name v s c = scan_error c []"

definition scan_step :: "scanner \<Rightarrow> byte \<Rightarrow> bytes + scanner" where
  "scan_step s c =
     (case scStep s of
        BeginValue \<Rightarrow> begin_value s c
      | BeginValueOrEmpty \<Rightarrow> if c = 93 then end_value s c else begin_value s c
      | BeginString \<Rightarrow> begin_string s c
      | BeginStringOrEmpty \<Rightarrow>
          if c = 125 then end_value (s\<lparr>scStack := FPair [] # tl (scStack s)\<rparr>) c else begin_string s c
      | EndValue \<Rightarrow> end_value s c
      | EndTop \<Rightarrow> if is_space c then Inr s else scan_error c (go_str ''after top-level value'')
      | InString \<Rightarrow>
          if c = 34 then Inr (emit (JString (unquote (scToken s))) (s\<lparr>scStep := EndValue\<rparr>))
          else if c = 92 then take_byte InStringEsc c s
          else if c < 32 then scan_error c (go_str ''in string literal'')
          else take_byte InString c s
      | InStringEsc \<Rightarrow>
          if c \<in> {98, 102, 110, 114, 116, 92, 47, 34} then take_byte InString c s
          else if c = 117 then take_byte (InStringEscU 3) c s
          else scan_error c (go_str ''in string escape code'')
      | InStringEscU n \<Rightarrow>
          if is_hex c then take_byte (case n of 0 \<Rightarrow> InString | Suc m \<Rightarrow> InStringEscU m) c s
          else scan_error c (92 # go_str ''u hexadecimal character escape'')
      | NumNeg \<Rightarrow>
          if c = 48 then take_byte NumZero c s
          else if is_digit c then take_byte NumInt c s
          else scan_error c (go_str ''in numeric literal'')
      | NumInt \<Rightarrow> if is_digit c then take_byte NumInt c s else after_integer s c
      | NumZero \<Rightarrow> after_integer s c
      | NumDot \<Rightarrow>
          if is_digit c then take_byte NumFrac c s
          else scan_error c (go_str ''after decimal point in numeric literal'')
      | NumFrac \<Rightarrow>
          if is_digit c then take_byte NumFrac c s
          else if c = 101 \<or> c = 69 then take_byte NumE c s
          else end_number s c
      | NumE \<Rightarrow> if c = 43 \<or> c = 45 then take_byte NumESign c s else exponent_digit s c
      | NumESign \<Rightarrow> exponent_digit s c
      | NumExp \<Rightarrow> if is_digit c then take_byte NumExp c s else end_number s c
      | InLiteral es name v \<Rightarrow> scan_literal es name v s c)"

fun scan_bytes :: "scanner \<Rightarrow> bytes \<Rightarrow> bytes + scanner" where
  "scan_bytes s [] = Inr s"
| "scan_bytes s (c # cs) = (case scan_step s c of Inl e \<Rightarrow> Inl e | Inr s \<Rightarrow> scan_bytes s cs)"

definition new_scanner :: scanner where
  "new_scanner = \<lparr>scStep = BeginValue, scStack = [], scToken = [], scValue = None\<rparr>"

text \<open>The end of the text, which the package gives to the scanner as a space.\<close>

definition scan_eof :: "scanner \<Rightarrow> bytes + json" where
  "scan_eof s =
     (case (if scStep s = EndTop then Inr s else scan_step s 32) of
        Inl e \<Rightarrow> Inl e
      | Inr s \<Rightarrow>
          (case (scStep s, scValue s) of
             (EndTop, Some v) \<Rightarrow> Inr v
           | _ \<Rightarrow> Inl (go_str ''unexpected end of JSON input'')))"

definition parse_json :: "bytes \<Rightarrow> bytes + json" where
  "parse_json bs = (case scan_bytes new_scanner bs of Inl e \<Rightarrow> Inl e | Inr s \<Rightarrow> scan_eof s)"


section \<open>Structs\<close>

datatype field_value = FvString go_string | FvUint32 u32

type_synonym go_struct = "(go_string \<times> field_value) list"

fun marshal_value :: "field_value \<Rightarrow> bytes" where
  "marshal_value (FvString s) = quote_string s"
| "marshal_value (FvUint32 w) = digits (unat w)"

fun marshal_fields :: "go_struct \<Rightarrow> bytes" where
  "marshal_fields [] = []"
| "marshal_fields [(n, v)] = quote_string n @ 58 # marshal_value v"
| "marshal_fields ((n, v) # fs) = quote_string n @ 58 # marshal_value v @ 44 # marshal_fields fs"

definition marshal_struct :: "go_struct \<Rightarrow> bytes" where
  "marshal_struct fs = 123 # marshal_fields fs @ [125]"

text \<open>
  \<^verbatim>\<open>equalFoldRight\<close>: a name and a key that are equal up to the case of ASCII letters, where the key may
  have a long s for an s and a Kelvin sign for a k.
\<close>

definition upper :: "byte \<Rightarrow> byte" where
  "upper b = (if 97 \<le> b \<and> b \<le> 122 then b - 32 else b)"

fun fold_eq :: "bytes \<Rightarrow> bytes \<Rightarrow> bool" where
  "fold_eq [] ts = (ts = [])"
| "fold_eq (b # bs) [] = False"
| "fold_eq (b # bs) (t # ts) =
     (if t < 128 then upper b = upper t \<and> fold_eq bs ts
      else if take 1 ts = [0xBF] \<and> t = 0xC5 then upper b = 83 \<and> fold_eq bs (drop 1 ts)
      else if take 2 ts = [0x84, 0xAA] \<and> t = 0xE2 then upper b = 75 \<and> fold_eq bs (drop 2 ts)
      else False)"

definition find_field :: "bytes \<Rightarrow> go_struct \<Rightarrow> (go_string \<times> field_value) option" where
  "find_field k fs =
     (case find (\<lambda>f. fst f = k) fs of
        Some f \<Rightarrow> Some f
      | None \<Rightarrow> find (\<lambda>f. fold_eq (fst f) k) fs)"

fun json_kind :: "json \<Rightarrow> bytes" where
  "json_kind JNull = go_str ''null''"
| "json_kind (JBool b) = go_str ''bool''"
| "json_kind (JNumber n) = go_str ''number''"
| "json_kind (JString s) = go_str ''string''"
| "json_kind (JArray vs) = go_str ''array''"
| "json_kind (JObject ps) = go_str ''object''"

text \<open>The new value of a field, or how the package names a value that does not fit.\<close>

fun store_value :: "json \<Rightarrow> field_value \<Rightarrow> bytes + field_value" where
  "store_value JNull f = Inr f"
| "store_value (JString s) (FvString _) = Inr (FvString s)"
| "store_value (JNumber n) (FvUint32 _) =
     (case parse_u32 n of Some w \<Rightarrow> Inr (FvUint32 w) | None \<Rightarrow> Inl (go_str ''number '' @ n))"
| "store_value v f = Inl (json_kind v)"

fun field_type :: "field_value \<Rightarrow> bytes" where
  "field_type (FvString _) = go_str ''string''"
| "field_type (FvUint32 _) = go_str ''uint32''"

fun set_field :: "go_string \<Rightarrow> field_value \<Rightarrow> go_struct \<Rightarrow> go_struct" where
  "set_field n v [] = []"
| "set_field n v ((m, x) # fs) = (if m = n then (m, v) # fs else (m, x) # set_field n v fs)"

text \<open>
  The members of an object in their order: a key without a field is skipped, a value that does not fit
  is passed over and the first such error returned at the end. \<open>t\<close> is the name of the struct.
\<close>

definition decode_member :: "bytes \<Rightarrow> go_string \<times> json \<Rightarrow> bytes option \<times> go_struct \<Rightarrow> bytes option \<times> go_struct" where
  "decode_member t p st =
     (case find_field (fst p) (snd st) of
        None \<Rightarrow> st
      | Some (n, f) \<Rightarrow>
          (case store_value (snd p) f of
             Inr f \<Rightarrow> (fst st, set_field n f (snd st))
           | Inl kind \<Rightarrow>
               (case fst st of
                  Some e \<Rightarrow> st
                | None \<Rightarrow> (Some (go_str ''json: cannot unmarshal '' @ kind @ go_str '' into Go struct field ''
                    @ t @ [46] @ n @ go_str '' of type '' @ field_type f), snd st))))"

definition decode_struct :: "bytes \<Rightarrow> bytes \<Rightarrow> go_struct \<Rightarrow> json \<Rightarrow> go_error + go_struct" where
  "decode_struct pkg t fs v =
     (case v of
        JNull \<Rightarrow> Inr fs
      | JObject ps \<Rightarrow>
          (case fold (decode_member t) ps (None, fs) of
             (Some e, fs) \<Rightarrow> Inl (TextError e)
           | (None, fs) \<Rightarrow> Inr fs)
      | _ \<Rightarrow> Inl (TextError (go_str ''json: cannot unmarshal '' @ json_kind v @ go_str '' into Go value of type ''
               @ pkg @ [46] @ t)))"

definition unmarshal_struct :: "bytes \<Rightarrow> bytes \<Rightarrow> go_struct \<Rightarrow> bytes \<Rightarrow> go_error + go_struct" where
  "unmarshal_struct pkg t fs bs =
     (case parse_json bs of Inl e \<Rightarrow> Inl (TextError e) | Inr v \<Rightarrow> decode_struct pkg t fs v)"

lemma unmarshal_empty: "unmarshal_struct pkg t fs [] = Inl (TextError (go_str ''unexpected end of JSON input''))"
  by (simp add: unmarshal_struct_def parse_json_def scan_eof_def new_scanner_def scan_step_def begin_value_def
      is_space_def)

section \<open>The scanner on what \<^verbatim>\<open>json.Marshal\<close> writes\<close>

lemma scan_append: "scan_bytes s (xs @ ys) = (case scan_bytes s xs of Inl e \<Rightarrow> Inl e | Inr s \<Rightarrow> scan_bytes s ys)"
  by (induction xs arbitrary: s) (auto split: sum.splits)

lemma scan_plain:
  "list_all (\<lambda>c. 32 \<le> c \<and> c \<noteq> 34 \<and> c \<noteq> 92) xs \<Longrightarrow> scStep s = InString \<Longrightarrow>
     scan_bytes s xs = Inr (s\<lparr>scToken := scToken s @ xs\<rparr>)"
proof (induction xs arbitrary: s)
  case (Cons c cs)
  have "scan_step s c = Inr (s\<lparr>scToken := scToken s @ [c]\<rparr>)"
    using Cons.prems by (simp add: scan_step_def take_byte_def) (auto simp: word_less_nat_alt word_le_nat_alt)
  then show ?case using Cons by simp
qed simp

lemma scan_hex:
  assumes "scStep s = InStringEscU n" and "is_hex c"
  shows "scan_step s c =
     Inr (s\<lparr>scStep := (case n of 0 \<Rightarrow> InString | Suc m \<Rightarrow> InStringEscU m), scToken := scToken s @ [c]\<rparr>)"
  using assms by (simp add: scan_step_def take_byte_def)

lemma scan_u_escape:
  assumes "scStep s = InString" and "list_all is_hex [a, b, c, d]"
  shows "scan_bytes s [92, 117, a, b, c, d] = Inr (s\<lparr>scToken := scToken s @ [92, 117, a, b, c, d]\<rparr>)"
proof -
  have "scan_step s 92 = Inr (s\<lparr>scStep := InStringEsc, scToken := scToken s @ [92]\<rparr>)"
    using assms(1) by (simp add: scan_step_def take_byte_def)
  moreover have "scan_step (s\<lparr>scStep := InStringEsc, scToken := scToken s @ [92]\<rparr>) 117 =
      Inr (s\<lparr>scStep := InStringEscU 3, scToken := scToken s @ [92, 117]\<rparr>)"
    by (simp add: scan_step_def take_byte_def)
  ultimately show ?thesis using assms by (simp add: scan_hex eval_nat_numeral)
qed

lemma scan_quote_byte:
  assumes "scStep s = InString"
  shows "scan_bytes s (quote_byte b) = Inr (s\<lparr>scToken := scToken s @ quote_byte b\<rparr>)"
proof -
  consider "html_safe b" | "\<not> html_safe b" "b \<in> {92, 34, 10, 13, 9}" | "\<not> html_safe b" "b \<notin> {92, 34, 10, 13, 9}"
    by blast
  then show ?thesis
  proof cases
    case 1
    then show ?thesis using scan_plain [of "[b]" s] assms by (auto simp: quote_byte_def html_safe_def)
  next
    case 2
    then show ?thesis using assms by (auto simp: quote_byte_def html_safe_def scan_step_def take_byte_def)
  next
    case 3
    have n: "unat b < 256" using unsigned_less [of b] by simp
    have "is_hex (hex_lower (unat b div 16))" by (rule hex_lower_hex) (use n in simp)
    moreover have "is_hex (hex_lower (unat b mod 16))" by (rule hex_lower_hex) simp
    moreover have "is_hex (48 :: byte)" by (simp add: is_hex_def)
    ultimately show ?thesis using 3 scan_u_escape [OF assms] by (simp add: quote_byte_def del: scan_bytes.simps)
  qed
qed

lemma scan_quote_rune:
  assumes "scStep s = InString" and "r = None \<or> (\<exists>w. r = Some w \<and> utf8_seq w)"
  shows "scan_bytes s (quote_rune r) = Inr (s\<lparr>scToken := scToken s @ quote_rune r\<rparr>)"
proof -
  have esc: "scan_bytes s (92 # go_str t) = Inr (s\<lparr>scToken := scToken s @ 92 # go_str t\<rparr>)"
    if "t \<in> {''ufffd'', ''u2028'', ''u2029''}" for t
    using that scan_u_escape [OF assms(1)] by (auto simp: is_hex_def simp del: scan_bytes.simps)
  consider "r = None" | w where "r = Some w" "utf8_seq w" "length w = 1" | w where "r = Some w" "utf8_seq w" "length w \<noteq> 1"
    using assms(2) by blast
  then show ?thesis
  proof cases
    case 1
    then show ?thesis using esc by (simp del: go_str_simps scan_bytes.simps)
  next
    case (2 w)
    then show ?thesis using scan_quote_byte [OF assms(1)] by simp
  next
    case (3 w)
    then have "list_all (\<lambda>c. 32 \<le> c \<and> c \<noteq> 34 \<and> c \<noteq> 92) w"
      using multi_bytes [OF 3(2,3)] by (auto simp: list_all_iff word_le_nat_alt)
    then show ?thesis using 3 assms(1) scan_plain esc by (simp del: go_str_simps scan_bytes.simps)
  qed
qed

lemma scan_quote_body:
  assumes "scStep s = InString"
  shows "scan_bytes s (quote_body t) = Inr (s\<lparr>scToken := scToken s @ quote_body t\<rparr>)"
proof -
  have "scan_bytes s (concat (map quote_rune rs)) = Inr (s\<lparr>scToken := scToken s @ concat (map quote_rune rs)\<rparr>)"
    if "\<And>w. Some w \<in> set rs \<Longrightarrow> utf8_seq w" and "scStep s = InString" for rs s
    using that
  proof (induction rs arbitrary: s)
    case (Cons r rs)
    have "r = None \<or> (\<exists>w. r = Some w \<and> utf8_seq w)" using Cons.prems(1) by (cases r) auto
    from scan_quote_rune [OF Cons.prems(2) this] Cons show ?case by (simp add: scan_append)
  qed simp
  then show ?thesis unfolding quote_body_def using runes_Some assms by blast
qed

lemma scan_quote_string:
  assumes "scStep s = BeginValue \<or> scStep s = BeginString \<or> scStep s = BeginStringOrEmpty"
  shows "scan_bytes s (quote_string t) =
     Inr (emit (JString (clean_text t)) (s\<lparr>scToken := quote_body t, scStep := EndValue\<rparr>))"
proof -
  have 1: "scan_step s 34 = Inr (s\<lparr>scStep := InString, scToken := []\<rparr>)"
    using assms by (auto simp: scan_step_def begin_value_def begin_string_def begin_token_def is_space_def)
  let ?s = "s\<lparr>scStep := InString, scToken := quote_body t\<rparr>"
  have 2: "scan_bytes (s\<lparr>scStep := InString, scToken := []\<rparr>) (quote_body t) = Inr ?s"
    using scan_quote_body [of "s\<lparr>scStep := InString, scToken := []\<rparr>" t] by simp
  have "scan_step ?s 34 = Inr (emit (JString (clean_text t)) (?s\<lparr>scStep := EndValue\<rparr>))"
    using unquote_quote [of t "[]"] by (simp add: scan_step_def)
  then show ?thesis unfolding quote_string_def by (simp add: 1 2 scan_append)
qed

text \<open>Numbers.\<close>

lemma unat_digit: "m < 10 \<Longrightarrow> unat (of_nat (48 + m) :: byte) = 48 + m"
  by (simp only: unat_of_nat) simp

lemma digits_digits: "list_all is_digit (digits n)"
proof (induction n rule: digits.induct)
  case (1 n)
  have "is_digit (of_nat (48 + m))" if "m < 10" for m
    using that unat_digit [OF that] by (simp add: is_digit_def byte_nat del: of_nat_add)
  then show ?case using 1 by (subst digits.simps) auto
qed


lemma digits_value_digits: "digits_value (digits n) = n"
proof (induction n rule: digits.induct)
  case (1 n)
  have "n mod 10 < 10" by simp
  from 1 unat_digit [OF this] unat_digit [of n] show ?case
    by (subst digits.simps) (simp add: digits_value_def del: of_nat_add)
qed

lemma digits_nonempty: "digits n \<noteq> []"
  by (subst digits.simps) simp

lemma parse_digits: "parse_u32 (digits (unat w)) = Some w"
  using unsigned_less [of w] by (simp add: parse_u32_def digits_digits digits_nonempty digits_value_digits)

text \<open>The text of a number starts with a digit that is zero only for zero.\<close>

lemma digits_hd: "0 < n \<Longrightarrow> hd (digits n) \<noteq> 48"
proof (induction n rule: digits.induct)
  case (1 n)
  show ?case
  proof (cases "n < 10")
    case True
    then show ?thesis using 1(2) unat_digit [OF True] by (subst digits.simps) (auto simp del: of_nat_add)
  next
    case False
    then show ?thesis using 1 by (subst digits.simps) (simp add: digits_nonempty)
  qed
qed

lemma scan_int_digits:
  "list_all is_digit ds \<Longrightarrow> scStep s = NumInt \<Longrightarrow> scan_bytes s ds = Inr (s\<lparr>scToken := scToken s @ ds\<rparr>)"
proof (induction ds arbitrary: s)
  case (Cons d ds)
  have "scan_step s d = Inr (s\<lparr>scToken := scToken s @ [d]\<rparr>)"
    using Cons.prems by (cases s) (simp add: scan_step_def take_byte_def)
  then show ?case using Cons by simp
qed simp

lemma is_digit_begin:
  "is_digit c \<Longrightarrow> \<not> is_space c \<and> c \<noteq> 123 \<and> c \<noteq> 91 \<and> c \<noteq> 34 \<and> c \<noteq> 45 \<and> c \<noteq> 116 \<and> c \<noteq> 102 \<and> c \<noteq> 110"
  by (auto simp: is_digit_def is_space_def byte_nat)

lemma scan_digits:
  assumes "scStep s = BeginValue"
  obtains st where "scan_bytes s (digits n) = Inr (s\<lparr>scStep := st, scToken := digits n\<rparr>)" "st = NumInt \<or> st = NumZero"
proof (cases "n = 0")
  case True
  have "scan_bytes s (digits n) = Inr (s\<lparr>scStep := NumZero, scToken := digits n\<rparr>)"
    using assms True by (simp add: digits.simps scan_step_def begin_value_def begin_token_def is_space_def)
  then show ?thesis using that by blast
next
  case False
  obtain d ds where ds: "digits n = d # ds" using digits_nonempty [of n] by (cases "digits n") auto
  have d: "d \<noteq> 48" "is_digit d" "list_all is_digit ds"
    using digits_hd [of n] digits_digits [of n] False ds by simp_all
  have "scan_step s d = Inr (s\<lparr>scStep := NumInt, scToken := [d]\<rparr>)"
    using assms d is_digit_begin [OF d(2)] by (simp add: scan_step_def begin_value_def begin_token_def)
  then have "scan_bytes s (digits n) = Inr (s\<lparr>scStep := NumInt, scToken := digits n\<rparr>)"
    using scan_int_digits [OF d(3), of "s\<lparr>scStep := NumInt, scToken := [d]\<rparr>"] by (simp add: ds)
  then show ?thesis using that by blast
qed

text \<open>A value of a field and the byte after it, a comma or the closing brace.\<close>

fun field_json :: "field_value \<Rightarrow> json" where
  "field_json (FvString s) = JString (clean_text s)"
| "field_json (FvUint32 w) = JNumber (digits (unat w))"

definition struct_json :: "go_struct \<Rightarrow> (go_string \<times> json) list" where
  "struct_json fs = map (\<lambda>(n, v). (clean_text n, field_json v)) fs"

lemma scan_member_value:
  assumes "c = 44 \<or> c = 125"
  obtains tok where
    "scan_bytes \<lparr>scStep = BeginValue, scStack = [FValue ps k], scToken = tok0, scValue = None\<rparr> (marshal_value v @ [c]) =
       end_value \<lparr>scStep = EndValue, scStack = [FPair (ps @ [(k, field_json v)])], scToken = tok, scValue = None\<rparr> c"
proof (cases v)
  case (FvString t)
  show ?thesis
    by (rule that [of "quote_body t"])
      (simp add: FvString scan_append scan_quote_string emit_def scan_step_def split: sum.splits)
next
  case (FvUint32 w)
  let ?s = "\<lparr>scStep = BeginValue, scStack = [FValue ps k], scToken = tok0, scValue = None\<rparr>"
  obtain st where st: "scan_bytes ?s (digits (unat w)) = Inr (?s\<lparr>scStep := st, scToken := digits (unat w)\<rparr>)"
      "st = NumInt \<or> st = NumZero"
    by (rule scan_digits [of ?s]) simp_all
  have "\<not> is_digit c" "c \<noteq> 46" "c \<noteq> 101" "c \<noteq> 69" "\<not> is_space c"
    using assms by (auto simp: is_digit_def is_space_def)
  then have "scan_step (?s\<lparr>scStep := st, scToken := digits (unat w)\<rparr>) c =
      end_value \<lparr>scStep = EndValue, scStack = [FPair (ps @ [(k, field_json v)])], scToken = digits (unat w), scValue = None\<rparr> c"
    using st(2) assms
    by (auto simp: FvUint32 scan_step_def after_integer_def end_number_def emit_def end_value_def pop_frame_def)
  then show ?thesis
    by (intro that [of "digits (unat w)"]) (simp add: FvUint32 scan_append st(1) split: sum.splits)
qed


lemma end_value_comma:
  "end_value \<lparr>scStep = EndValue, scStack = [FPair ps], scToken = tok, scValue = None\<rparr> 44 =
     Inr \<lparr>scStep = BeginString, scStack = [FKey ps], scToken = tok, scValue = None\<rparr>"
  by (simp add: end_value_def is_space_def)

lemma end_value_brace:
  "end_value \<lparr>scStep = EndValue, scStack = [FPair ps], scToken = tok, scValue = None\<rparr> 125 =
     Inr \<lparr>scStep = EndTop, scStack = [], scToken = tok, scValue = Some (JObject ps)\<rparr>"
  by (simp add: end_value_def is_space_def pop_frame_def emit_def)

lemma scan_member:
  assumes "st = BeginString \<or> st = BeginStringOrEmpty" and "c = 44 \<or> c = 125"
  obtains tok where
    "scan_bytes \<lparr>scStep = st, scStack = [FKey ps], scToken = tok0, scValue = None\<rparr>
       (quote_string n @ 58 # marshal_value v @ [c]) =
     end_value \<lparr>scStep = EndValue, scStack = [FPair (ps @ [(clean_text n, field_json v)])], scToken = tok, scValue = None\<rparr> c"
proof -
  obtain tok where tok:
    "scan_bytes \<lparr>scStep = BeginValue, scStack = [FValue ps (clean_text n)], scToken = quote_body n, scValue = None\<rparr>
       (marshal_value v @ [c]) =
     end_value \<lparr>scStep = EndValue, scStack = [FPair (ps @ [(clean_text n, field_json v)])], scToken = tok, scValue = None\<rparr> c"
    by (rule scan_member_value [OF assms(2)])
  have "scan_step \<lparr>scStep = EndValue, scStack = [FColon ps (clean_text n)], scToken = quote_body n, scValue = None\<rparr> 58 =
      Inr \<lparr>scStep = BeginValue, scStack = [FValue ps (clean_text n)], scToken = quote_body n, scValue = None\<rparr>"
    by (simp add: scan_step_def end_value_def is_space_def)
  then show thesis
    using assms(1) tok
    by (intro that [of tok]) (auto simp: scan_append [of _ "quote_string n"] scan_quote_string emit_def)
qed

lemma scan_fields:
  assumes "fs \<noteq> []" and "st = BeginString \<or> st = BeginStringOrEmpty"
  shows "\<exists>tok. scan_bytes \<lparr>scStep = st, scStack = [FKey ps], scToken = tok0, scValue = None\<rparr> (marshal_fields fs @ [125]) =
     Inr \<lparr>scStep = EndTop, scStack = [], scToken = tok, scValue = Some (JObject (ps @ struct_json fs))\<rparr>"
  using assms
proof (induction fs arbitrary: st ps tok0 rule: marshal_fields.induct)
  case (2 n v)
  obtain tok where "scan_bytes \<lparr>scStep = st, scStack = [FKey ps], scToken = tok0, scValue = None\<rparr>
       (quote_string n @ 58 # marshal_value v @ [125]) =
     end_value \<lparr>scStep = EndValue, scStack = [FPair (ps @ [(clean_text n, field_json v)])], scToken = tok, scValue = None\<rparr> 125"
    by (rule scan_member [OF 2(2), where c = 125]) simp
  then show ?case by (auto simp: end_value_brace struct_json_def)
next
  case (3 n v f fs)
  obtain tok where tok: "scan_bytes \<lparr>scStep = st, scStack = [FKey ps], scToken = tok0, scValue = None\<rparr>
       (quote_string n @ 58 # marshal_value v @ [44]) =
     end_value \<lparr>scStep = EndValue, scStack = [FPair (ps @ [(clean_text n, field_json v)])], scToken = tok, scValue = None\<rparr> 44"
    by (rule scan_member [OF 3(3), where c = 44]) simp
  have split: "marshal_fields ((n, v) # f # fs) @ [125] =
      (quote_string n @ 58 # marshal_value v @ [44]) @ marshal_fields (f # fs) @ [125]" by simp
  show ?case unfolding split scan_append [of _ "quote_string n @ 58 # marshal_value v @ [44]"] tok
    using 3(1) [of BeginString "ps @ [(clean_text n, field_json v)]" tok]
    by (simp add: end_value_comma struct_json_def)
qed simp

lemma parse_marshal: "parse_json (marshal_struct fs) = Inr (JObject (struct_json fs))"
proof -
  let ?s = "\<lparr>scStep = BeginStringOrEmpty, scStack = [FKey []], scToken = [], scValue = None\<rparr>"
  have 1: "scan_step new_scanner 123 = Inr ?s"
    by (simp add: scan_step_def new_scanner_def begin_value_def is_space_def push_frame_def max_depth_def)
  have "\<exists>tok. scan_bytes ?s (marshal_fields fs @ [125]) =
      Inr \<lparr>scStep = EndTop, scStack = [], scToken = tok, scValue = Some (JObject (struct_json fs))\<rparr>"
  proof (cases "fs = []")
    case True
    then show ?thesis
      by (simp add: scan_step_def end_value_def is_space_def pop_frame_def emit_def struct_json_def)
  next
    case False
    then show ?thesis using scan_fields [OF False, of BeginStringOrEmpty "[]" "[]"] by simp
  qed
  then show ?thesis by (auto simp: parse_json_def marshal_struct_def 1 scan_eof_def)
qed

fun clean_value :: "field_value \<Rightarrow> field_value" where
  "clean_value (FvString s) = FvString (clean_text s)"
| "clean_value (FvUint32 w) = FvUint32 w"

fun same_kind :: "field_value \<Rightarrow> field_value \<Rightarrow> bool" where
  "same_kind (FvString _) (FvString _) = True"
| "same_kind (FvUint32 _) (FvUint32 _) = True"
| "same_kind _ _ = False"

definition same_shape :: "go_struct \<Rightarrow> go_struct \<Rightarrow> bool" where
  "same_shape fs gs \<longleftrightarrow> list_all2 (\<lambda>f g. fst f = fst g \<and> same_kind (snd f) (snd g)) fs gs"

lemma store_field: "same_kind f v \<Longrightarrow> store_value (field_json v) f = Inr (clean_value v)"
  by (cases f; cases v) (simp_all add: parse_digits)

lemma set_field_append: "n \<notin> fst ` set xs \<Longrightarrow> set_field n v (xs @ (n, x) # ys) = xs @ (n, v) # ys"
  by (induction xs) auto

lemma find_field_append: "n \<notin> fst ` set xs \<Longrightarrow> find_field n (xs @ (n, x) # ys) = Some (n, x)"
proof -
  have "find (\<lambda>f. fst f = n) (xs @ (n, x) # ys) = Some (n, x)" if "n \<notin> fst ` set xs"
    using that by (induction xs) auto
  then show "n \<notin> fst ` set xs \<Longrightarrow> ?thesis" by (simp add: find_field_def)
qed

lemma decode_fields:
  assumes "same_shape gs fs" and "list_all (valid_utf8 \<circ> fst) fs" and "distinct (map fst xs @ map fst fs)"
  shows "fold (decode_member t) (struct_json fs) (None, xs @ gs) = (None, xs @ map (map_prod id clean_value) fs)"
  using assms
proof (induction fs arbitrary: xs gs)
  case Nil
  then show ?case by (simp add: struct_json_def same_shape_def)
next
  case (Cons f fs)
  obtain n v where f: "f = (n, v)" by force
  obtain x gs' where gs: "gs = (n, x) # gs'" "same_kind x v" "same_shape gs' fs"
    using Cons.prems(1) f by (cases gs) (auto simp: same_shape_def)
  have n: "n \<notin> fst ` set xs" "clean_text n = n" using Cons.prems(2,3) f clean_valid by auto
  have "decode_member t (n, field_json v) (None, xs @ gs) = (None, (xs @ [(n, clean_value v)]) @ gs')"
    using n by (simp add: decode_member_def gs find_field_append store_field set_field_append)
  then show ?case
    using Cons.IH [OF gs(3), of "xs @ [(n, clean_value v)]"] Cons.prems(2,3) n f by (simp add: struct_json_def)
qed

text \<open>
  What \<^verbatim>\<open>json.Marshal\<close> writes of a struct, \<^verbatim>\<open>json.Unmarshal\<close> reads into any struct of the same type:
  the numbers as they were, the text with every byte that is not UTF-8 replaced.
\<close>

theorem unmarshal_marshal:
  assumes "same_shape gs fs" and "list_all (valid_utf8 \<circ> fst) fs" and "distinct (map fst fs)"
  shows "unmarshal_struct pkg t gs (marshal_struct fs) = Inr (map (map_prod id clean_value) fs)"
  using decode_fields [OF assms(1,2), of "[]" t] assms(3)
  by (simp add: unmarshal_struct_def parse_marshal decode_struct_def)

end
