(* ===== verification/Registry.thy ===== *)
theory Registry
  imports GoJson "HOL-Library.Sublist"
begin

text \<open>
  The registry of services (\<^verbatim>\<open>registry/types.go\<close>) on etcd (\<^verbatim>\<open>registry/etcd/registry.go\<close>).

  \<^item> The client of etcd is a parameter, the record \<open>etcd\<close>: functions on a state \<open>'d\<close> of the cluster that may
    fail. What the code relies on is in \<open>etcd_laws\<close>; \<open>content\<close> there is the map of keys to values that the
    cluster holds. A value is the JSON of an instance, as \<open>GoJson\<close> writes and reads it.
  \<^item> The context of a call and its lease are in the outcome of the call: it may fail, and then nothing
    is said of its effect.
  \<^item> \<open>watch_step\<close> is the goroutine of a subscription, with its two channels.
\<close>

section \<open>Data\<close>

record service_instance =
  siName :: go_string
  siAddress :: go_string
  siWeight :: u32
  siGroup :: go_string

datatype event_type = EventTypeUnknown | EventTypeAdd | EventTypeDelete

record reg_event =
  evType :: event_type
  evInstance :: service_instance
  evError :: "go_error option"

definition zero_instance :: service_instance where
  "zero_instance = \<lparr>siName = [], siAddress = [], siWeight = 0, siGroup = []\<rparr>"

datatype mvcc_type = MvccPUT | MvccDELETE

fun typesMap :: "mvcc_type \<Rightarrow> event_type" where
  "typesMap MvccPUT = EventTypeAdd"
| "typesMap MvccDELETE = EventTypeDelete"

section \<open>The client of etcd\<close>

record 'd etcd =
  etPut :: "go_string \<Rightarrow> bytes \<Rightarrow> 'd \<Rightarrow> go_error option \<times> 'd"
  etDelete :: "go_string \<Rightarrow> 'd \<Rightarrow> go_error option \<times> 'd"
  etGetPrefix :: "go_string \<Rightarrow> 'd \<Rightarrow> go_error + (go_string \<times> bytes) list"

text \<open>
  The documented behaviour: a put or delete that succeeds changes that key alone, and a read by prefix
  that succeeds has every key with that prefix, once.
\<close>

definition etcd_laws :: "'d etcd \<Rightarrow> ('d \<Rightarrow> go_string \<rightharpoonup> bytes) \<Rightarrow> bool" where
  "etcd_laws e content \<longleftrightarrow>
     (\<forall>k v d d'. etPut e k v d = (None, d') \<longrightarrow> content d' = (content d)(k \<mapsto> v))
     \<and> (\<forall>k d d'. etDelete e k d = (None, d') \<longrightarrow> content d' = (content d)(k := None))
     \<and> (\<forall>p d kvs. etGetPrefix e p d = Inr kvs \<longrightarrow>
          distinct (map fst kvs) \<and> map_of kvs = (\<lambda>k. if prefix p k then content d k else None))"

section \<open>Operations\<close>

definition root_key :: go_string where
  "root_key = go_str ''/emicro/''"

definition instanceKey :: "service_instance \<Rightarrow> go_string" where
  "instanceKey ins = root_key @ siName ins @ [47] @ siAddress ins"

definition serviceKey :: "go_string \<Rightarrow> go_string" where
  "serviceKey name = root_key @ name"

text \<open>An instance as JSON, its fields in the order of the struct.\<close>

definition instance_fields :: "service_instance \<Rightarrow> go_struct" where
  "instance_fields i =
     [(go_str ''Name'', FvString (siName i)), (go_str ''Address'', FvString (siAddress i)),
      (go_str ''Weight'', FvUint32 (siWeight i)), (go_str ''Group'', FvString (siGroup i))]"

fun fields_instance :: "go_struct \<Rightarrow> service_instance" where
  "fields_instance [(_, FvString n), (_, FvString a), (_, FvUint32 w), (_, FvString g)] =
     \<lparr>siName = n, siAddress = a, siWeight = w, siGroup = g\<rparr>"
| "fields_instance _ = zero_instance"

definition marshal_instance :: "service_instance \<Rightarrow> go_error + bytes" where
  "marshal_instance i = Inr (marshal_struct (instance_fields i))"

definition unmarshal_instance :: "bytes \<Rightarrow> go_error + service_instance" where
  "unmarshal_instance bs =
     map_sum id fields_instance
       (unmarshal_struct (go_str ''registry'') (go_str ''ServiceInstance'') (instance_fields zero_instance) bs)"

text \<open>An instance whose text is UTF-8, which JSON gives back as it is.\<close>

definition plain_instance :: "service_instance \<Rightarrow> bool" where
  "plain_instance i \<longleftrightarrow> valid_utf8 (siName i) \<and> valid_utf8 (siAddress i) \<and> valid_utf8 (siGroup i)"

lemma unmarshal_marshal_instance:
  assumes "marshal_instance i = Inr v"
  shows "unmarshal_instance v =
     Inr \<lparr>siName = clean_text (siName i), siAddress = clean_text (siAddress i), siWeight = siWeight i,
          siGroup = clean_text (siGroup i)\<rparr>"
proof -
  have "unmarshal_struct (go_str ''registry'') (go_str ''ServiceInstance'') (instance_fields zero_instance) v =
      Inr (map (map_prod id clean_value) (instance_fields i))"
    using assms unmarshal_marshal [of "instance_fields zero_instance" "instance_fields i"]
    by (simp add: marshal_instance_def same_shape_def instance_fields_def)
  then show ?thesis by (simp add: unmarshal_instance_def instance_fields_def)
qed

lemma plain_roundtrip: "plain_instance i \<Longrightarrow> marshal_instance i = Inr v \<Longrightarrow> unmarshal_instance v = Inr i"
  by (simp add: unmarshal_marshal_instance plain_instance_def clean_valid)

lemma unmarshal_instance_empty: "unmarshal_instance [] = Inl (TextError (go_str ''unexpected end of JSON input''))"
  by (simp add: unmarshal_instance_def unmarshal_empty)

definition Register :: "'d etcd \<Rightarrow> service_instance \<Rightarrow> 'd \<Rightarrow> go_error option \<times> 'd" where
  "Register e ins d =
     (case marshal_instance ins of
        Inl err \<Rightarrow> (Some err, d)
      | Inr val \<Rightarrow> etPut e (instanceKey ins) val d)"

definition Unregister :: "'d etcd \<Rightarrow> service_instance \<Rightarrow> 'd \<Rightarrow> go_error option \<times> 'd" where
  "Unregister e ins d = etDelete e (instanceKey ins) d"

fun unmarshal_all :: "(go_string \<times> bytes) list \<Rightarrow> go_error + service_instance list" where
  "unmarshal_all [] = Inr []"
| "unmarshal_all ((k, val) # kvs) =
     (case unmarshal_instance val of
        Inl err \<Rightarrow> Inl err
      | Inr si \<Rightarrow> (case unmarshal_all kvs of Inl err \<Rightarrow> Inl err | Inr res \<Rightarrow> Inr (si # res)))"

definition ListServices :: "'d etcd \<Rightarrow> go_string \<Rightarrow> 'd \<Rightarrow> go_error + service_instance list" where
  "ListServices e name d =
     (case etGetPrefix e (serviceKey name) d of
        Inl err \<Rightarrow> Inl err
      | Inr kvs \<Rightarrow> unmarshal_all kvs)"

section \<open>Subscriptions\<close>

text \<open>
  A response of the watch: \<open>wrErr\<close> is what \<^verbatim>\<open>Err()\<close> returns. Receiving from a closed channel gives
  the zero response.
\<close>

record watch_response =
  wrErr :: "go_error option"
  wrCanceled :: bool
  wrEvents :: "(mvcc_type \<times> bytes) list"

definition zero_response :: watch_response where
  "zero_response = \<lparr>wrErr = None, wrCanceled = False, wrEvents = []\<rparr>"

definition to_event :: "mvcc_type \<times> bytes \<Rightarrow> reg_event" where
  "to_event ev =
     (case unmarshal_instance (snd ev) of
        Inl err \<Rightarrow> \<lparr>evType = EventTypeUnknown, evInstance = zero_instance, evError = Some err\<rparr>
      | Inr ins \<Rightarrow> \<lparr>evType = typesMap (fst ev), evInstance = ins, evError = None\<rparr>)"

datatype watch_pc = Selecting | Sending "(mvcc_type \<times> bytes) list" | WatchEnded

record watcher =
  wtQueue :: "watch_response list"
  wtQueueClosed :: bool
  wtDone :: bool
  wtPc :: watch_pc
  wtReceived :: "reg_event list"
  wtClosed :: bool

definition on_response :: "watch_response \<Rightarrow> watch_pc" where
  "on_response r =
     (if wrErr r \<noteq> None then Selecting else if wrCanceled r then WatchEnded else Sending (wrEvents r))"

datatype watch_event =
    EtcdSends watch_response
  | EtcdCloses
  | Cancelled
  | Handles watch_response
  | NextEvent
  | Delivers reg_event
  | GivesUp
  | Ends

text \<open>
  The environment may send on the channel of the watch until it closes it, and may cancel the context;
  an event goes over when the subscriber receives it.
\<close>

inductive watch_step :: "watcher \<Rightarrow> watch_event \<Rightarrow> watcher \<Rightarrow> bool" where
  ws_sends: "\<not> wtQueueClosed w \<Longrightarrow> watch_step w (EtcdSends r) (w\<lparr>wtQueue := wtQueue w @ [r]\<rparr>)"
| ws_closes: "\<not> wtQueueClosed w \<Longrightarrow> watch_step w EtcdCloses (w\<lparr>wtQueueClosed := True\<rparr>)"
| ws_cancel: "watch_step w Cancelled (w\<lparr>wtDone := True\<rparr>)"
| ws_handle: "wtPc w = Selecting \<Longrightarrow> wtQueue w = r # rs \<Longrightarrow>
    watch_step w (Handles r) (w\<lparr>wtQueue := rs, wtPc := on_response r\<rparr>)"
| ws_handle_closed: "wtPc w = Selecting \<Longrightarrow> wtQueue w = [] \<Longrightarrow> wtQueueClosed w \<Longrightarrow>
    watch_step w (Handles zero_response) (w\<lparr>wtPc := on_response zero_response\<rparr>)"
| ws_next: "wtPc w = Sending [] \<Longrightarrow> watch_step w NextEvent (w\<lparr>wtPc := Selecting\<rparr>)"
| ws_deliver: "wtPc w = Sending (ev # evs) \<Longrightarrow>
    watch_step w (Delivers (to_event ev))
      (w\<lparr>wtPc := Sending evs, wtReceived := wtReceived w @ [to_event ev]\<rparr>)"
| ws_give_up: "wtPc w = Sending (ev # evs) \<Longrightarrow> wtDone w \<Longrightarrow>
    watch_step w GivesUp (w\<lparr>wtPc := WatchEnded, wtClosed := True\<rparr>)"
| ws_end: "wtPc w = Selecting \<Longrightarrow> wtDone w \<Longrightarrow> watch_step w Ends (w\<lparr>wtPc := WatchEnded\<rparr>)"

inductive_cases watch_stepE: "watch_step w l w'"

definition new_watcher :: watcher where
  "new_watcher = \<lparr>wtQueue = [], wtQueueClosed = False, wtDone = False, wtPc = Selecting, wtReceived = [], wtClosed = False\<rparr>"

abbreviation watch_trace :: "watch_event list \<Rightarrow> watcher \<Rightarrow> bool" where
  "watch_trace \<equiv> trace (watch_step) new_watcher"

lemmas watch_snoc = trace_snoc [where step = watch_step]

text \<open>
  The registry object: the watches whose cancel functions it keeps, by their index. \<^verbatim>\<open>Close\<close> runs these,
  then closes the session.
\<close>

record registry_object =
  roWatchers :: "watcher list"
  roCancels :: "nat list"

definition Subscribe :: "registry_object \<Rightarrow> nat \<times> registry_object" where
  "Subscribe r =
     (length (roWatchers r),
      r\<lparr>roWatchers := roWatchers r @ [new_watcher], roCancels := roCancels r @ [length (roWatchers r)]\<rparr>)"

definition cancel_watch :: "nat \<Rightarrow> watcher list \<Rightarrow> watcher list" where
  "cancel_watch i ws = (if i < length ws then ws[i := (ws ! i)\<lparr>wtDone := True\<rparr>] else ws)"

definition Close_registry :: "registry_object \<Rightarrow> ('d \<Rightarrow> go_error option \<times> 'd) \<Rightarrow> 'd \<Rightarrow> go_error option \<times> registry_object \<times> 'd" where
  "Close_registry r sess_close d =
     (case sess_close d of (err, d) \<Rightarrow>
        (err, r\<lparr>roWatchers := fold cancel_watch (roCancels r) (roWatchers r), roCancels := []\<rparr>, d))"

definition NewRegistry :: "go_error + unit \<Rightarrow> go_error + registry_object" where
  "NewRegistry new_session =
     (case new_session of Inl err \<Rightarrow> Inl err | Inr _ \<Rightarrow> Inr \<lparr>roWatchers = [], roCancels = []\<rparr>)"

section \<open>What a registry promises\<close>

text \<open>The abstract registry: instances by their keys.\<close>

type_synonym entries = "go_string \<rightharpoonup> service_instance"

datatype reg_op = OpRegister service_instance | OpUnregister service_instance

fun op_instance :: "reg_op \<Rightarrow> service_instance" where
  "op_instance (OpRegister i) = i"
| "op_instance (OpUnregister i) = i"

fun apply_op :: "reg_op \<Rightarrow> entries \<Rightarrow> entries" where
  "apply_op (OpRegister i) m = m(instanceKey i \<mapsto> i)"
| "apply_op (OpUnregister i) m = m(instanceKey i := None)"

definition registered :: "reg_op list \<Rightarrow> entries" where
  "registered ops = fold apply_op ops Map.empty"

definition listed :: "entries \<Rightarrow> go_string \<Rightarrow> service_instance set" where
  "listed m name = {i. \<exists>k. prefix (serviceKey name) k \<and> m k = Some i}"

text \<open>
  The operations of \<^verbatim>\<open>Registry\<close> refine those of the map \<open>reg_map\<close> reads from the state, in an
  environment \<open>env\<close> that keeps its laws.
\<close>

locale service_registry =
  fixes env_ok :: "'e \<Rightarrow> bool"
    and register :: "'e \<Rightarrow> service_instance \<Rightarrow> 'd \<Rightarrow> go_error option \<times> 'd"
    and unregister :: "'e \<Rightarrow> service_instance \<Rightarrow> 'd \<Rightarrow> go_error option \<times> 'd"
    and list_services :: "'e \<Rightarrow> go_string \<Rightarrow> 'd \<Rightarrow> go_error + service_instance list"
    and reg_map :: "'e \<Rightarrow> 'd \<Rightarrow> entries"
  assumes register_map: "env_ok env \<Longrightarrow> plain_instance i \<Longrightarrow> register env i d = (None, d') \<Longrightarrow>
      reg_map env d' = apply_op (OpRegister i) (reg_map env d)"
    and unregister_map: "env_ok env \<Longrightarrow> unregister env i d = (None, d') \<Longrightarrow>
      reg_map env d' = apply_op (OpUnregister i) (reg_map env d)"
    and list_map: "env_ok env \<Longrightarrow> list_services env name d = Inr is \<Longrightarrow> set is = listed (reg_map env d) name"
begin

fun run_op :: "'e \<Rightarrow> reg_op \<Rightarrow> 'd \<Rightarrow> go_error option \<times> 'd" where
  "run_op env (OpRegister i) d = register env i d"
| "run_op env (OpUnregister i) d = unregister env i d"

text \<open>The state after operations that all succeed, else \<open>None\<close>.\<close>

fun run_ops :: "'e \<Rightarrow> reg_op list \<Rightarrow> 'd \<Rightarrow> 'd option" where
  "run_ops env [] d = Some d"
| "run_ops env (op # ops) d =
     (case run_op env op d of (None, d) \<Rightarrow> run_ops env ops d | (Some err, d) \<Rightarrow> None)"

lemma run_op_map:
  "env_ok env \<Longrightarrow> plain_instance (op_instance op) \<Longrightarrow> run_op env op d = (None, d') \<Longrightarrow>
     reg_map env d' = apply_op op (reg_map env d)"
  using register_map unregister_map by (cases op) auto

lemma run_ops_map:
  "env_ok env \<Longrightarrow> list_all (plain_instance \<circ> op_instance) ops \<Longrightarrow> run_ops env ops d = Some d' \<Longrightarrow>
     reg_map env d' = fold apply_op ops (reg_map env d)"
proof (induction ops arbitrary: d)
  case (Cons op ops)
  obtain d1 where d1: "run_op env op d = (None, d1)" "run_ops env ops d1 = Some d'"
    using Cons.prems(3) by (auto split: option.splits prod.splits)
  then have "reg_map env d1 = apply_op op (reg_map env d)"
    using run_op_map Cons.prems(1,2) by simp
  then show ?case using Cons.IH [of d1] Cons.prems d1 by simp
qed simp

lemma lists_registered:
  assumes "env_ok env" and "reg_map env d = Map.empty" and "list_all (plain_instance \<circ> op_instance) ops"
    and "run_ops env ops d = Some d'" and "list_services env name d' = Inr is"
  shows "set is = listed (registered ops) name"
  using run_ops_map [OF assms(1,3,4)] list_map [OF assms(1,5)] assms(2) by (simp add: registered_def)

end

section \<open>etcd keeps the promise\<close>

type_synonym 'd etcd_env = "'d etcd \<times> ('d \<Rightarrow> go_string \<rightharpoonup> bytes)"

definition etcd_ok :: "'d etcd_env \<Rightarrow> bool" where
  "etcd_ok env \<longleftrightarrow> etcd_laws (fst env) (snd env)"

definition read_instance :: "bytes \<Rightarrow> service_instance option" where
  "read_instance v = (case unmarshal_instance v of Inl err \<Rightarrow> None | Inr i \<Rightarrow> Some i)"

definition etcd_map :: "'d etcd_env \<Rightarrow> 'd \<Rightarrow> entries" where
  "etcd_map env d k = (case snd env d k of None \<Rightarrow> None | Some v \<Rightarrow> read_instance v)"

lemma unmarshal_all_read: "unmarshal_all kvs = Inr is \<Longrightarrow> map (read_instance \<circ> snd) kvs = map Some is"
  by (induction kvs arbitrary: "is" rule: unmarshal_all.induct) (auto simp: read_instance_def split: sum.splits)

lemma unmarshal_all_set:
  assumes "unmarshal_all kvs = Inr is"
  shows "i \<in> set is \<longleftrightarrow> (\<exists>k v. (k, v) \<in> set kvs \<and> read_instance v = Some i)"
proof -
  have "i \<in> set is \<longleftrightarrow> Some i \<in> set (map Some is)" by auto
  also have "\<dots> \<longleftrightarrow> Some i \<in> set (map (read_instance \<circ> snd) kvs)"
    by (simp only: unmarshal_all_read [OF assms])
  finally show ?thesis by (force simp: comp_def)
qed

lemma etcd_map_iff: "etcd_map env d k = Some i \<longleftrightarrow> (\<exists>v. snd env d k = Some v \<and> read_instance v = Some i)"
  by (simp add: etcd_map_def split: option.splits)

lemma etcd_list_map:
  assumes "etcd_ok env" and "ListServices (fst env) name d = Inr is"
  shows "set is = listed (etcd_map env d) name"
proof -
  obtain kvs where kvs: "etGetPrefix (fst env) (serviceKey name) d = Inr kvs" "unmarshal_all kvs = Inr is"
    using assms(2) by (auto simp: ListServices_def split: sum.splits)
  have m: "distinct (map fst kvs)" "map_of kvs = (\<lambda>k. if prefix (serviceKey name) k then snd env d k else None)"
    using assms(1) kvs(1) by (auto simp: etcd_ok_def etcd_laws_def)
  have "(k, v) \<in> set kvs \<longleftrightarrow> prefix (serviceKey name) k \<and> snd env d k = Some v" for k v
    using map_of_eq_Some_iff [OF m(1), of k v] m(2) by (auto split: if_splits)
  then show ?thesis
    unfolding listed_def etcd_map_iff set_eq_iff mem_Collect_eq unmarshal_all_set [OF kvs(2)] by blast
qed

lemma etcd_register_map:
  assumes "etcd_ok env" and "plain_instance i" and "Register (fst env) i d = (None, d')"
  shows "etcd_map env d' = apply_op (OpRegister i) (etcd_map env d)"
proof -
  obtain v where v: "marshal_instance i = Inr v" "etPut (fst env) (instanceKey i) v d = (None, d')"
    using assms(3) by (auto simp: Register_def split: sum.splits)
  then have "snd env d' = (snd env d)(instanceKey i \<mapsto> v)" "unmarshal_instance v = Inr i"
    using assms(1) plain_roundtrip [OF assms(2)] by (auto simp: etcd_ok_def etcd_laws_def)
  then show ?thesis by (auto simp: etcd_map_def read_instance_def fun_eq_iff)
qed

lemma etcd_unregister_map:
  assumes "etcd_ok env" and "Unregister (fst env) i d = (None, d')"
  shows "etcd_map env d' = apply_op (OpUnregister i) (etcd_map env d)"
proof -
  have "snd env d' = (snd env d)(instanceKey i := None)"
    using assms by (auto simp: etcd_ok_def etcd_laws_def Unregister_def)
  then show ?thesis by (auto simp: etcd_map_def fun_eq_iff)
qed

interpretation etcd: service_registry etcd_ok "\<lambda>env. Register (fst env)" "\<lambda>env. Unregister (fst env)"
  "\<lambda>env. ListServices (fst env)" etcd_map
  by unfold_locales (assumption | rule etcd_register_map etcd_unregister_map etcd_list_map)+

section \<open>A cluster in memory\<close>

text \<open>
  An instance of the parameters, on which the properties are shown to apply: the keys and their values
  as an association list.
\<close>

definition memory_etcd :: "(go_string \<times> bytes) list etcd" where
  "memory_etcd =
     \<lparr>etPut = (\<lambda>k v d. (None, (k, v) # d)),
      etDelete = (\<lambda>k d. (None, filter (\<lambda>x. fst x \<noteq> k) d)),
      etGetPrefix = (\<lambda>p d. Inr (map (\<lambda>k. (k, the (map_of d k))) (filter (prefix p) (remdups (map fst d)))))\<rparr>"

lemma map_of_delete: "map_of (filter (\<lambda>x. fst x \<noteq> k) d) = (map_of d)(k := None)"
  by (induction d) auto

lemma map_of_keys:
  "map_of (map (\<lambda>k. (k, the (map_of d k))) (filter (prefix p) (remdups (map fst d)))) =
     (\<lambda>k. if prefix p k then map_of d k else None)"
proof
  fix k
  show "map_of (map (\<lambda>k. (k, the (map_of d k))) (filter (prefix p) (remdups (map fst d)))) k =
      (if prefix p k then map_of d k else None)"
    using map_of_eq_None_iff [of d k]
    by (cases "map_of d k") (auto simp: map_of_map_restrict restrict_map_def comp_def)
qed

lemma memory_etcd_laws: "etcd_laws memory_etcd map_of"
  unfolding etcd_laws_def
  by (simp add: memory_etcd_def map_of_delete map_of_keys distinct_map inj_on_def comp_def)

lemma memory_register:
  "Register memory_etcd i d = (None, (instanceKey i, marshal_struct (instance_fields i)) # d)"
  by (simp add: Register_def memory_etcd_def marshal_instance_def)

lemma memory_lists:
  assumes "plain_instance i" and "prefix name (siName i)"
  shows "ListServices memory_etcd name [(instanceKey i, marshal_struct (instance_fields i))] = Inr [i]"
  using assms plain_roundtrip [OF assms(1), of "marshal_struct (instance_fields i)"]
  by (auto simp: ListServices_def memory_etcd_def marshal_instance_def serviceKey_def instanceKey_def prefix_def)

section \<open>Runs of the registry\<close>

fun reg_run :: "'d etcd \<Rightarrow> reg_op list \<Rightarrow> 'd \<Rightarrow> 'd option" where
  "reg_run e [] d = Some d"
| "reg_run e (op # ops) d =
     (case (case op of OpRegister i \<Rightarrow> Register e i d | OpUnregister i \<Rightarrow> Unregister e i d) of
        (None, d) \<Rightarrow> reg_run e ops d
      | (Some err, d) \<Rightarrow> None)"

lemma reg_run_etcd: "reg_run (fst env) ops d = etcd.run_ops env ops d"
proof (induction ops arbitrary: d)
  case (Cons op ops)
  then show ?case by (cases op) (auto split: prod.splits option.splits)
qed simp

lemma reg_run_lists:
  assumes "etcd_laws e content" and "content d = Map.empty"
    and "list_all (plain_instance \<circ> op_instance) ops" and "reg_run e ops d = Some d'"
    and "ListServices e name d' = Inr is"
  shows "set is = listed (registered ops) name"
proof (rule etcd.lists_registered [of "(e, content)" d ops d' name "is"])
  show "etcd_map (e, content) d = Map.empty" using assms(2) by (simp add: etcd_map_def fun_eq_iff)
  show "etcd.run_ops (e, content) ops d = Some d'" using assms(4) reg_run_etcd [of "(e, content)"] by simp
qed (use assms in \<open>simp_all add: etcd_ok_def\<close>)

definition own_keys :: "entries \<Rightarrow> bool" where
  "own_keys m \<longleftrightarrow> (\<forall>k i. m k = Some i \<longrightarrow> k = instanceKey i)"

lemma own_keysD: "own_keys m \<Longrightarrow> m k = Some i \<Longrightarrow> k = instanceKey i"
  unfolding own_keys_def by (elim allE impE)

lemma own_keysI: "(\<And>k i. m k = Some i \<Longrightarrow> k = instanceKey i) \<Longrightarrow> own_keys m"
  unfolding own_keys_def by (intro allI impI)

lemma own_keys_apply:
  assumes "own_keys m"
  shows "own_keys (apply_op op m)"
proof (rule own_keysI)
  fix k i
  assume k: "apply_op op m k = Some i"
  show "k = instanceKey i"
  proof (cases op)
    case (OpRegister j)
    show ?thesis
    proof (cases "k = instanceKey j")
      case True
      then have "j = i" using k OpRegister by simp
      with True show ?thesis by (simp only:)
    next
      case False
      then have "m k = Some i" using k OpRegister by simp
      then show ?thesis by (rule own_keysD [OF assms])
    qed
  next
    case (OpUnregister j)
    then have "m k = Some i" using k by (simp split: if_splits)
    then show ?thesis by (rule own_keysD [OF assms])
  qed
qed

lemma own_keys_registered: "own_keys (registered ops)"
proof -
  have "own_keys m \<Longrightarrow> own_keys (fold apply_op ops m)" for m
    by (induction ops arbitrary: m) (simp_all add: own_keys_apply)
  moreover have "own_keys Map.empty" by (simp add: own_keys_def)
  ultimately show ?thesis unfolding registered_def .
qed

lemma listed_registered:
  "registered ops (instanceKey i) = Some i \<Longrightarrow>
     i \<in> listed (registered ops) name \<longleftrightarrow> prefix (serviceKey name) (instanceKey i)"
  using own_keys_registered [of ops] unfolding listed_def own_keys_def mem_Collect_eq by blast

lemma prefix_of_name:
  assumes "47 \<notin> set name"
  shows "prefix name (n @ 47 # a) \<longleftrightarrow> prefix name n"
proof
  assume "prefix name (n @ 47 # a)"
  then consider "prefix name n" | us where "name = n @ us" "prefix us (47 # a)"
    by (auto simp: prefix_append)
  then show "prefix name n"
  proof cases
    case (2 us)
    then have "us = []" using assms by (cases us) auto
    with 2 show ?thesis by simp
  qed
qed (auto simp: prefix_def)

section \<open>Properties\<close>

text \<open>
  C14: The registry on etcd refines a map: after any sequence of registrations and unregistrations that
  succeed on an empty cluster, a lookup that succeeds returns exactly the instances that are still
  registered under a key with the prefix it asks for.
\<close>

theorem registry_lists_registered:
  assumes "etcd_laws e content" and "content d = Map.empty"
    and "list_all (plain_instance \<circ> op_instance) ops" and "reg_run e ops d = Some d'"
    and "ListServices e name d' = Inr is"
  shows "set is = listed (registered ops) name"
  using assms by (rule reg_run_lists)

theorem registry_lists_registered_witness:
  "\<exists>is. ListServices memory_etcd [97] [(instanceKey \<lparr>siName = [97], siAddress = [49], siWeight = 3, siGroup = []\<rparr>,
        marshal_struct (instance_fields \<lparr>siName = [97], siAddress = [49], siWeight = 3, siGroup = []\<rparr>))] = Inr is
     \<and> set is = listed (registered [OpRegister \<lparr>siName = [97], siAddress = [49], siWeight = 3, siGroup = []\<rparr>]) [97]"
proof -
  let ?i = "\<lparr>siName = [97], siAddress = [49], siWeight = 3, siGroup = []\<rparr>"
  let ?d = "[(instanceKey ?i, marshal_struct (instance_fields ?i))]"
  have "list_all (plain_instance \<circ> op_instance) [OpRegister ?i]"
    by (simp add: plain_instance_def)
  moreover have "reg_run memory_etcd [OpRegister ?i] [] = Some ?d"
    by (simp add: memory_register)
  moreover have "ListServices memory_etcd [97] ?d = Inr [?i]"
    by (rule memory_lists) (simp_all add: plain_instance_def)
  ultimately show ?thesis
    using registry_lists_registered [OF memory_etcd_laws, of "[]" "[OpRegister ?i]" ?d "[97]" "[?i]"]
    by auto
qed

text \<open>
  A lookup asks etcd for a prefix without a closing slash, so that it returns a registered instance
  for every prefix of the name of its service: a lookup of \<^verbatim>\<open>user\<close> also returns the instances of
  \<^verbatim>\<open>user-admin\<close>.
\<close>

theorem listed_for_every_prefix:
  assumes "etcd_laws e content" and "content d = Map.empty"
    and "list_all (plain_instance \<circ> op_instance) ops" and "reg_run e ops d = Some d'"
    and "ListServices e name d' = Inr is"
    and "registered ops (instanceKey i) = Some i" and "47 \<notin> set name"
  shows "i \<in> set is \<longleftrightarrow> prefix name (siName i)"
proof -
  have "i \<in> set is \<longleftrightarrow> i \<in> listed (registered ops) name" using reg_run_lists [OF assms(1-5)] by simp
  also have "\<dots> \<longleftrightarrow> prefix (serviceKey name) (instanceKey i)" by (rule listed_registered [OF assms(6)])
  also have "\<dots> \<longleftrightarrow> prefix name (siName i)"
    using prefix_of_name [OF assms(7), of "siName i" "siAddress i"]
    by (simp add: serviceKey_def instanceKey_def root_key_def)
  finally show ?thesis .
qed

theorem listed_for_every_prefix_witness:
  "ListServices memory_etcd [97] [(instanceKey \<lparr>siName = [97, 98], siAddress = [49], siWeight = 3, siGroup = []\<rparr>,
        marshal_struct (instance_fields \<lparr>siName = [97, 98], siAddress = [49], siWeight = 3, siGroup = []\<rparr>))] = Inr [\<lparr>siName = [97, 98], siAddress = [49], siWeight = 3, siGroup = []\<rparr>]
     \<and> \<lparr>siName = [97, 98], siAddress = [49], siWeight = 3, siGroup = []\<rparr>
         \<in> set [\<lparr>siName = [97, 98], siAddress = [49], siWeight = (3 :: u32), siGroup = []\<rparr>]"
proof -
  let ?i = "\<lparr>siName = [97, 98], siAddress = [49], siWeight = 3, siGroup = []\<rparr>"
  let ?d = "[(instanceKey ?i, marshal_struct (instance_fields ?i))]"
  have "list_all (plain_instance \<circ> op_instance) [OpRegister ?i]"
    by (simp add: plain_instance_def)
  moreover have "reg_run memory_etcd [OpRegister ?i] [] = Some ?d"
    by (simp add: memory_register)
  moreover have "ListServices memory_etcd [97] ?d = Inr [?i]"
    by (rule memory_lists) (simp_all add: plain_instance_def)
  moreover have "registered [OpRegister ?i] (instanceKey ?i) = Some ?i" by (simp add: registered_def)
  moreover have "(47 :: byte) \<notin> set [97]" by simp
  ultimately show ?thesis
    using listed_for_every_prefix [OF memory_etcd_laws, of "[]" "[OpRegister ?i]" ?d "[97]" "[?i]" ?i]
    by simp
qed

section \<open>Subscriptions\<close>

fun sent_of :: "watch_event \<Rightarrow> watch_response list" where
  "sent_of (EtcdSends r) = [r]"
| "sent_of _ = []"

fun handled_of :: "watch_event \<Rightarrow> watch_response list" where
  "handled_of (Handles r) = [r]"
| "handled_of _ = []"

text \<open>The events of the responses that report no error.\<close>

definition good_events :: "watch_response list \<Rightarrow> (mvcc_type \<times> bytes) list" where
  "good_events rs = concat (map (\<lambda>r. if wrErr r = None \<and> \<not> wrCanceled r then wrEvents r else []) rs)"

lemma good_events_simps [simp]:
  "good_events [] = []"
  "good_events (r # rs) = (if wrErr r = None \<and> \<not> wrCanceled r then wrEvents r else []) @ good_events rs"
  "good_events (rs @ rs') = good_events rs @ good_events rs'"
  by (simp_all add: good_events_def)

definition sent_events :: "watch_event list \<Rightarrow> (mvcc_type \<times> bytes) list" where
  "sent_events ls = good_events (concat (map sent_of ls))"

text \<open>What has been taken off the channel and what waits on it is what was sent.\<close>

fun pending :: "watch_pc \<Rightarrow> (mvcc_type \<times> bytes) list" where
  "pending (Sending evs) = evs"
| "pending _ = []"

definition watch_inv :: "watch_event list \<Rightarrow> watcher \<Rightarrow> bool" where
  "watch_inv ls w \<longleftrightarrow>
     (\<exists>lost. sent_events ls = lost @ pending (wtPc w) @ good_events (wtQueue w)
       \<and> (if wtPc w = WatchEnded then prefix (wtReceived w) (map (to_event) lost)
          else wtReceived w = map (to_event) lost))"

lemma sent_events_snoc: "sent_events (ls @ [l]) = sent_events ls @ good_events (sent_of l)"
  by (simp add: sent_events_def)

lemma pending_on_response:
  "pending (on_response r) = (if wrErr r = None \<and> \<not> wrCanceled r then wrEvents r else [])"
  by (simp add: on_response_def)

lemma on_zero_response [simp]: "on_response zero_response = Sending []"
  by (simp add: on_response_def zero_response_def)

lemma watch_inv_step:
  assumes "watch_inv ls w" and "watch_step w l w'"
  shows "watch_inv (ls @ [l]) w'"
proof -
  obtain lost where inv: "sent_events ls = lost @ pending (wtPc w) @ good_events (wtQueue w)"
      "if wtPc w = WatchEnded then prefix (wtReceived w) (map (to_event) lost)
       else wtReceived w = map (to_event) lost"
    using assms(1) by (auto simp: watch_inv_def)
  show ?thesis
    using assms(2)
  proof cases
    case (ws_handle r rs)
    then show ?thesis using inv
      by (auto simp: watch_inv_def sent_events_snoc pending_on_response split: if_splits)
  next
    case (ws_deliver ev evs)
    then show ?thesis using inv
      by (auto simp: watch_inv_def sent_events_snoc intro!: exI [of _ "lost @ [ev]"])
  next
    case (ws_give_up ev evs)
    then show ?thesis using inv
      by (auto simp: watch_inv_def sent_events_snoc intro!: exI [of _ "lost @ ev # evs"])
  qed (use inv in \<open>auto simp: watch_inv_def sent_events_snoc intro!: exI [of _ lost]\<close>)
qed

lemma watch_trace_inv: "watch_trace ls w \<Longrightarrow> watch_inv ls w"
proof (induction rule: trace.induct)
  case trace_Nil
  then show ?case by (simp add: watch_inv_def new_watcher_def sent_events_def)
qed (rule watch_inv_step)

lemma received_prefix: "watch_trace ls w \<Longrightarrow> prefix (wtReceived w) (map (to_event) (sent_events ls))"
  using watch_trace_inv [of ls w] by (auto simp: watch_inv_def prefix_def split: if_splits)

text \<open>The channel of the subscriber is closed only by a goroutine that ends while it is sending.\<close>

lemma watch_closed: "watch_trace ls w \<Longrightarrow> wtClosed w \<longleftrightarrow> GivesUp \<in> set ls"
proof (induction rule: trace.induct)
  case (trace_snoc ls w l w')
  from trace_snoc.hyps(2) trace_snoc.IH show ?case by (cases; simp)
qed (simp add: new_watcher_def)

lemma watch_ended: "watch_trace ls w \<Longrightarrow> GivesUp \<in> set ls \<or> Ends \<in> set ls \<Longrightarrow> wtPc w = WatchEnded"
proof (induction rule: trace.induct)
  case (trace_snoc ls w l w')
  from trace_snoc.hyps(2) trace_snoc.IH trace_snoc.prems show ?case by (cases; auto)
qed simp

lemma watch_one_end: "watch_trace ls w \<Longrightarrow> \<not> (GivesUp \<in> set ls \<and> Ends \<in> set ls)"
proof (induction rule: trace.induct)
  case (trace_snoc ls w l w')
  from trace_snoc.hyps(2) trace_snoc.IH watch_ended [OF trace_snoc.hyps(1)] show ?case by (cases; auto)
qed simp

section \<open>Properties of subscriptions\<close>

text \<open>
  C27: What a subscriber has received is at every moment a prefix of the events that etcd sent in
  responses without an error, in their order and each once; while the goroutine waits for the next
  response, nothing but what is still on the channel of the watch is missing.
\<close>

theorem subscription_in_order:
  assumes "watch_trace ls w"
  shows "prefix (wtReceived w) (map (to_event) (sent_events ls))
    \<and> (wtPc w = Selecting \<longrightarrow>
         wtReceived w @ map (to_event) (good_events (wtQueue w)) = map (to_event) (sent_events ls))"
  using received_prefix [OF assms] watch_trace_inv [OF assms] by (auto simp: watch_inv_def)

text \<open>
  A subscriber is never told of a deletion: the event of a deleted key has no value, so that the
  instance in it does not parse, and what is delivered is an event of unknown type with an error.
\<close>

theorem deletion_never_reported:
  assumes "watch_trace ls w"
    and "list_all (\<lambda>(ty, val). ty = MvccDELETE \<longrightarrow> val = []) (sent_events ls)"
  shows "EventTypeDelete \<notin> evType ` set (wtReceived w)"
proof -
  have "evType (to_event (ty, val)) \<noteq> EventTypeDelete" if "(ty, val) \<in> set (sent_events ls)" for ty val
    using that assms(2) unmarshal_instance_empty
    by (cases ty) (auto simp: to_event_def list_all_iff split: sum.splits)
  then show ?thesis using received_prefix [OF assms(1)] by (fastforce dest: set_mono_prefix)
qed

text \<open>
  A subscription that is cancelled while its goroutine waits ends without closing the channel of
  its subscriber, who gets nothing more and is not told; it is closed only when the goroutine was
  sending.
\<close>

theorem idle_cancel_leaves_channel_open:
  assumes "watch_trace ls w" and "Ends \<in> set ls"
  shows "wtPc w = WatchEnded \<and> \<not> wtClosed w \<and> (\<forall>l w'. watch_step w l w' \<longrightarrow> wtReceived w' = wtReceived w)"
proof -
  have ended: "wtPc w = WatchEnded" using watch_ended [OF assms(1)] assms(2) by simp
  moreover have "\<not> wtClosed w" using watch_closed [OF assms(1)] watch_one_end [OF assms(1)] assms(2) by simp
  moreover have "wtReceived w' = wtReceived w" if "watch_step w l w'" for l w'
    using that ended by cases simp_all
  ultimately show ?thesis by blast
qed

section \<open>Runs of a subscription\<close>

definition deletion :: watch_response where
  "deletion = \<lparr>wrErr = None, wrCanceled = False, wrEvents = [(MvccDELETE, [])]\<rparr>"

abbreviation deletion_run :: "watch_event list" where
  "deletion_run \<equiv> [EtcdSends deletion, Handles deletion, Delivers (to_event (MvccDELETE, [])), NextEvent]"

abbreviation told_watcher :: watcher where
  "told_watcher \<equiv> new_watcher\<lparr>wtReceived := [to_event (MvccDELETE, [])]\<rparr>"

lemma deletion_trace: "watch_trace deletion_run told_watcher"
proof -
  let ?w = "new_watcher\<lparr>wtQueue := [deletion]\<rparr>"
  have "watch_trace [EtcdSends deletion] ?w"
    using watch_snoc [OF trace_Nil ws_sends [of new_watcher]] by (simp add: new_watcher_def)
  then have "watch_trace [EtcdSends deletion, Handles deletion]
      (new_watcher\<lparr>wtPc := Sending [(MvccDELETE, [])]\<rparr>)"
    using watch_snoc [OF _ ws_handle [of ?w deletion "[]"]]
    by (fastforce simp: new_watcher_def on_response_def deletion_def)
  from watch_snoc [OF this ws_deliver]
  have "watch_trace [EtcdSends deletion, Handles deletion, Delivers (to_event (MvccDELETE, []))]
      (told_watcher\<lparr>wtPc := Sending []\<rparr>)"
    by (simp add: new_watcher_def)
  from watch_snoc [OF this ws_next] show ?thesis by (simp add: new_watcher_def)
qed

theorem subscription_in_order_witness:
  "wtReceived told_watcher @ map (to_event) (good_events (wtQueue told_watcher))
     = map (to_event) (sent_events deletion_run)"
  using subscription_in_order [OF deletion_trace] by (simp add: new_watcher_def)

theorem deletion_never_reported_witness:
  "EventTypeDelete \<notin> evType ` set (wtReceived told_watcher)"
  using deletion_never_reported [OF deletion_trace]
  by (simp add: sent_events_def deletion_def)

theorem idle_cancel_leaves_channel_open_witness:
  "\<not> wtClosed (told_watcher\<lparr>wtDone := True, wtPc := WatchEnded\<rparr>)"
proof -
  have "watch_trace (deletion_run @ [Cancelled]) (told_watcher\<lparr>wtDone := True\<rparr>)"
    by (rule watch_snoc [OF deletion_trace ws_cancel])
  from watch_snoc [OF this ws_end]
  have "watch_trace ((deletion_run @ [Cancelled]) @ [Ends]) (told_watcher\<lparr>wtDone := True, wtPc := WatchEnded\<rparr>)"
    by (simp add: new_watcher_def)
  then show ?thesis using idle_cancel_leaves_channel_open by fastforce
qed

end
