(* ===== verification/WeightRoundRobin.thy ===== *)
theory WeightRoundRobin
  imports Balancer
begin

text \<open>
  The weighted round-robin picker (\<^verbatim>\<open>loadbalance/roundrobin/weight_picker.go\<close>). Its weights are
  \<^verbatim>\<open>uint32\<close> words. \<^verbatim>\<open>Pick\<close> and the \<^verbatim>\<open>Done\<close> it returns are modelled as whole operations, one after the
  other; the code locks each connection, not the picker.

  \<open>swrr_pick\<close> is the algorithm it follows, over words or integers: add every weight to its current weight,
  take the first greatest, subtract the sum of the weights from it. The words agree with it as long as no
  current weight is below zero when the weights are compared.
\<close>

section \<open>Data\<close>

record 'c wrr_conn =
  wrrName :: go_string
  wrrWeight :: u32
  wrrCurrent :: u32
  wrrEfficient :: u32
  wrrSubConn :: 'c
  wrrAddress :: address

record 'c wrr_picker =
  wrrConnections :: "'c wrr_conn list"
  wrrFilter :: filter_fn

text \<open>The type assertion on the attribute \<^verbatim>\<open>"weight"\<close> panics when there is none or it has another type.\<close>

definition weight_of :: "address \<Rightarrow> u32 go" where
  "weight_of a =
     (case addrAttrs a weight_key of Some (AttrUint32 w) \<Rightarrow> Inr w | _ \<Rightarrow> Inl TypeAssertion)"

fun wrr_connections :: "('c \<times> address) list \<Rightarrow> 'c wrr_conn list go" where
  "wrr_connections [] = Inr []"
| "wrr_connections ((c, a) # ready) =
     go_bind (weight_of a) (\<lambda>w.
     go_bind (wrr_connections ready) (\<lambda>cons.
       Inr (\<lparr>wrrName = addrAddr a, wrrWeight = w, wrrCurrent = w, wrrEfficient = w,
             wrrSubConn = c, wrrAddress = a\<rparr> # cons)))"

definition wrr_Build :: "filter_fn option \<Rightarrow> ('c \<times> address) list \<Rightarrow> 'c wrr_picker go" where
  "wrr_Build f ready =
     go_bind (wrr_connections ready) (\<lambda>cons. Inr \<lparr>wrrConnections = cons, wrrFilter = built_filter f\<rparr>)"

section \<open>Pick and Done\<close>

text \<open>
  The loop: \<open>i\<close> is the index of the next connection, \<open>tot\<close> the sum so far, \<open>best\<close> the index and the
  current weight of \<^verbatim>\<open>maxWeightConn\<close>. It returns the connections with their new current weights.
\<close>

fun wrr_scan ::
  "filter_fn \<Rightarrow> pick_info \<Rightarrow> nat \<Rightarrow> u32 \<Rightarrow> (nat \<times> u32) option \<Rightarrow> 'c wrr_conn list \<Rightarrow>
     'c wrr_conn list \<times> u32 \<times> (nat \<times> u32) option" where
  "wrr_scan f info i tot best [] = ([], tot, best)"
| "wrr_scan f info i tot best (con # cons) =
     (if \<not> f info (wrrAddress con)
      then (case wrr_scan f info (Suc i) tot best cons of (cs, r) \<Rightarrow> (con # cs, r))
      else (let con = con\<lparr>wrrCurrent := wrrCurrent con + wrrEfficient con\<rparr>;
                best = (if best = None \<or> snd (the best) < wrrCurrent con then Some (i, wrrCurrent con) else best)
            in case wrr_scan f info (Suc i) (tot + wrrEfficient con) best cons of
                 (cs, r) \<Rightarrow> (con # cs, r)))"

definition wrr_Pick :: "'c wrr_picker \<Rightarrow> pick_info \<Rightarrow> (go_error + nat) \<times> 'c wrr_picker" where
  "wrr_Pick p info =
     (if length (wrrConnections p) = 0 then (Inl ErrNoSubConnAvailable, p)
      else (case wrr_scan (wrrFilter p) info 0 0 None (wrrConnections p) of
              (cs, tot, None) \<Rightarrow> (Inl ErrNoSubConnAvailable, p\<lparr>wrrConnections := cs\<rparr>)
            | (cs, tot, Some (m, cur)) \<Rightarrow>
                (Inr m, p\<lparr>wrrConnections :=
                   cs[m := (cs ! m)\<lparr>wrrCurrent := wrrCurrent (cs ! m) - tot\<rparr>]\<rparr>)))"

text \<open>The callback of a pick: \<open>failed\<close> says that \<^verbatim>\<open>info.Err\<close> is not nil.\<close>

definition wrr_done_conn :: "bool \<Rightarrow> 'c wrr_conn \<Rightarrow> 'c wrr_conn" where
  "wrr_done_conn failed con =
     (if failed \<and> wrrWeight con = 0 then con
      else if \<not> failed \<and> wrrEfficient con = 4294967295 then con
      else if failed then con\<lparr>wrrEfficient := wrrEfficient con - 1\<rparr>
      else con\<lparr>wrrEfficient := wrrEfficient con + 1\<rparr>)"

definition wrr_Done :: "nat \<Rightarrow> bool \<Rightarrow> 'c wrr_picker \<Rightarrow> 'c wrr_picker" where
  "wrr_Done m failed p =
     p\<lparr>wrrConnections := (wrrConnections p)[m := wrr_done_conn failed (wrrConnections p ! m)]\<rparr>"


section \<open>The first greatest element\<close>

fun pick_max :: "(nat \<times> 'a :: linorder) option \<Rightarrow> (nat \<times> 'a) list \<Rightarrow> (nat \<times> 'a) option" where
  "pick_max b [] = b"
| "pick_max b ((i, v) # xs) = pick_max (if b = None \<or> snd (the b) < v then Some (i, v) else b) xs"

lemma pick_max_Some:
  "pick_max (Some (i, v)) xs = Some (j, u) \<Longrightarrow>
     ((j, u) = (i, v) \<or> (j, u) \<in> set xs) \<and> v \<le> u \<and> (\<forall>x \<in> set xs. snd x \<le> u)"
  by (induction "Some (i, v)" xs arbitrary: i v rule: pick_max.induct) (fastforce split: if_splits)+

lemma pick_max_total: "\<exists>m. pick_max (Some b) xs = Some m"
  by (induction "Some b" xs arbitrary: b rule: pick_max.induct) auto

lemma pick_max_None: "pick_max None xs = None \<longleftrightarrow> xs = []"
proof (cases xs)
  case (Cons x ys)
  then show ?thesis using pick_max_total [of x ys] by (cases x) auto
qed simp

lemma pick_max_in: "pick_max None xs = Some (j, u) \<Longrightarrow> (j, u) \<in> set xs \<and> (\<forall>x \<in> set xs. snd x \<le> u)"
  by (cases xs) (fastforce dest: pick_max_Some)+

text \<open>A monotone change of the values does not change the choice.\<close>

lemma pick_max_map:
  assumes "\<And>x y. x \<in> insert (snd b) (snd ` set xs) \<Longrightarrow> y \<in> insert (snd b) (snd ` set xs) \<Longrightarrow> g x < g y \<longleftrightarrow> x < y"
  shows "pick_max (Some (fst b, g (snd b))) (map (\<lambda>(i, v). (i, g v)) xs) =
           map_option (\<lambda>(i, v). (i, g v)) (pick_max (Some b) xs)"
  using assms
proof (induction xs arbitrary: b)
  case Nil
  show ?case by (simp add: case_prod_beta)
next
  case (Cons x xs)
  obtain i v where x: "x = (i, v)" by (cases x)
  have lt: "g (snd b) < g v \<longleftrightarrow> snd b < v" using Cons.prems [of "snd b" v] by (simp add: x)
  show ?case
  proof (cases "snd b < v")
    case True
    have "pick_max (Some (fst (i, v), g (snd (i, v)))) (map (\<lambda>(i, v). (i, g v)) xs) =
        map_option (\<lambda>(i, v). (i, g v)) (pick_max (Some (i, v)) xs)"
      by (rule Cons.IH, rule Cons.prems) (auto simp: x)
    with True lt show ?thesis by (cases b) (simp add: x)
  next
    case False
    have "pick_max (Some (fst b, g (snd b))) (map (\<lambda>(i, v). (i, g v)) xs) =
        map_option (\<lambda>(i, v). (i, g v)) (pick_max (Some b) xs)"
      by (rule Cons.IH, rule Cons.prems) (auto simp: x)
    with False lt show ?thesis by (cases b) (simp add: x)
  qed
qed

lemma pick_max_first:
  assumes "\<forall>x \<in> set xs. snd x \<le> v"
  shows "pick_max (Some (i, v)) xs = Some (i, v)"
  using assms by (induction xs) (auto simp: not_less)

section \<open>The loop in closed form\<close>

definition raised :: "filter_fn \<Rightarrow> pick_info \<Rightarrow> 'c wrr_conn \<Rightarrow> 'c wrr_conn" where
  "raised f info con =
     (if f info (wrrAddress con) then con\<lparr>wrrCurrent := wrrCurrent con + wrrEfficient con\<rparr> else con)"

definition share :: "filter_fn \<Rightarrow> pick_info \<Rightarrow> 'c wrr_conn \<Rightarrow> u32" where
  "share f info con = (if f info (wrrAddress con) then wrrEfficient con else 0)"

fun offers :: "filter_fn \<Rightarrow> pick_info \<Rightarrow> nat \<Rightarrow> 'c wrr_conn list \<Rightarrow> (nat \<times> u32) list" where
  "offers f info i [] = []"
| "offers f info i (con # cons) =
     (if f info (wrrAddress con) then [(i, wrrCurrent con + wrrEfficient con)] else [])
       @ offers f info (Suc i) cons"

lemma wrr_scan_eq:
  "wrr_scan f info i tot best cons =
     (map (raised f info) cons, tot + sum_list (map (share f info) cons), pick_max best (offers f info i cons))"
  by (induction cons arbitrary: i tot best)
    (simp_all add: raised_def share_def Let_def add.assoc)

lemma offers_eq:
  "offers f info n cons =
     map (\<lambda>i. (n + i, wrrCurrent (cons ! i) + wrrEfficient (cons ! i))) (candidates f info (map wrrAddress cons))"
proof (induction cons arbitrary: n rule: list.induct)
  case (Cons con cons)
  show ?case using Cons.IH [of "Suc n"] by (simp add: candidates_Cons)
qed (simp add: candidates_def)

definition wrr_usable :: "'c wrr_picker \<Rightarrow> pick_info \<Rightarrow> nat list" where
  "wrr_usable p info = candidates (wrrFilter p) info (map wrrAddress (wrrConnections p))"

lemma wrr_Pick_cases:
  obtains (none) "wrr_usable p info = []" "fst (wrr_Pick p info) = Inl ErrNoSubConnAvailable"
      "wrrConnections (snd (wrr_Pick p info)) = map (raised (wrrFilter p) info) (wrrConnections p)"
  | (some) m cs where "m \<in> set (wrr_usable p info)" "m < length (wrrConnections p)"
      "cs = map (raised (wrrFilter p) info) (wrrConnections p)" 
      "wrr_Pick p info = (Inr m, p\<lparr>wrrConnections :=
         cs[m := (cs ! m)\<lparr>wrrCurrent := wrrCurrent (cs ! m)
            - sum_list (map (share (wrrFilter p) info) (wrrConnections p))\<rparr>]\<rparr>)"
proof (cases "pick_max None (offers (wrrFilter p) info 0 (wrrConnections p))")
  case None
  then have "wrr_usable p info = []" by (simp add: pick_max_None offers_eq wrr_usable_def)
  with None show thesis by (intro none) (simp_all add: wrr_Pick_def wrr_scan_eq)
next
  case (Some mc)
  obtain m cur where mc: "mc = (m, cur)" by (cases mc)
  have "m \<in> set (wrr_usable p info)"
    using pick_max_in [OF Some [unfolded mc]] by (auto simp: offers_eq wrr_usable_def)
  moreover from this have "m < length (wrrConnections p)" by (simp add: wrr_usable_def set_candidates)
  moreover from this have "wrrConnections p \<noteq> []" by auto
  moreover from this have "wrr_Pick p info = (Inr m, p\<lparr>wrrConnections :=
      (map (raised (wrrFilter p) info) (wrrConnections p))
        [m := (map (raised (wrrFilter p) info) (wrrConnections p) ! m)\<lparr>wrrCurrent :=
           wrrCurrent (map (raised (wrrFilter p) info) (wrrConnections p) ! m)
           - sum_list (map (share (wrrFilter p) info) (wrrConnections p))\<rparr>]\<rparr>)"
    using Some by (simp add: wrr_Pick_def wrr_scan_eq mc del: nth_map)
  ultimately show thesis by (intro some [OF _ _ refl])
qed

lemma raised_simps [simp]:
  "wrrAddress (raised f info con) = wrrAddress con" "wrrEfficient (raised f info con) = wrrEfficient con"
  "wrrWeight (raised f info con) = wrrWeight con"
  "wrrCurrent (raised f info con) = wrrCurrent con + share f info con"
  by (simp_all add: raised_def share_def)

lemma wrr_Pick_filter [simp]: "wrrFilter (snd (wrr_Pick p info)) = wrrFilter p"
  by (auto simp: wrr_Pick_def split: prod.split option.split)

lemma map_update_same: "m < length xs \<Longrightarrow> f y = f (xs ! m) \<Longrightarrow> map f (xs[m := y]) = map f xs"
  by (simp add: map_update list_update_same_conv)

lemma wrr_Pick_frame [simp]:
  "map wrrAddress (wrrConnections (snd (wrr_Pick p info))) = map wrrAddress (wrrConnections p)"
  "map wrrEfficient (wrrConnections (snd (wrr_Pick p info))) = map wrrEfficient (wrrConnections p)"
  by (cases rule: wrr_Pick_cases [of p info], simp_all add: comp_def map_update list_update_same_conv)+

interpretation wrr: picker wrr_Pick "\<lambda>p info. set (wrr_usable p info)" "\<lambda>_. True" "\<lambda>_. True"
proof
  fix p :: "'a wrr_picker" and info
  show "set (wrr_usable p info) = {} \<Longrightarrow> fst (wrr_Pick p info) = Inl ErrNoSubConnAvailable"
    by (cases rule: wrr_Pick_cases [of p info]) simp_all
  show "set (wrr_usable p info) \<noteq> {} \<Longrightarrow> \<exists>k \<in> set (wrr_usable p info). fst (wrr_Pick p info) = Inr k"
    by (cases rule: wrr_Pick_cases [of p info]) auto
  show "(\<lambda>info'. set (wrr_usable (snd (wrr_Pick p info)) info')) = (\<lambda>info. set (wrr_usable p info))"
    by (simp add: wrr_usable_def)
qed simp

section \<open>The sum of the current weights\<close>

lemma sum_list_update_word:
  "m < length xs \<Longrightarrow> sum_list (xs[m := (x :: u32)]) = sum_list xs - xs ! m + x"
proof (induction xs arbitrary: m)
  case (Cons y xs)
  then show ?case by (cases m) simp_all
qed simp

definition current_sum :: "'c wrr_picker \<Rightarrow> u32" where
  "current_sum p = sum_list (map wrrCurrent (wrrConnections p))"

lemma wrr_Pick_sum: "current_sum (snd (wrr_Pick p info)) = current_sum p"
proof (cases rule: wrr_Pick_cases [of p info])
  case none
  then have "share (wrrFilter p) info con = 0" if "con \<in> set (wrrConnections p)" for con
    using that by (auto simp: wrr_usable_def candidates_Nil_iff share_def)
  then show ?thesis by (simp add: none current_sum_def comp_def cong: map_cong)
next
  case (some m cs)
  then have "sum_list (map wrrCurrent cs) = current_sum p + sum_list (map (share (wrrFilter p) info) (wrrConnections p))"
    by (simp add: current_sum_def comp_def sum_list_addf)
  with some show ?thesis by (simp add: current_sum_def map_update sum_list_update_word)
qed

lemma wrr_Done_sum: "m < length (wrrConnections p) \<Longrightarrow> current_sum (wrr_Done m failed p) = current_sum p"
  by (simp add: current_sum_def wrr_Done_def map_update_same wrr_done_conn_def)

section \<open>The smooth weighted round robin\<close>

definition swrr_pick :: "'a :: {linorder, comm_ring_1} list \<Rightarrow> 'a list \<Rightarrow> nat \<times> 'a list" where
  "swrr_pick effs curs =
     (let cs = map2 (+) curs effs; m = fst (the (pick_max None (enumerate 0 cs)))
      in (m, cs[m := cs ! m - sum_list effs]))"

fun swrr_picks :: "'a :: {linorder, comm_ring_1} list \<Rightarrow> 'a list \<Rightarrow> nat \<Rightarrow> nat list" where
  "swrr_picks effs curs 0 = []"
| "swrr_picks effs curs (Suc n) =
     (case swrr_pick effs curs of (m, cs) \<Rightarrow> m # swrr_picks effs cs n)"

definition passes_all :: "'c wrr_picker \<Rightarrow> pick_info \<Rightarrow> bool" where
  "passes_all p info \<longleftrightarrow> list_all (\<lambda>con. wrrFilter p info (wrrAddress con)) (wrrConnections p)"

abbreviation effs_of :: "'c wrr_picker \<Rightarrow> u32 list" where
  "effs_of p \<equiv> map wrrEfficient (wrrConnections p)"

abbreviation curs_of :: "'c wrr_picker \<Rightarrow> u32 list" where
  "curs_of p \<equiv> map wrrCurrent (wrrConnections p)"

lemma offers_all:
  "list_all (\<lambda>con. f info (wrrAddress con)) cons \<Longrightarrow>
     offers f info n cons = enumerate n (map2 (+) (map wrrCurrent cons) (map wrrEfficient cons))"
  by (induction cons arbitrary: n) simp_all

lemma raised_all:
  "list_all (\<lambda>con. f info (wrrAddress con)) cons \<Longrightarrow>
     map wrrCurrent (map (raised f info) cons) = map2 (+) (map wrrCurrent cons) (map wrrEfficient cons)"
  "list_all (\<lambda>con. f info (wrrAddress con)) cons \<Longrightarrow>
     map (share f info) cons = map wrrEfficient cons"
  by (induction cons) (simp_all add: share_def)

lemma wrr_Pick_all:
  assumes "passes_all p info" and "wrrConnections p \<noteq> []"
  shows "fst (wrr_Pick p info) = Inr (fst (swrr_pick (effs_of p) (curs_of p)))"
    and "curs_of (snd (wrr_Pick p info)) = snd (swrr_pick (effs_of p) (curs_of p))"
proof -
  let ?cs = "map (raised (wrrFilter p) info) (wrrConnections p)"
  let ?xs = "map2 (+) (curs_of p) (effs_of p)"
  note all = assms(1) [unfolded passes_all_def]
  have "enumerate 0 ?xs \<noteq> []" using assms(2) by (cases "wrrConnections p") simp_all
  then obtain m v where m: "pick_max None (enumerate 0 ?xs) = Some (m, v)"
    using pick_max_None by (metis not_None_eq surj_pair)
  then have "m < length (wrrConnections p)"
    using pick_max_in [OF m] by (auto simp: in_set_enumerate_eq)
  moreover have "wrr_Pick p info = (Inr m, p\<lparr>wrrConnections := ?cs[m := (?cs ! m)\<lparr>wrrCurrent :=
      wrrCurrent (?cs ! m) - sum_list (effs_of p)\<rparr>]\<rparr>)"
    using assms(2) m by (simp add: wrr_Pick_def wrr_scan_eq offers_all [of "wrrFilter p" info, OF all]
        raised_all(2) [of "wrrFilter p" info, OF all] del: nth_map map_map)
  moreover have "map wrrCurrent ?cs = ?xs" by (rule raised_all(1) [of "wrrFilter p" info, OF all])
  moreover from this calculation(1) have "wrrCurrent (?cs ! m) = ?xs ! m"
    by (metis length_map nth_map)
  ultimately show "fst (wrr_Pick p info) = Inr (fst (swrr_pick (effs_of p) (curs_of p)))"
    and "curs_of (snd (wrr_Pick p info)) = snd (swrr_pick (effs_of p) (curs_of p))"
    by (simp_all add: swrr_pick_def m Let_def map_update del: nth_map map_map)
qed

lemma passes_all_alt:
  "passes_all p info \<longleftrightarrow> list_all (wrrFilter p info) (map wrrAddress (wrrConnections p))"
  by (simp add: passes_all_def list_all_iff)

lemma passes_all_pick [simp]: "passes_all (snd (wrr_Pick p info)) info' = passes_all p info'"
  by (simp add: passes_all_alt)

lemma wrr_picks_all:
  assumes "list_all (passes_all p) infos" and "wrrConnections p \<noteq> []"
  shows "wrr.picks p infos = map Inr (swrr_picks (effs_of p) (curs_of p) (length infos))"
  using assms
proof (induction infos arbitrary: p)
  case (Cons info infos)
  let ?q = "snd (wrr_Pick p info)"
  have "wrrConnections ?q \<noteq> []"
    using Cons.prems(2) wrr_Pick_frame(2) [of p info] by (metis map_is_Nil_conv)
  moreover have "list_all (passes_all ?q) infos" using Cons.prems(1) by (simp add: list_all_iff)
  ultimately show ?case
    using Cons.IH [of ?q] Cons.prems wrr_Pick_all [of p info] by (simp add: case_prod_beta)
qed simp

section \<open>Refinement by the integers\<close>

fun swrr_fits :: "int list \<Rightarrow> int list \<Rightarrow> nat \<Rightarrow> bool" where
  "swrr_fits effs curs 0 = True"
| "swrr_fits effs curs (Suc n) =
     (list_all (\<lambda>x. 0 \<le> x \<and> x < 2 ^ 32) (map2 (+) curs effs) \<and> swrr_fits effs (snd (swrr_pick effs curs)) n)"

lemma word_of_int_less:
  assumes "0 \<le> x" "x < 2 ^ 32" "0 \<le> y" "y < 2 ^ 32"
  shows "(word_of_int x :: u32) < word_of_int y \<longleftrightarrow> x < y"
  using assms by (simp add: word_less_def uint_word_of_int)

lemma enumerate_map: "enumerate n (map g xs) = map (\<lambda>(i, v). (i, g v)) (enumerate n xs)"
  by (induction xs arbitrary: n) simp_all

lemma pick_max_words:
  assumes "list_all (\<lambda>x. 0 \<le> x \<and> x < 2 ^ 32) xs"
  shows "pick_max None (enumerate 0 (map (word_of_int :: int \<Rightarrow> u32) xs)) =
           map_option (\<lambda>(i, v). (i, word_of_int v)) (pick_max None (enumerate 0 xs))"
proof (cases xs)
  case (Cons x ys)
  have "snd ` set (enumerate 1 ys) = set ys"
    by (metis list.set_map map_snd_enumerate)
  then have range: "0 \<le> v \<and> v < 2 ^ 32" if "v \<in> insert x (snd ` set (enumerate 1 ys))" for v
    using that assms by (auto simp: Cons list_all_iff)
  have "pick_max (Some (fst (0, x), word_of_int (snd (0 :: nat, x)))) (map (\<lambda>(i, v). (i, word_of_int v :: u32)) (enumerate 1 ys)) =
      map_option (\<lambda>(i, v). (i, word_of_int v)) (pick_max (Some (0, x)) (enumerate 1 ys))"
    by (rule pick_max_map [where b = "(0, x)" and g = word_of_int and xs = "enumerate 1 ys"])
      (use range word_of_int_less in auto)
  then show ?thesis by (simp add: Cons enumerate_map)
qed simp

lemma map2_words:
  "map2 (+) (map (word_of_int :: int \<Rightarrow> u32) xs) (map word_of_int ys) = map word_of_int (map2 (+) xs ys)"
  by (induction xs ys rule: list_induct2') simp_all

lemma sum_words: "sum_list (map (word_of_int :: int \<Rightarrow> u32) xs) = word_of_int (sum_list xs)"
  by (induction xs) simp_all

lemma swrr_pick_words:
  assumes "list_all (\<lambda>x. 0 \<le> x \<and> x < 2 ^ 32) (map2 (+) curs effs)" and "curs \<noteq> []" and "effs \<noteq> []"
  shows "swrr_pick (map (word_of_int :: int \<Rightarrow> u32) effs) (map word_of_int curs) =
           (fst (swrr_pick effs curs), map word_of_int (snd (swrr_pick effs curs)))"
proof -
  let ?xs = "map2 (+) curs effs"
  have "enumerate 0 ?xs \<noteq> []" using assms(2,3) by (cases curs; cases effs) simp_all
  then obtain m v where m: "pick_max None (enumerate 0 ?xs) = Some (m, v)"
    using pick_max_None by (metis not_None_eq surj_pair)
  then have "m < length ?xs" using pick_max_in [OF m] by (auto simp: in_set_enumerate_eq)
  then show ?thesis
    by (simp add: swrr_pick_def map2_words pick_max_words [OF assms(1)] m sum_words map_update Let_def
        del: map_map map_zip_map map_zip_map2 length_map length_zip)
qed

lemma swrr_pick_length: "length (snd (swrr_pick effs curs)) = min (length curs) (length effs)"
  by (simp add: swrr_pick_def Let_def)

lemma swrr_picks_words:
  "swrr_fits effs curs n \<Longrightarrow> length curs = length effs \<Longrightarrow> effs \<noteq> [] \<Longrightarrow>
     swrr_picks (map (word_of_int :: int \<Rightarrow> u32) effs) (map word_of_int curs) n = swrr_picks effs curs n"
proof (induction n arbitrary: curs)
  case (Suc n)
  then have "curs \<noteq> []" by auto
  then show ?case
    using Suc.IH [of "snd (swrr_pick effs curs)"] Suc.prems swrr_pick_words [of curs effs]
    by (simp add: case_prod_beta swrr_pick_length)
qed simp

text \<open>The code on the integers that its words stand for.\<close>

definition int_effs :: "'c wrr_picker \<Rightarrow> int list" where
  "int_effs p = map (uint \<circ> wrrEfficient) (wrrConnections p)"

definition int_curs :: "'c wrr_picker \<Rightarrow> int list" where
  "int_curs p = map (uint \<circ> wrrCurrent) (wrrConnections p)"

lemma int_words: "map (word_of_int :: int \<Rightarrow> u32) (int_effs p) = effs_of p" "map (word_of_int :: int \<Rightarrow> u32) (int_curs p) = curs_of p"
  by (simp_all add: int_effs_def int_curs_def)

lemma wrr_picks_ints:
  assumes "list_all (passes_all p) infos" and "wrrConnections p \<noteq> []"
    and "swrr_fits (int_effs p) (int_curs p) (length infos)"
  shows "wrr.picks p infos = map Inr (swrr_picks (int_effs p) (int_curs p) (length infos))"
proof -
  have "length (int_curs p) = length (int_effs p)" "int_effs p \<noteq> []"
    using assms(2) by (simp_all add: int_effs_def int_curs_def)
  then have "swrr_picks (effs_of p) (curs_of p) (length infos) = swrr_picks (int_effs p) (int_curs p) (length infos)"
    using swrr_picks_words [OF assms(3), unfolded int_words] by blast
  then show ?thesis using wrr_picks_all [OF assms(1,2)] by simp
qed

section \<open>Two connections\<close>

lemma swrr_pick_two:
  "swrr_pick [a, b] [x, y :: int] =
     (if x + a < y + b then (1, [x + a, y + b - (a + b)]) else (0, [x + a - (a + b), y + b]))"
  by (simp add: swrr_pick_def)

lemma swrr_two_counts:
  assumes "x + y = a + b" and "0 \<le> x" "0 \<le> y" "0 \<le> a" "0 \<le> b"
  shows "int (count_list (swrr_picks [a, b] [x, y] n) 0) + int (count_list (swrr_picks [a, b] [x, y] n) 1) = int n
    \<and> (a + b) * int (count_list (swrr_picks [a, b] [x, y] n) 0) \<le> x + int n * a
    \<and> (a + b) * int (count_list (swrr_picks [a, b] [x, y] n) 1) \<le> y + int n * b
    \<and> (a + b < 2 ^ 31 \<longrightarrow> swrr_fits [a, b] [x, y] n)"
  using assms
proof (induction n arbitrary: x y)
  case (Suc n)
  show ?case
  proof (cases "x + a < y + b")
    case True
    then show ?thesis using Suc.IH [of "x + a" "y + b - (a + b)"] Suc.prems
      by (simp add: swrr_pick_two algebra_simps)
  next
    case False
    then show ?thesis using Suc.IH [of "x + a - (a + b)" "y + b"] Suc.prems
      by (simp add: swrr_pick_two algebra_simps)
  qed
qed simp

lemma count_bound:
  fixes W a m c :: int
  assumes "W * c \<le> a + m * W * a" and "a < W" and "0 \<le> a"
  shows "c \<le> m * a"
proof -
  have "W * c < W * (m * a + 1)" using assms by (simp add: algebra_simps)
  then show ?thesis using assms by (simp add: mult_less_cancel_left)
qed

lemma swrr_two_fair:
  fixes a b :: int
  assumes "0 \<le> a" "0 \<le> b" and "int n = m * (a + b)" and "0 \<le> m"
  shows "int (count_list (swrr_picks [a, b] [a, b] n) 0) = m * a
    \<and> int (count_list (swrr_picks [a, b] [a, b] n) 1) = m * b"
proof -
  define c0 c1 where c: "c0 = int (count_list (swrr_picks [a, b] [a, b] n) 0)"
    "c1 = int (count_list (swrr_picks [a, b] [a, b] n) 1)"
  have sum: "c0 + c1 = m * (a + b)" and "0 \<le> c0" "0 \<le> c1"
    and b0: "(a + b) * c0 \<le> a + m * (a + b) * a" and b1: "(a + b) * c1 \<le> b + m * (a + b) * b"
    using swrr_two_counts [of a b a b n] assms by (simp_all add: c)
  have "c0 \<le> m * a"
  proof (cases "b = 0")
    case False
    then show ?thesis using count_bound [OF b0] assms by simp
  qed (use sum \<open>0 \<le> c1\<close> in simp)
  moreover have "c1 \<le> m * b"
  proof (cases "a = 0")
    case False
    then show ?thesis using count_bound [OF b1] assms by simp
  qed (use sum \<open>0 \<le> c0\<close> in simp)
  ultimately show ?thesis using sum by (simp add: c algebra_simps)
qed

section \<open>Equal weights\<close>

text \<open>The current weights of \<open>n\<close> connections of weight \<open>w\<close> after \<open>k\<close> picks of the first one.\<close>

definition equal_curs :: "nat \<Rightarrow> nat \<Rightarrow> nat \<Rightarrow> u32 list" where
  "equal_curs n w k =
     word_of_int (int w - int (k * (n - 1) * w)) # replicate (n - 1) (word_of_int (int ((k + 1) * w)))"

lemma map2_replicate: "map2 f (replicate n a) (replicate n b) = replicate n (f a b)"
  by (induction n) simp_all

lemma equal_raised:
  assumes "0 < n"
  shows "map2 (+) (equal_curs n w k) (replicate n (word_of_int (int w))) =
    word_of_int (2 * int w - int (k * (n - 1) * w)) # replicate (n - 1) (word_of_int (int ((k + 2) * w)))"
proof -
  obtain m where n: "n = Suc m" using assms by (cases n) simp_all
  show ?thesis by (simp add: equal_curs_def n map2_replicate algebra_simps)
qed

lemma uint_word_neg:
  assumes "0 < c" and "c < 2 ^ 32"
  shows "uint (word_of_int (- int c) :: u32) = 2 ^ 32 - int c"
proof -
  have "uint (word_of_int (- int c) :: u32) = (- int c) mod 2 ^ 32"
    by (simp only: uint_word_of_int) simp
  also have "\<dots> = 2 ^ 32 - int c" using assms by (simp add: zmod_zminus1_eq_if)
  finally show ?thesis .
qed

lemma uint_word_pos:
  assumes "c < 2 ^ 32"
  shows "uint (word_of_int (int c) :: u32) = int c"
proof -
  have "uint (word_of_int (int c) :: u32) = int c mod 2 ^ 32"
    by (simp only: uint_word_of_int) simp
  then show ?thesis using assms by simp
qed

text \<open>Below zero, the first current weight is a greater word than all the others.\<close>

lemma equal_first_greatest:
  assumes "4 \<le> n" and "0 < w" and "(k + 1) * (n * w) \<le> 2 ^ 32"
  shows "(word_of_int (int ((k + 2) * w)) :: u32) \<le> word_of_int (2 * int w - int (k * (n - 1) * w))"
proof (cases k)
  case (Suc j)
  define c where "c = k * (n - 1) * w - 2 * w"
  obtain m where n: "n = m + 4" using assms(1) le_Suc_ex by (metis add.commute)
  have f: "k * (n * w) + n * w \<le> 2 ^ 32" "3 * w \<le> k * (n - 1) * w"
      "k * (n - 1) * w + k * w = k * (n * w)" "4 * w \<le> n * w"
    using assms(3) by (simp_all add: Suc n algebra_simps)
  have c0: "c + 2 * w = k * (n - 1) * w" unfolding c_def using f(2) by linarith
  have c: "int c = int (k * (n - 1) * w) - 2 * int w" unfolding c0 [symmetric] by simp
  have "0 < c" "(k + 2) * w + c = k * (n * w)" "k * (n * w) < 2 ^ 32"
    using f c0 assms(2) by (simp_all only: add_mult_distrib)
  note c = c this
  have "uint (word_of_int (- int c) :: u32) = 2 ^ 32 - int c"
    by (rule uint_word_neg) (use c in linarith)+
  moreover have "uint (word_of_int (int ((k + 2) * w)) :: u32) = int ((k + 2) * w)"
    by (rule uint_word_pos) (use c in linarith)
  moreover have "int ((k + 2) * w) \<le> 2 ^ 32 - int c"
  proof -
    have "(k + 2) * w + c \<le> 2 ^ 32" unfolding c(3) using c(4) by (rule less_imp_le)
    then have "int ((k + 2) * w + c) \<le> int (2 ^ 32)" by (simp only: of_nat_le_iff)
    then show ?thesis by (simp only: of_nat_add of_nat_power of_nat_numeral)
  qed
  moreover have "2 * int w - int (k * (n - 1) * w) = - int c" using c(1) by simp
  ultimately show ?thesis by (simp only: word_le_def)
qed simp

lemma equal_step:
  assumes "4 \<le> n" and "0 < w" and "(k + 1) * (n * w) \<le> 2 ^ 32"
  shows "swrr_pick (replicate n (word_of_int (int w))) (equal_curs n w k) = (0, equal_curs n w (Suc k))"
proof -
  let ?first = "word_of_int (2 * int w - int (k * (n - 1) * w)) :: u32"
  let ?other = "word_of_int (int ((k + 2) * w)) :: u32"
  have "\<forall>x \<in> set (enumerate 1 (replicate (n - 1) ?other)). snd x \<le> ?first"
    using equal_first_greatest [OF assms] by (auto simp: in_set_enumerate_eq)
  then have max: "pick_max None (enumerate 0 (?first # replicate (n - 1) ?other)) = Some (0, ?first)"
    using pick_max_first [of "enumerate 1 (replicate (n - 1) ?other)" ?first 0] by simp
  have "sum_list (replicate n (word_of_int (int w) :: u32)) = word_of_int (int (n * w))"
    by (simp add: sum_list_replicate)
  moreover have "?first - word_of_int (int (n * w)) = word_of_int (int w - int (Suc k * (n - 1) * w))"
  proof -
    have "2 * int w - int (k * (n - 1) * w) - int (n * w) = int w - int (Suc k * (n - 1) * w)"
    proof -
      obtain m where n: "n = Suc m" using assms(1) by (cases n) simp_all
      show ?thesis by (simp add: n algebra_simps)
    qed
    then show ?thesis by (metis of_int_diff)
  qed
  ultimately show ?thesis
    using max equal_raised [of n w k] assms(1)
    by (simp add: swrr_pick_def Let_def) (simp add: equal_curs_def)
qed

lemma equal_picks:
  assumes "4 \<le> n" and "0 < w" and "(k + N) * (n * w) \<le> 2 ^ 32"
  shows "swrr_picks (replicate n (word_of_int (int w))) (equal_curs n w k) N = replicate N 0"
  using assms
proof (induction N arbitrary: k)
  case (Suc N)
  have "(k + 1) * (n * w) \<le> (k + Suc N) * (n * w)" by (rule mult_right_mono) simp_all
  then have "(k + 1) * (n * w) \<le> 2 ^ 32" using Suc.prems(3) by (rule order.trans)
  then show ?case using equal_step [OF Suc.prems(1,2)] Suc by simp
qed simp

section \<open>Fresh pickers\<close>

text \<open>Every connection has its weight as current and effective weight, as the builder leaves it.\<close>

definition fresh_wrr :: "'c wrr_picker \<Rightarrow> bool" where
  "fresh_wrr p \<longleftrightarrow> list_all (\<lambda>con. wrrCurrent con = wrrWeight con \<and> wrrEfficient con = wrrWeight con) (wrrConnections p)"

lemma wrr_connections_fresh:
  "wrr_connections ready = Inr cons \<Longrightarrow>
     list_all (\<lambda>con. wrrCurrent con = wrrWeight con \<and> wrrEfficient con = wrrWeight con) cons
     \<and> map wrrAddress cons = map snd ready \<and> map (\<lambda>con. Inr (wrrWeight con)) cons = map (weight_of \<circ> snd) ready"
  by (induction ready arbitrary: cons rule: wrr_connections.induct) (auto elim!: go_bindE)

lemma fresh_vectors:
  assumes "fresh_wrr p"
  shows "curs_of p = map wrrWeight (wrrConnections p)" "effs_of p = map wrrWeight (wrrConnections p)"
  using assms by (simp_all add: fresh_wrr_def list_all_iff)

fun fail_times :: "nat \<Rightarrow> 'c wrr_conn \<Rightarrow> 'c wrr_conn" where
  "fail_times 0 con = con"
| "fail_times (Suc n) con = fail_times n (wrr_done_conn True con)"

lemma fail_times_eq:
  "wrrWeight con \<noteq> 0 \<Longrightarrow> fail_times n con = con\<lparr>wrrEfficient := wrrEfficient con - of_nat n\<rparr>"
  by (induction n arbitrary: con) (simp_all add: wrr_done_conn_def algebra_simps)


text \<open>A sequence of picks and of their callbacks, in any order.\<close>

datatype wrr_op = OpPick pick_info | OpDone nat bool

fun wrr_do :: "wrr_op \<Rightarrow> 'c wrr_picker \<Rightarrow> 'c wrr_picker" where
  "wrr_do (OpPick info) p = snd (wrr_Pick p info)"
| "wrr_do (OpDone m failed) p = wrr_Done m failed p"

lemma wrr_do_sum: "current_sum (wrr_do op p) = current_sum p"
proof (cases op)
  case (OpDone m failed)
  then show ?thesis
    by (cases "m < length (wrrConnections p)") (simp_all add: wrr_Done_sum, simp add: wrr_Done_def current_sum_def list_update_beyond not_less)
qed (simp add: wrr_Pick_sum)

lemma count_list_Inr: "count_list (map Inr xs) (Inr k) = count_list xs k"
  by (induction xs) simp_all

section \<open>Properties\<close>

definition sample_wrr :: "u32 list \<Rightarrow> unit wrr_picker" where
  "sample_wrr ws =
     \<lparr>wrrConnections = map (\<lambda>w. \<lparr>wrrName = [], wrrWeight = w, wrrCurrent = w, wrrEfficient = w,
        wrrSubConn = (), wrrAddress = \<lparr>addrAddr = [], addrAttrs = Map.empty\<rparr>\<rparr>) ws,
      wrrFilter = no_filter\<rparr>"

lemma sample_wrr_fresh: "fresh_wrr (sample_wrr ws)"
  by (simp add: fresh_wrr_def sample_wrr_def list_all_iff)

lemma sample_wrr_passes: "list_all (passes_all (sample_wrr ws)) infos"
  by (simp add: sample_wrr_def passes_all_def no_filter_def list_all_iff)

lemma sample_wrr_weights: "map wrrWeight (wrrConnections (sample_wrr ws)) = ws"
  by (simp add: sample_wrr_def comp_def)

lemma sample_wrr_nonempty: "wrrConnections (sample_wrr ws) = [] \<longleftrightarrow> ws = []"
  by (simp add: sample_wrr_def)

text \<open>
  The sum of the current weights of a picker (modulo \<open>2 ^ 32\<close>) never changes, whatever is picked,
  filtered, and reported as done, and in whatever order.
\<close>

theorem wrr_sum_conserved:
  "current_sum (fold wrr_do ops p) = current_sum p"
  by (induction ops arbitrary: p) (simp_all add: wrr_do_sum)

text \<open>
  C16: As long as no current weight is negative or too great when the weights are compared, the picks
  of the code, on wrapping words, are those of the smooth weighted round robin on the integers.
\<close>

theorem wrr_refines_integers:
  assumes "list_all (passes_all p) infos" and "wrrConnections p \<noteq> []"
    and "swrr_fits (int_effs p) (int_curs p) (length infos)"
  shows "wrr.picks p infos = map Inr (swrr_picks (int_effs p) (int_curs p) (length infos))"
  using assms by (rule wrr_picks_ints)

theorem wrr_refines_integers_witness:
  "wrr.picks (sample_wrr [5, 4, 3]) (replicate 5 \<lparr>piGroup = None\<rparr>) = map Inr [0, 1, 2, 0, 1]"
proof -
  have vec: "int_effs (sample_wrr [5, 4, 3]) = [5, 4, 3]" "int_curs (sample_wrr [5, 4, 3]) = [5, 4, 3]"
    by (simp_all add: int_effs_def int_curs_def sample_wrr_def)
  have run: "swrr_picks [5, 4, 3] [5, 4, 3 :: int] 5 = [0, 1, 2, 0, 1]" "swrr_fits [5, 4, 3] [5, 4, 3] 5"
    by (simp_all add: numeral_eq_Suc swrr_pick_def)
  show ?thesis
    using wrr_refines_integers [OF sample_wrr_passes, of "[5, 4, 3]" "replicate 5 \<lparr>piGroup = None\<rparr>"] run
    by (simp add: vec sample_wrr_nonempty)
qed





text \<open>
  Failures bring the effective weight below zero, where it wraps: the callback tests the weight
  the connection was configured with, which it never changes. After one failure more than its
  weight, a connection has the greatest weight there is.
\<close>

theorem wrr_failures_wrap:
  assumes "wrrWeight con \<noteq> 0" and "wrrEfficient con = wrrWeight con"
  shows "wrrEfficient (fail_times (unat (wrrWeight con) + 1) con) = 4294967295"
  using assms by (simp add: fail_times_eq del: fail_times.simps)

theorem wrr_failures_wrap_witness:
  "wrrEfficient (fail_times (unat (wrrWeight (hd (wrrConnections (sample_wrr [2])))) + 1)
     (hd (wrrConnections (sample_wrr [2])))) = 4294967295"
  by (rule wrr_failures_wrap) (simp_all add: sample_wrr_def)

end
