(* ===== verification/Resolver.thy ===== *)
theory Resolver
  imports Registry WeightRoundRobin
begin

text \<open>
  The resolver that gRPC asks for the addresses of a service (\<^verbatim>\<open>resolver.go\<close>).

  \<^item> Of the connection of gRPC the code calls \<^verbatim>\<open>UpdateState\<close>, which may fail, and \<^verbatim>\<open>ReportError\<close>; a run
    keeps the list of these calls.
  \<^item> The result of each lookup in the registry is an input of the step that makes it.
  \<^item> A channel is nil, open or closed: a nil one is never ready, a closed one always.
\<close>

section \<open>Addresses\<close>

record resolved_address = address +
  raServerName :: go_string

definition newAddress :: "service_instance \<Rightarrow> resolved_address" where
  "newAddress ins =
     \<lparr>addrAddr = siAddress ins,
      addrAttrs = (\<lambda>k. None)(weight_key \<mapsto> AttrUint32 (siWeight ins), group_key \<mapsto> AttrString (siGroup ins)),
      raServerName = siName ins\<rparr>"

datatype cc_call = CcUpdateState "resolved_address list" | CcReportError go_error

type_synonym lookup = "go_error + service_instance list"

definition resolve :: "lookup \<Rightarrow> (resolved_address list \<Rightarrow> go_error option) \<Rightarrow> cc_call list" where
  "resolve found update =
     (case found of
        Inl err \<Rightarrow> [CcReportError err]
      | Inr instances \<Rightarrow>
          (let address = map newAddress instances in
           CcUpdateState address # (case update address of None \<Rightarrow> [] | Some err \<Rightarrow> [CcReportError err])))"

section \<open>The resolver and its goroutine\<close>

datatype go_chan = NilChan | OpenChan | ClosedChan

record grpc_resolver =
  grTarget :: go_string
  grTimeout :: int
  grClose :: go_chan

datatype resolver_pc = Subscribing | Watching | WatchReturned | WatchPanicked go_panic

record resolver_run =
  rrResolver :: grpc_resolver
  rrPc :: resolver_pc
  rrCalls :: "cc_call list"
  rrClosing :: nat

definition Build_resolver :: "int \<Rightarrow> go_string \<Rightarrow> lookup \<Rightarrow> (resolved_address list \<Rightarrow> go_error option) \<Rightarrow> resolver_run" where
  "Build_resolver timeout target found update =
     \<lparr>rrResolver = \<lparr>grTarget = target, grTimeout = timeout, grClose = NilChan\<rparr>,
      rrPc = Subscribing, rrCalls = resolve found update, rrClosing = 0\<rparr>"

text \<open>The builder; its registry is in the lookups. What \<^verbatim>\<open>Build\<close> and \<^verbatim>\<open>ResolveNow\<close> of a builder do:\<close>

record resolver_builder =
  rbTimeout :: int

definition NewResolverBuilder :: "int \<Rightarrow> resolver_builder" where
  "NewResolverBuilder timeout = \<lparr>rbTimeout = timeout\<rparr>"

definition builder_Build ::
  "resolver_builder \<Rightarrow> go_string \<Rightarrow> lookup \<Rightarrow> (resolved_address list \<Rightarrow> go_error option) \<Rightarrow> resolver_run" where
  "builder_Build b target found update = Build_resolver (rbTimeout b) target found update"

definition ResolveNow :: "lookup \<Rightarrow> (resolved_address list \<Rightarrow> go_error option) \<Rightarrow> resolver_run \<Rightarrow> resolver_run" where
  "ResolveNow found update r = r\<lparr>rrCalls := rrCalls r @ resolve found update\<rparr>"

datatype resolver_event =
    SubscribeFails go_error
  | Subscribes
  | Notified lookup "resolved_address list \<Rightarrow> go_error option"
  | ResolvesNow lookup "resolved_address list \<Rightarrow> go_error option"
  | CloseCalled
  | CloseReturns_r
  | ClosePanics_r go_panic
  | WatchPanics go_panic

text \<open>
  \<^verbatim>\<open>watch\<close>, with the calls of \<^verbatim>\<open>ResolveNow\<close> and of \<^verbatim>\<open>Close\<close>. A call of \<^verbatim>\<open>Close\<close> waits until its value is received.
\<close>

inductive resolver_step :: "resolver_run \<Rightarrow> resolver_event \<Rightarrow> resolver_run \<Rightarrow> bool" where
  rs_fails: "rrPc r = Subscribing \<Longrightarrow>
    resolver_step r (SubscribeFails err) (r\<lparr>rrPc := WatchReturned, rrCalls := rrCalls r @ [CcReportError err]\<rparr>)"
| rs_subscribes: "rrPc r = Subscribing \<Longrightarrow> resolver_step r Subscribes (r\<lparr>rrPc := Watching\<rparr>)"
| rs_notified: "rrPc r = Watching \<Longrightarrow>
    resolver_step r (Notified found update) (r\<lparr>rrCalls := rrCalls r @ resolve found update\<rparr>)"
| rs_now: "resolver_step r (ResolvesNow found update) (ResolveNow found update r)"
| rs_close: "grClose (rrResolver r) \<noteq> ClosedChan \<Longrightarrow> resolver_step r CloseCalled (r\<lparr>rrClosing := Suc (rrClosing r)\<rparr>)"
| rs_close_closed: "grClose (rrResolver r) = ClosedChan \<Longrightarrow> resolver_step r (ClosePanics_r SendOnClosed) r"
| rs_waiting_closed: "grClose (rrResolver r) = ClosedChan \<Longrightarrow> rrClosing r = Suc n \<Longrightarrow>
    resolver_step r (ClosePanics_r SendOnClosed) (r\<lparr>rrClosing := n\<rparr>)"
| rs_closed: "rrPc r = Watching \<Longrightarrow> grClose (rrResolver r) = OpenChan \<Longrightarrow> rrClosing r = Suc n \<Longrightarrow>
    resolver_step r CloseReturns_r
      (r\<lparr>rrResolver := (rrResolver r)\<lparr>grClose := ClosedChan\<rparr>, rrClosing := n\<rparr>)"
| rs_close_again: "rrPc r = Watching \<Longrightarrow> grClose (rrResolver r) = ClosedChan \<Longrightarrow>
    resolver_step r (WatchPanics CloseOfClosed) (r\<lparr>rrPc := WatchPanicked CloseOfClosed\<rparr>)"

declare ResolveNow_def [simp]

abbreviation resolver_trace :: "resolver_run \<Rightarrow> resolver_event list \<Rightarrow> resolver_run \<Rightarrow> bool" where
  "resolver_trace \<equiv> trace resolver_step"

lemmas resolver_snoc = trace_snoc [where step = resolver_step]

section \<open>What the connection knows\<close>

fun updates :: "cc_call list \<Rightarrow> resolved_address list list" where
  "updates [] = []"
| "updates (CcUpdateState as # cs) = as # updates cs"
| "updates (CcReportError err # cs) = updates cs"

lemma updates_append [simp]: "updates (cs @ cs') = updates cs @ updates cs'"
  by (induction cs rule: updates.induct) simp_all

text \<open>The lookups of a run that succeeded.\<close>

fun lookups_of :: "resolver_event \<Rightarrow> service_instance list list" where
  "lookups_of (Notified (Inr is) update) = [is]"
| "lookups_of (ResolvesNow (Inr is) update) = [is]"
| "lookups_of _ = []"

definition found_of :: "lookup \<Rightarrow> service_instance list list" where
  "found_of found = (case found of Inl err \<Rightarrow> [] | Inr is \<Rightarrow> [is])"

lemma updates_resolve: "updates (resolve found update) = map (map newAddress) (found_of found)"
  by (auto simp: resolve_def found_of_def Let_def split: sum.splits option.splits)

lemma lookups_of_found [simp]:
  "lookups_of (Notified found update) = found_of found"
  "lookups_of (ResolvesNow found update) = found_of found"
  by (cases found; simp add: found_of_def)+

lemma resolver_step_updates:
  "resolver_step r e r' \<Longrightarrow> updates (rrCalls r') = updates (rrCalls r) @ map (map newAddress) (lookups_of e)"
  by (erule resolver_step.cases) (simp_all add: updates_resolve)

lemma resolver_updates:
  "resolver_trace start es r \<Longrightarrow>
     updates (rrCalls r) = updates (rrCalls start) @ map (map newAddress) (concat (map lookups_of es))"
proof (induction rule: trace.induct)
  case (trace_snoc es r e r')
  then show ?case using resolver_step_updates by simp
qed simp

lemma resolver_nil_close:
  "resolver_trace start es r \<Longrightarrow> grClose (rrResolver start) = NilChan \<Longrightarrow> rrPc start = Subscribing \<Longrightarrow>
     grClose (rrResolver r) = NilChan \<and> CloseReturns_r \<notin> set es
     \<and> (rrPc r = Subscribing \<or> rrPc r = Watching \<or> (\<exists>err. SubscribeFails err \<in> set es))
     \<and> rrClosing r = rrClosing start + count_list es CloseCalled"
proof (induction rule: trace.induct)
  case (trace_snoc es r e r')
  from trace_snoc.hyps(2) trace_snoc.IH trace_snoc.prems show ?case by (cases; auto)
qed simp

lemma newAddress_weight [simp]: "weight_of (address.truncate (newAddress ins)) = Inr (siWeight ins)"
  by (simp add: weight_of_def newAddress_def address.truncate_def weight_key_def group_key_def)

lemma newAddress_group [simp]:
  "addrAttrs (address.truncate (newAddress ins)) group_key = Some (AttrString (siGroup ins))"
  by (simp add: newAddress_def address.truncate_def)

lemma wrr_connections_newAddress:
  "\<exists>cons. wrr_connections (map (\<lambda>i. (dial i, address.truncate (newAddress i))) is) = Inr cons
     \<and> map wrrWeight cons = map siWeight is \<and> map wrrEfficient cons = map siWeight is
     \<and> map wrrAddress cons = map (address.truncate \<circ> newAddress) is"
  by (induction "is") auto

section \<open>Properties\<close>

text \<open>
  C15: The resolver follows the registry: the addresses it has given to the connection are, in order,
  those of the successful lookups of its builder, of the events of its subscription and of the calls
  of \<^verbatim>\<open>ResolveNow\<close>, one state for each, whatever fails and whether or not the connection accepts them.
\<close>

theorem resolver_follows_registry:
  assumes "resolver_trace (Build_resolver timeout target found update) es r"
  shows "updates (rrCalls r) = map (map newAddress) (found_of found @ concat (map lookups_of es))"
  using resolver_updates [OF assms] by (simp add: Build_resolver_def updates_resolve)

theorem resolver_follows_registry_witness:
  "\<exists>r. resolver_trace (Build_resolver 5 [97] (Inl CtxDeadlineExceeded) (\<lambda>as. None))
       [Subscribes, Notified (Inr [zero_instance]) (\<lambda>as. None)] r
     \<and> updates (rrCalls r) = [[newAddress zero_instance]]"
proof -
  let ?s = "Build_resolver 5 [97] (Inl CtxDeadlineExceeded) (\<lambda>as. None)"
  have "resolver_trace ?s [Subscribes] (?s\<lparr>rrPc := Watching\<rparr>)"
    using resolver_snoc [OF trace_Nil rs_subscribes [of ?s]] by (simp add: Build_resolver_def)
  from resolver_snoc [OF this rs_notified]
  have t: "resolver_trace ?s [Subscribes, Notified (Inr [zero_instance]) (\<lambda>as. None)]
      (?s\<lparr>rrPc := Watching, rrCalls := rrCalls ?s @ resolve (Inr [zero_instance]) (\<lambda>as. None)\<rparr>)"
    by (simp add: Build_resolver_def)
  show ?thesis using resolver_follows_registry [OF t] t by (auto simp: found_of_def)
qed

text \<open>
  \<^verbatim>\<open>Close\<close> of a resolver never returns and its goroutine is never told to end: the builder makes no
  channel, and a send on a nil channel blocks for ever. Every call of \<^verbatim>\<open>Close\<close> is still waiting at the
  end of any run, and the goroutine returns only when it could not subscribe.
\<close>

theorem resolver_close_blocks:
  assumes "resolver_trace (Build_resolver timeout target found update) es r"
  shows "CloseReturns_r \<notin> set es \<and> rrClosing r = count_list es CloseCalled
    \<and> (rrPc r = Subscribing \<or> rrPc r = Watching \<or> (\<exists>err. SubscribeFails err \<in> set es))"
  using resolver_nil_close [OF assms] by (simp add: Build_resolver_def)

theorem resolver_close_blocks_witness:
  "\<exists>r. resolver_trace (Build_resolver 5 [97] (Inr []) (\<lambda>as. None)) [CloseCalled] r \<and> rrClosing r = 1"
proof -
  let ?s = "Build_resolver 5 [97] (Inr []) (\<lambda>as. None)"
  have t: "resolver_trace ?s [CloseCalled] (?s\<lparr>rrClosing := Suc (rrClosing ?s)\<rparr>)"
    using resolver_snoc [OF trace_Nil rs_close [of ?s]] by (simp add: Build_resolver_def)
  show ?thesis using resolver_close_blocks [OF t] t by auto
qed

text \<open>
  The weight and the group that an instance is registered with reach the pickers: over the addresses
  the resolver makes, the weighted round robin is built without a panic and gives every connection
  the weight of its instance, and the group filter lets through exactly the instances of the group
  that the call asks for.
\<close>

theorem weights_and_groups_reach_pickers:
  "\<exists>p. wrr_Build f (map (\<lambda>i. (dial i, address.truncate (newAddress i))) is) = Inr p
     \<and> map wrrWeight (wrrConnections p) = map siWeight is
     \<and> map wrrEfficient (wrrConnections p) = map siWeight is
     \<and> filter (GroupFilter \<lparr>piGroup = Some (AttrString g)\<rparr>) (map wrrAddress (wrrConnections p))
         = map (address.truncate \<circ> newAddress) (filter (\<lambda>i. siGroup i = g) is)"
proof -
  obtain cons where cons: "wrr_connections (map (\<lambda>i. (dial i, address.truncate (newAddress i))) is) = Inr cons"
      "map wrrWeight cons = map siWeight is" "map wrrEfficient cons = map siWeight is"
      "map wrrAddress cons = map (address.truncate \<circ> newAddress) is"
    using wrr_connections_newAddress by blast
  have "filter (GroupFilter \<lparr>piGroup = Some (AttrString g)\<rparr>) (map (address.truncate \<circ> newAddress) is)
      = map (address.truncate \<circ> newAddress) (filter (\<lambda>i. siGroup i = g) is)"
    by (induction "is") (auto simp: GroupFilter_def)
  with cons show ?thesis by (simp add: wrr_Build_def)
qed

end
