(* ===== verification/Micro.thy ===== *)
theory Micro
  imports Resolver
begin

text \<open>
  The server and the client of the framework (\<^verbatim>\<open>server.go\<close> and \<^verbatim>\<open>client.go\<close> at the root), which put gRPC,
  the registry and the resolver together.

  \<^item> gRPC and the network are inputs: the result of listening (the address of the listener), of serving
    and of stopping. The registry is the one of \<^verbatim>\<open>registry/etcd\<close> over a cluster state \<open>'d\<close>; a nil one
    is \<open>None\<close>.
  \<^item> An option is a function on what it configures, as in the code.
\<close>

section \<open>The server\<close>

record 'd micro_server =
  msName :: go_string
  msWeight :: u32
  msGroup :: go_string
  msListener :: "go_string option"
  msRegistry :: "'d etcd option"
  msTimeout :: int
  msInstance :: service_instance
  msStopped :: bool

type_synonym 'd server_option = "'d micro_server \<Rightarrow> 'd micro_server"

definition ServerWithWeight :: "u32 \<Rightarrow> 'd server_option" where
  "ServerWithWeight weight s = s\<lparr>msWeight := weight\<rparr>"

definition ServerWithGroup :: "go_string \<Rightarrow> 'd server_option" where
  "ServerWithGroup grp s = s\<lparr>msGroup := grp\<rparr>"

definition ServerWithRegistry :: "'d etcd \<Rightarrow> 'd server_option" where
  "ServerWithRegistry r s = s\<lparr>msRegistry := Some r\<rparr>"

definition ServerWithTimeout :: "int \<Rightarrow> 'd server_option" where
  "ServerWithTimeout timeout s = s\<lparr>msTimeout := timeout\<rparr>"

definition NewMicroServer :: "go_string \<Rightarrow> 'd server_option list \<Rightarrow> 'd micro_server" where
  "NewMicroServer name opts =
     fold (\<lambda>opt s. opt s) opts
       \<lparr>msName = name, msWeight = 0, msGroup = [], msListener = None, msRegistry = None,
        msTimeout = 10 * 1000000000, msInstance = zero_instance, msStopped = False\<rparr>"

definition instance_of :: "'d micro_server \<Rightarrow> go_string \<Rightarrow> service_instance" where
  "instance_of s addr = \<lparr>siName = msName s, siAddress = addr, siWeight = msWeight s, siGroup = msGroup s\<rparr>"

text \<open>\<^verbatim>\<open>Start\<close>: \<open>listen\<close> is what \<^verbatim>\<open>net.Listen\<close> gives, \<open>serve\<close> what \<^verbatim>\<open>Serve\<close> returns in the end.\<close>

definition MicroStart ::
  "go_error + go_string \<Rightarrow> go_error option \<Rightarrow> 'd micro_server \<Rightarrow> 'd \<Rightarrow> go_error option \<times> 'd micro_server \<times> 'd" where
  "MicroStart listen serve s d =
     (case listen of
        Inl err \<Rightarrow> (Some err, s, d)
      | Inr addr \<Rightarrow>
          (let s = s\<lparr>msListener := Some addr\<rparr> in
           case msRegistry s of
             None \<Rightarrow> (serve, s, d)
           | Some r \<Rightarrow>
               (let s = s\<lparr>msInstance := instance_of s addr\<rparr> in
                case Register r (msInstance s) d of
                  (Some err, d) \<Rightarrow> (Some err, s, d)
                | (None, d) \<Rightarrow> (serve, s, d))))"

definition MicroClose :: "'d micro_server \<Rightarrow> 'd \<Rightarrow> (go_error option \<times> 'd micro_server \<times> 'd) go" where
  "MicroClose s d =
     (case msRegistry s of
        None \<Rightarrow> Inl NilDereference
      | Some r \<Rightarrow>
          (case Unregister r (msInstance s) d of
             (Some err, d) \<Rightarrow> Inr (Some err, s, d)
           | (None, d) \<Rightarrow> Inr (None, s\<lparr>msStopped := True\<rparr>, d)))"

section \<open>The client\<close>

text \<open>
  A balancer builder is its name. \<^verbatim>\<open>ClientWithPickerBuilder\<close> also registers it with gRPC: the names
  registered so far go with the client.
\<close>

datatype dial_option =
    WithResolvers go_string int
  | WithInsecure
  | CallerOption nat

record 'd micro_client =
  mcInsecure :: bool
  mcRegistry :: "'d etcd option"
  mcRegistryTimeout :: int
  mcBalancerBuilder :: "go_string option"
  mcRegistered :: "go_string list"

type_synonym 'd client_option = "'d micro_client \<Rightarrow> 'd micro_client"

definition ClientWithPickerBuilder :: "go_string \<Rightarrow> 'd client_option" where
  "ClientWithPickerBuilder name c =
     c\<lparr>mcRegistered := mcRegistered c @ [name], mcBalancerBuilder := Some name\<rparr>"

definition ClientWithRegistry :: "'d etcd \<Rightarrow> int \<Rightarrow> 'd client_option" where
  "ClientWithRegistry r timeout c = c\<lparr>mcRegistry := Some r, mcRegistryTimeout := timeout\<rparr>"

definition ClientWithInsecure :: "'d client_option" where
  "ClientWithInsecure c = c\<lparr>mcInsecure := True\<rparr>"

definition NewMicroClient :: "'d client_option list \<Rightarrow> 'd micro_client" where
  "NewMicroClient opts =
     fold (\<lambda>opt c. opt c) opts
       \<lparr>mcInsecure = False, mcRegistry = None, mcRegistryTimeout = 0, mcBalancerBuilder = None, mcRegistered = []\<rparr>"

definition resolver_scheme :: go_string where
  "resolver_scheme = go_str ''registry''"

text \<open>The target and the options that \<^verbatim>\<open>Dial\<close> hands to gRPC.\<close>

definition Dial_args :: "'d micro_client \<Rightarrow> go_string \<Rightarrow> dial_option list \<Rightarrow> go_string \<times> dial_option list" where
  "Dial_args c service dialOptions =
     (go_str ''registry:///'' @ service,
      (case mcRegistry c of None \<Rightarrow> [] | Some r \<Rightarrow> [WithResolvers resolver_scheme (mcRegistryTimeout c)])
      @ (if mcInsecure c then [WithInsecure] else [])
      @ dialOptions)"

section \<open>Facts\<close>

lemma MicroStart_registers:
  assumes "msRegistry s = Some r" and "Register r (instance_of s addr) d = (None, d')"
  shows "MicroStart (Inr addr) serve s d =
    (serve, s\<lparr>msListener := Some addr, msInstance := instance_of s addr\<rparr>, d')"
  using assms by (simp add: MicroStart_def Let_def instance_of_def)

lemma NewMicroServer_snoc: "NewMicroServer name (opts @ [opt]) = opt (NewMicroServer name opts)"
  by (simp add: NewMicroServer_def)

lemma registered_latest:
  "registered (ops @ [OpRegister i]) (instanceKey i) = Some i"
  by (simp add: registered_def)

lemma reg_run_append:
  "reg_run e (ops @ ops') d = (case reg_run e ops d of None \<Rightarrow> None | Some d \<Rightarrow> reg_run e ops' d)"
proof (induction ops arbitrary: d)
  case (Cons op ops)
  then show ?case by (auto split: option.splits prod.splits)
qed simp

section \<open>Properties\<close>

text \<open>
  C13: A server that has started is found: whatever was registered before and whatever serving then
  returns, a lookup of its name that succeeds gives the address of its listener with its name, weight
  and group, and the resolver hands that address to the connection. When serving has ended with an error it is
  still registered.
\<close>

theorem started_server_is_resolved:
  assumes "etcd_laws e content" and "content d0 = Map.empty"
    and "list_all (plain_instance \<circ> op_instance) ops" and "reg_run e ops d0 = Some d"
    and "msRegistry s = Some e" and "plain_instance (instance_of s addr)"
    and "Register e (instance_of s addr) d = (None, d')"
    and "ListServices e (msName s) d' = Inr is"
  shows "MicroStart (Inr addr) serve s d =
      (serve, s\<lparr>msListener := Some addr, msInstance := instance_of s addr\<rparr>, d')
    \<and> \<lparr>addrAddr = addr,
        addrAttrs = [weight_key \<mapsto> AttrUint32 (msWeight s), group_key \<mapsto> AttrString (msGroup s)],
        raServerName = msName s\<rparr> \<in> set (hd (updates (resolve (Inr is) update)))"
proof -
  let ?i = "instance_of s addr"
  have run: "reg_run e (ops @ [OpRegister ?i]) d0 = Some d'"
    using assms(4,7) by (simp add: reg_run_append)
  have plain: "list_all (plain_instance \<circ> op_instance) (ops @ [OpRegister ?i])" using assms(3,6) by simp
  have "?i \<in> listed (registered (ops @ [OpRegister ?i])) (msName s)"
    unfolding listed_registered [OF registered_latest]
    by (simp add: serviceKey_def instanceKey_def instance_of_def)
  then have "?i \<in> set is" using reg_run_lists [OF assms(1,2) plain run assms(8)] by simp
  then have "newAddress ?i \<in> set (hd (updates (resolve (Inr is) update)))"
    by (simp add: updates_resolve found_of_def)
  moreover have "newAddress ?i = \<lparr>addrAddr = addr,
      addrAttrs = [weight_key \<mapsto> AttrUint32 (msWeight s), group_key \<mapsto> AttrString (msGroup s)], raServerName = msName s\<rparr>"
    by (simp add: newAddress_def instance_of_def)
  ultimately show ?thesis using MicroStart_registers [OF assms(5,7)] by simp
qed

text \<open>
  \<^verbatim>\<open>Close\<close> undoes what \<^verbatim>\<open>Start\<close> did to the registry: a server that registered and then closes without
  an error leaves the keys of the cluster as they were, apart from its own, and is stopped; a server
  without a registry, which \<^verbatim>\<open>Start\<close> allows, panics when it is closed.
\<close>

theorem close_unregisters:
  assumes "etcd_laws e content" and "msRegistry s = Some e"
    and "MicroStart (Inr addr) serve s d = (serve, s', d')" and "Register e (instance_of s addr) d = (None, d')"
    and "MicroClose s' d' = Inr (None, s'', d'')"
  shows "content d'' = (content d)(instanceKey (instance_of s addr) := None) \<and> msStopped s''
    \<and> MicroClose (NewMicroServer name []) d' = Inl NilDereference"
proof -
  have s': "msRegistry s' = Some e" "msInstance s' = instance_of s addr"
    using MicroStart_registers [OF assms(2,4), of serve] assms(2,3) by auto
  obtain v where "etPut e (instanceKey (instance_of s addr)) v d = (None, d')"
    using assms(4) by (auto simp: Register_def split: sum.splits)
  then have put: "content d' = (content d)(instanceKey (instance_of s addr) \<mapsto> v)"
    using assms(1) by (auto simp: etcd_laws_def)
  have del: "etDelete e (instanceKey (instance_of s addr)) d' = (None, d'')" "msStopped s''"
    using assms(5) s' by (auto simp: MicroClose_def Unregister_def split: prod.splits option.splits)
  then have "content d'' = (content d')(instanceKey (instance_of s addr) := None)"
    using assms(1) by (auto simp: etcd_laws_def)
  with put del(2) show ?thesis by (simp add: MicroClose_def NewMicroServer_def)
qed

text \<open>
  The picker builder given to a client has no part in what it dials: the options handed to gRPC
  and the target are the same without it, so that it takes effect only through the service
  configuration of the caller, under the name it was registered with.
\<close>

theorem dial_ignores_picker_builder:
  "Dial_args (NewMicroClient (opts @ [ClientWithPickerBuilder name])) service dialOptions
     = Dial_args (NewMicroClient opts) service dialOptions
   \<and> name \<in> set (mcRegistered (NewMicroClient (opts @ [ClientWithPickerBuilder name])))"
  by (simp add: Dial_args_def NewMicroClient_def ClientWithPickerBuilder_def split: option.split)

text \<open>A server on the cluster in memory.\<close>

abbreviation sample_server :: "(go_string \<times> bytes) list micro_server" where
  "sample_server \<equiv> NewMicroServer [97] [ServerWithRegistry memory_etcd, ServerWithWeight 3]"

abbreviation sample_content :: "(go_string \<times> bytes) list" where
  "sample_content \<equiv> [(instanceKey (instance_of sample_server [49]), marshal_struct (instance_fields (instance_of sample_server [49])))]"

lemma sample_server_registers:
  "msRegistry sample_server = Some memory_etcd" "msName sample_server = [97]"
  "plain_instance (instance_of sample_server [49])"
  "Register memory_etcd (instance_of sample_server [49]) [] = (None, sample_content)"
  "ListServices memory_etcd [97] sample_content = Inr [instance_of sample_server [49]]"
proof -
  show plain: "plain_instance (instance_of sample_server [49])"
    by (simp add: NewMicroServer_def ServerWithRegistry_def ServerWithWeight_def instance_of_def plain_instance_def)
  show "ListServices memory_etcd [97] sample_content = Inr [instance_of sample_server [49]]"
    by (rule memory_lists [OF plain])
      (simp add: NewMicroServer_def ServerWithRegistry_def ServerWithWeight_def instance_of_def)
qed (simp_all add: NewMicroServer_def ServerWithRegistry_def ServerWithWeight_def memory_register)

theorem started_server_is_resolved_witness:
  "\<lparr>addrAddr = [49], addrAttrs = [weight_key \<mapsto> AttrUint32 3, group_key \<mapsto> AttrString []], raServerName = [97]\<rparr>
     \<in> set (hd (updates (resolve (Inr [instance_of sample_server [49]]) (\<lambda>as. None))))"
proof -
  have "msWeight sample_server = 3" "msGroup sample_server = []"
    by (simp_all add: NewMicroServer_def ServerWithRegistry_def ServerWithWeight_def)
  then show ?thesis
    using started_server_is_resolved [OF memory_etcd_laws, of "[]" "[]" "[]" sample_server "[49]"
        sample_content "[instance_of sample_server [49]]" None "\<lambda>as. None"] sample_server_registers
    by simp
qed

theorem close_unregisters_witness:
  "map_of (filter (\<lambda>x. fst x \<noteq> instanceKey (instance_of sample_server [49])) sample_content)
     = (map_of [])(instanceKey (instance_of sample_server [49]) := None)"
proof -
  let ?s = "sample_server\<lparr>msListener := Some [49], msInstance := instance_of sample_server [49]\<rparr>"
  have "MicroStart (Inr [49]) None sample_server [] = (None, ?s, sample_content)"
    using MicroStart_registers [of sample_server memory_etcd "[49]" "[]" sample_content None] sample_server_registers by simp
  moreover have "MicroClose ?s sample_content =
      Inr (None, ?s\<lparr>msStopped := True\<rparr>, filter (\<lambda>x. fst x \<noteq> instanceKey (instance_of sample_server [49])) sample_content)"
    using sample_server_registers(1) by (simp add: MicroClose_def Unregister_def memory_etcd_def)
  ultimately show ?thesis
    using close_unregisters [OF memory_etcd_laws sample_server_registers(1) _ sample_server_registers(4)] by blast
qed

end
