(* ===== verification/Cluster.thy ===== *)
theory Cluster
  imports Resolver
begin

text \<open>
  The cluster interceptors of the client: \<^verbatim>\<open>cluster/broadcast\<close>, which calls every instance and gives
  one result, \<^verbatim>\<open>cluster/broadcastall\<close>, which sends every answer on a channel, and \<^verbatim>\<open>cluster/fastest\<close>,
  which sends those that somebody waits for.

  \<^item> Each instance has a goroutine; a state keeps where each is, and a step is one action of one of them,
    of the interceptor, of the receiver of the channel or of the context.
  \<^item> Dialing and the invoker are gRPC: their results are inputs of the steps. \<open>'r\<close> is a reply.
  \<^item> The channels have no buffer: a send goes through when a receiver waits.
\<close>

section \<open>Contexts\<close>

text \<open>What a context has under the key of the package: the interceptors look for their own type.\<close>

datatype cluster_value = BoolValue bool | ChanValue nat

definition UsingBroadCast :: "cluster_value option" where
  "UsingBroadCast = Some (BoolValue True)"

fun isBroadCast :: "cluster_value option \<Rightarrow> bool" where
  "isBroadCast (Some (BoolValue res)) = res"
| "isBroadCast _ = False"

definition UsingBroadCast_chan :: "nat \<Rightarrow> cluster_value option" where
  "UsingBroadCast_chan ch = Some (ChanValue ch)"

fun isBroadCast_chan :: "cluster_value option \<Rightarrow> nat option" where
  "isBroadCast_chan (Some (ChanValue ch)) = Some ch"
| "isBroadCast_chan _ = None"

text \<open>Those of \<^verbatim>\<open>fastest\<close>, under a key of its own.\<close>

definition UsingBroadCast_fastest :: "nat \<Rightarrow> cluster_value option" where
  "UsingBroadCast_fastest ch = Some (ChanValue ch)"

fun isBroadCast_fastest :: "cluster_value option \<Rightarrow> nat option" where
  "isBroadCast_fastest (Some (ChanValue res)) = Some res"
| "isBroadCast_fastest _ = None"

section \<open>Broadcast\<close>

text \<open>
  \<open>BcCalled\<close> is a goroutine whose function has its result, which it hands to the \<^verbatim>\<open>errgroup.Group\<close>.
  All of them share the reply of the caller. What \<^verbatim>\<open>Wait\<close> returns is a parameter \<open>wait\<close> of the results
  in the order in which they were handed in; the documentation says of it what \<open>errgroup_laws\<close> says.
\<close>

datatype bc_pc = BcStart | BcCalled "go_error option" | BcDone

record 'r bc_run =
  bcThreads :: "bc_pc list"
  bcReply :: "'r option"
  bcResults :: "go_error option list"
  bcReturned :: "go_error option option"

datatype 'r bc_event =
    BcDialFails nat go_error
  | BcInvoked nat "go_error option" "'r option"
  | BcFinishes nat "go_error option"
  | BcReturns "go_error option"

definition bc_start :: "lookup \<Rightarrow> 'r bc_run" where
  "bc_start found =
     (case found of
        Inl err \<Rightarrow> \<lparr>bcThreads = [], bcReply = None, bcResults = [], bcReturned = Some (Some err)\<rparr>
      | Inr instances \<Rightarrow>
          \<lparr>bcThreads = replicate (length instances) BcStart, bcReply = None, bcResults = [], bcReturned = None\<rparr>)"

definition errgroup_laws :: "(go_error option list \<Rightarrow> go_error option) \<Rightarrow> bool" where
  "errgroup_laws wait \<longleftrightarrow>
     (\<forall>rs. (wait rs = None \<longleftrightarrow> list_all (\<lambda>r. r = None) rs) \<and> (\<forall>er. wait rs = Some er \<longrightarrow> Some er \<in> set rs))"

inductive bc_step ::
  "(go_error option list \<Rightarrow> go_error option) \<Rightarrow> 'r bc_run \<Rightarrow> 'r bc_event \<Rightarrow> 'r bc_run \<Rightarrow> bool" for wait where
  bc_dial_fails: "i < length (bcThreads r) \<Longrightarrow> bcThreads r ! i = BcStart \<Longrightarrow>
    bc_step wait r (BcDialFails i er) (r\<lparr>bcThreads := (bcThreads r)[i := BcCalled (Some er)]\<rparr>)"
| bc_invoked: "i < length (bcThreads r) \<Longrightarrow> bcThreads r ! i = BcStart \<Longrightarrow>
    bc_step wait r (BcInvoked i err val)
      (r\<lparr>bcThreads := (bcThreads r)[i := BcCalled err],
         bcReply := (case val of None \<Rightarrow> bcReply r | Some v \<Rightarrow> Some v)\<rparr>)"
| bc_finishes: "i < length (bcThreads r) \<Longrightarrow> bcThreads r ! i = BcCalled err \<Longrightarrow>
    bc_step wait r (BcFinishes i err)
      (r\<lparr>bcThreads := (bcThreads r)[i := BcDone], bcResults := bcResults r @ [err]\<rparr>)"
| bc_returns: "list_all (\<lambda>t. t = BcDone) (bcThreads r) \<Longrightarrow> bcReturned r = None \<Longrightarrow>
    bc_step wait r (BcReturns (wait (bcResults r))) (r\<lparr>bcReturned := Some (wait (bcResults r))\<rparr>)"

section \<open>Answers on a channel\<close>

record 'r resp =
  respVal :: "'r option"
  respErr :: "go_error option"

text \<open>
  A goroutine that could not dial sends its answer unconditionally; one that called the instance
  sends it in a \<^verbatim>\<open>select\<close> with a way out. The interceptor itself may send the error of the lookup.
\<close>

datatype 'r cl_pc = ClStart | ClForced "'r resp" | ClTrying "'r resp" | ClDone

datatype 'r cl_main = MainSending "'r resp" | MainRunning | MainReturned "go_error option"

record 'r cl_run =
  clThreads :: "'r cl_pc list"
  clMain :: "'r cl_main"
  clErr :: "go_error option"
  clCtxErr :: "go_error option"
  clWaiting :: nat
  clReceived :: "'r resp list"
  clClosed :: bool
  clCloser :: bool
  clPanic :: "go_panic option"

datatype 'r cl_event =
    ClDialFails nat go_error
  | ClInvoked nat "go_error option" 'r
  | ClSent nat
  | ClLookupSent
  | ClGivesUp nat
  | ClReceiverWaits
  | ClCancelled go_error
  | ClReturns "go_error option"
  | ClCloses
  | ClPanics go_panic

text \<open>
  What the two packages have in common. In the answer to a call that was made, \<^verbatim>\<open>er\<close> is nil. A send on
  a closed channel panics, in a \<^verbatim>\<open>select\<close> too; a panic in a goroutine ends the program.
\<close>

inductive cl_step :: "'r cl_run \<Rightarrow> 'r cl_event \<Rightarrow> 'r cl_run \<Rightarrow> bool" where
  cl_dial_fails: "i < length (clThreads r) \<Longrightarrow> clThreads r ! i = ClStart \<Longrightarrow>
    cl_step r (ClDialFails i er) (r\<lparr>clThreads := (clThreads r)[i := ClForced \<lparr>respVal = None, respErr = Some er\<rparr>]\<rparr>)"
| cl_invoked: "i < length (clThreads r) \<Longrightarrow> clThreads r ! i = ClStart \<Longrightarrow>
    cl_step r (ClInvoked i err newReply)
      (r\<lparr>clErr := err, clThreads := (clThreads r)[i := ClTrying \<lparr>respVal = Some newReply, respErr = None\<rparr>]\<rparr>)"
| cl_sent: "i < length (clThreads r) \<Longrightarrow> clThreads r ! i = ClForced resp \<or> clThreads r ! i = ClTrying resp \<Longrightarrow>
    \<not> clClosed r \<Longrightarrow> clWaiting r = Suc n \<Longrightarrow>
    cl_step r (ClSent i)
      (r\<lparr>clThreads := (clThreads r)[i := ClDone], clWaiting := n, clReceived := clReceived r @ [resp]\<rparr>)"
| cl_send_panics: "i < length (clThreads r) \<Longrightarrow> clThreads r ! i = ClForced resp \<or> clThreads r ! i = ClTrying resp \<Longrightarrow>
    clClosed r \<Longrightarrow> cl_step r (ClPanics SendOnClosed) (r\<lparr>clPanic := Some SendOnClosed\<rparr>)"
| cl_waits: "cl_step r ClReceiverWaits (r\<lparr>clWaiting := Suc (clWaiting r)\<rparr>)"
| cl_cancelled: "clCtxErr r = None \<Longrightarrow> cl_step r (ClCancelled e) (r\<lparr>clCtxErr := Some e\<rparr>)"

inductive_cases cl_stepE: "cl_step r e r'"

definition unheard_error :: "go_error \<Rightarrow> go_error" where
  "unheard_error e =
     TextError ([229, 147, 141, 229, 186, 148, 230, 178, 161, 230, 156, 137, 228, 186, 186, 230, 142, 165, 230, 148, 182]
       @ go_str '', '' @ error_text e)"

definition ba_start :: "lookup \<Rightarrow> 'r cl_run" where
  "ba_start found =
     (case found of
        Inl err \<Rightarrow>
          \<lparr>clThreads = [], clMain = MainSending \<lparr>respVal = None, respErr = Some err\<rparr>, clErr = Some err,
           clCtxErr = None, clWaiting = 0, clReceived = [], clClosed = False, clCloser = False, clPanic = None\<rparr>
      | Inr instances \<Rightarrow>
          \<lparr>clThreads = replicate (length instances) ClStart, clMain = MainRunning, clErr = None,
           clCtxErr = None, clWaiting = 0, clReceived = [], clClosed = False, clCloser = True, clPanic = None\<rparr>)"

inductive ba_step :: "'r cl_run \<Rightarrow> 'r cl_event \<Rightarrow> 'r cl_run \<Rightarrow> bool" where
  ba_common: "clPanic r = None \<Longrightarrow> cl_step r e r' \<Longrightarrow> ba_step r e r'"
| ba_lookup_sent: "clPanic r = None \<Longrightarrow> clMain r = MainSending resp \<Longrightarrow> \<not> clClosed r \<Longrightarrow> clWaiting r = Suc n \<Longrightarrow>
    ba_step r ClLookupSent (r\<lparr>clMain := MainReturned None, clWaiting := n, clReceived := clReceived r @ [resp]\<rparr>)"
| ba_lookup_panics: "clPanic r = None \<Longrightarrow> clMain r = MainSending resp \<Longrightarrow> clClosed r \<Longrightarrow>
    ba_step r (ClPanics SendOnClosed) (r\<lparr>clPanic := Some SendOnClosed\<rparr>)"
| ba_gives_up: "clPanic r = None \<Longrightarrow> i < length (clThreads r) \<Longrightarrow> clThreads r ! i = ClTrying resp \<Longrightarrow> clCtxErr r = Some e \<Longrightarrow>
    ba_step r (ClGivesUp i)
      (r\<lparr>clErr := Some (unheard_error e), clThreads := (clThreads r)[i := ClDone]\<rparr>)"
| ba_closes: "clPanic r = None \<Longrightarrow> clCloser r \<Longrightarrow> list_all (\<lambda>t. t = ClDone) (clThreads r) \<Longrightarrow> \<not> clClosed r \<Longrightarrow>
    ba_step r ClCloses (r\<lparr>clClosed := True, clCloser := False\<rparr>)"
| ba_close_panics: "clPanic r = None \<Longrightarrow> clCloser r \<Longrightarrow> list_all (\<lambda>t. t = ClDone) (clThreads r) \<Longrightarrow> clClosed r \<Longrightarrow>
    ba_step r (ClPanics CloseOfClosed) (r\<lparr>clPanic := Some CloseOfClosed\<rparr>)"
| ba_returns: "clPanic r = None \<Longrightarrow> clMain r = MainRunning \<Longrightarrow> ba_step r (ClReturns (clErr r)) (r\<lparr>clMain := MainReturned (clErr r)\<rparr>)"

definition fc_start :: "lookup \<Rightarrow> 'r cl_run" where
  "fc_start found =
     (case found of
        Inl err \<Rightarrow>
          \<lparr>clThreads = [], clMain = MainRunning, clErr = Some err,
           clCtxErr = None, clWaiting = 0, clReceived = [], clClosed = False, clCloser = False, clPanic = None\<rparr>
      | Inr instances \<Rightarrow>
          \<lparr>clThreads = replicate (length instances) ClStart, clMain = MainRunning, clErr = None,
           clCtxErr = None, clWaiting = 0, clReceived = [], clClosed = False, clCloser = False, clPanic = None\<rparr>)"

text \<open>The default is taken only when nobody waits; the interceptor waits for all and closes the channel.\<close>

inductive fc_step :: "'r cl_run \<Rightarrow> 'r cl_event \<Rightarrow> 'r cl_run \<Rightarrow> bool" where
  fc_common: "clPanic r = None \<Longrightarrow> cl_step r e r' \<Longrightarrow> fc_step r e r'"
| fc_drops: "clPanic r = None \<Longrightarrow> i < length (clThreads r) \<Longrightarrow> clThreads r ! i = ClTrying resp \<Longrightarrow>
    \<not> clClosed r \<Longrightarrow> clWaiting r = 0 \<Longrightarrow>
    fc_step r (ClGivesUp i) (r\<lparr>clThreads := (clThreads r)[i := ClDone]\<rparr>)"
| fc_close_panics: "clPanic r = None \<Longrightarrow> clMain r = MainRunning \<Longrightarrow> list_all (\<lambda>t. t = ClDone) (clThreads r) \<Longrightarrow>
    clClosed r \<Longrightarrow> fc_step r (ClPanics CloseOfClosed) (r\<lparr>clPanic := Some CloseOfClosed\<rparr>)"
| fc_returns: "clPanic r = None \<Longrightarrow> clMain r = MainRunning \<Longrightarrow> list_all (\<lambda>t. t = ClDone) (clThreads r) \<Longrightarrow>
    \<not> clClosed r \<Longrightarrow> fc_step r (ClReturns (clErr r)) (r\<lparr>clMain := MainReturned (clErr r), clClosed := True\<rparr>)"

section \<open>The interceptors\<close>

text \<open>
  The builders, which are the same in the three packages; \<open>'o\<close> is a dial option. A call whose context is not marked goes to the invoker
  directly, another is spread over the instances that a lookup gives. The state of a channel is that of its
  whole life: \<open>closed\<close> tells whether an earlier call with the same context has closed it.
\<close>

record ('d, 'o) cluster_builder =
  cbService :: go_string
  cbRegistry :: "'d etcd"
  cbDialOptions :: "'o list"

definition NewClusterBuilder :: "'d etcd \<Rightarrow> go_string \<Rightarrow> 'o list \<Rightarrow> ('d, 'o) cluster_builder" where
  "NewClusterBuilder r service dialOptions = \<lparr>cbService = service, cbRegistry = r, cbDialOptions = dialOptions\<rparr>"

definition lookup_of :: "('d, 'o) cluster_builder \<Rightarrow> 'd \<Rightarrow> lookup" where
  "lookup_of b d = ListServices (cbRegistry b) (cbService b) d"

datatype 'run intercepted = Direct | Spread 'run

definition bc_intercept :: "('d, 'o) cluster_builder \<Rightarrow> cluster_value option \<Rightarrow> 'd \<Rightarrow> 'r bc_run intercepted" where
  "bc_intercept b ctx d = (if \<not> isBroadCast ctx then Direct else Spread (bc_start (lookup_of b d)))"

definition ba_intercept ::
  "('d, 'o) cluster_builder \<Rightarrow> cluster_value option \<Rightarrow> (nat \<Rightarrow> bool) \<Rightarrow> 'd \<Rightarrow> 'r cl_run intercepted" where
  "ba_intercept b ctx closed d =
     (case isBroadCast_chan ctx of
        None \<Rightarrow> Direct
      | Some ch \<Rightarrow> Spread ((ba_start (lookup_of b d))\<lparr>clClosed := closed ch\<rparr>))"

definition fc_intercept ::
  "('d, 'o) cluster_builder \<Rightarrow> cluster_value option \<Rightarrow> (nat \<Rightarrow> bool) \<Rightarrow> 'd \<Rightarrow> 'r cl_run intercepted" where
  "fc_intercept b ctx closed d =
     (case isBroadCast_fastest ctx of
        None \<Rightarrow> Direct
      | Some ch \<Rightarrow> Spread ((fc_start (lookup_of b d))\<lparr>clClosed := closed ch\<rparr>))"

section \<open>Facts on broadcast\<close>

fun called_of :: "'r bc_event \<Rightarrow> nat list" where
  "called_of (BcDialFails i er) = [i]"
| "called_of (BcInvoked i err val) = [i]"
| "called_of _ = []"

fun outcome_of :: "'r bc_event \<Rightarrow> go_error list" where
  "outcome_of (BcDialFails i er) = [er]"
| "outcome_of (BcInvoked i (Some er) val) = [er]"
| "outcome_of _ = []"

text \<open>The instances called so far, and the errors they gave, in order.\<close>

definition bc_called :: "'r bc_event list \<Rightarrow> nat list" where
  "bc_called ls = concat (map called_of ls)"

definition bc_errors :: "'r bc_event list \<Rightarrow> go_error list" where
  "bc_errors ls = concat (map outcome_of ls)"

fun is_failed :: "bc_pc \<Rightarrow> bool" where
  "is_failed (BcCalled (Some er)) = True"
| "is_failed _ = False"

fun bc_pc_ok :: "go_error set \<Rightarrow> bc_pc \<Rightarrow> bool" where
  "bc_pc_ok es (BcCalled (Some er)) \<longleftrightarrow> er \<in> es"
| "bc_pc_ok es _ \<longleftrightarrow> True"

text \<open>Every error an instance gave is still with its goroutine or has been handed in.\<close>

definition bc_inv :: "nat \<Rightarrow> 'r bc_event list \<Rightarrow> 'r bc_run \<Rightarrow> bool" where
  "bc_inv n ls r \<longleftrightarrow>
     length (bcThreads r) = n
     \<and> distinct (bc_called ls) \<and> set (bc_called ls) = {i. i < n \<and> bcThreads r ! i \<noteq> BcStart}
     \<and> length (bc_errors ls) = length (filter is_failed (bcThreads r)) + length (filter (\<lambda>x. x \<noteq> None) (bcResults r))
     \<and> list_all (bc_pc_ok (set (bc_errors ls))) (bcThreads r)
     \<and> list_all (\<lambda>x. set_option x \<subseteq> set (bc_errors ls)) (bcResults r)"

lemma bc_snoc [simp]:
  "bc_called (ls @ [e]) = bc_called ls @ called_of e" "bc_errors (ls @ [e]) = bc_errors ls @ outcome_of e"
  "bc_called [] = []" "bc_errors [] = []"
  by (simp_all add: bc_called_def bc_errors_def)

lemma bc_pc_ok_mono: "es \<subseteq> es' \<Longrightarrow> list_all (bc_pc_ok es) ts \<Longrightarrow> list_all (bc_pc_ok es') ts"
proof -
  assume "es \<subseteq> es'"
  then have "bc_pc_ok es t \<Longrightarrow> bc_pc_ok es' t" for t by (cases "(es, t)" rule: bc_pc_ok.cases) auto
  then show "list_all (bc_pc_ok es) ts \<Longrightarrow> list_all (bc_pc_ok es') ts" by (simp add: list_all_iff)
qed

lemma bc_call_step:
  assumes "bc_inv n ls r" and "i < n" and "bcThreads r ! i = BcStart"
    and "called_of e = [i]" and "outcome_of e = (case err of None \<Rightarrow> [] | Some er \<Rightarrow> [er])"
    and "bcThreads r' = (bcThreads r)[i := BcCalled err]" and "bcResults r' = bcResults r"
  shows "bc_inv n (ls @ [e]) r'"
proof -
  have "list_all (bc_pc_ok (set (bc_errors (ls @ [e])))) ((bcThreads r)[i := BcCalled err])"
    using assms(1,5) bc_pc_ok_mono [of "set (bc_errors ls)" "set (bc_errors (ls @ [e]))" "bcThreads r"]
    by (intro list_all_update) (auto simp: bc_inv_def split: option.splits)
  moreover have "list_all (\<lambda>x. set_option x \<subseteq> set (bc_errors (ls @ [e]))) (bcResults r)"
    using assms(1,5) by (auto simp: bc_inv_def list_all_iff)
  ultimately show ?thesis using assms length_filter_update [of i "bcThreads r" is_failed "BcCalled err"]
    by (cases err) (auto simp: bc_inv_def nth_list_update)
qed

lemma bc_inv_step:
  assumes "bc_inv n ls r" and "bc_step wait r e r'"
  shows "bc_inv n (ls @ [e]) r'"
  using assms(2)
proof cases
  case (bc_dial_fails i er)
  then show ?thesis using assms(1) by (intro bc_call_step [where i = i and err = "Some er"]) (simp_all add: bc_inv_def)
next
  case (bc_invoked i err val)
  then show ?thesis using assms(1)
    by (intro bc_call_step [where i = i and err = err]) (auto simp: bc_inv_def split: option.splits)
next
  case (bc_finishes i err)
  have "list_all (bc_pc_ok (set (bc_errors ls))) (bcThreads r)" using assms(1) by (simp add: bc_inv_def)
  then have "bc_pc_ok (set (bc_errors ls)) (bcThreads r ! i)" using bc_finishes(3) by (simp only: list_all_length)
  then have "bc_pc_ok (set (bc_errors ls)) (BcCalled err)" unfolding bc_finishes(4) .
  have ok: "list_all (bc_pc_ok (set (bc_errors ls))) ((bcThreads r)[i := BcDone])"
    using assms(1) by (intro list_all_update) (simp_all add: bc_inv_def)
  have called: "{j. j < n \<and> (bcThreads r)[i := BcDone] ! j \<noteq> BcStart} = {j. j < n \<and> bcThreads r ! j \<noteq> BcStart}"
    by (rule Collect_cong) (auto simp: nth_list_update [OF bc_finishes(3)] bc_finishes(4))
  have failed: "length (filter is_failed ((bcThreads r)[i := BcDone])) + (if is_failed (BcCalled err) then 1 else 0)
      = length (filter is_failed (bcThreads r))"
    using length_filter_update [OF bc_finishes(3), of is_failed BcDone] bc_finishes(4) by simp
  show ?thesis
    using assms(1) bc_finishes ok called failed \<open>bc_pc_ok (set (bc_errors ls)) (BcCalled err)\<close>
    by (cases err) (simp_all add: bc_inv_def)
next
  case bc_returns
  then show ?thesis using assms(1) by (auto simp: bc_inv_def)
qed

lemma bc_trace_inv:
  assumes "trace (bc_step wait) (bc_start (Inr instances)) ls r"
  shows "bc_inv (length instances) ls r"
  using assms
proof (rule trace_invariant [where P = "bc_inv (length instances)"])
  show "bc_inv (length instances) [] (bc_start (Inr instances))"
    by (simp add: bc_start_def bc_inv_def list_all_iff)
qed (rule bc_inv_step)

section \<open>Facts on the channels\<close>

fun is_dial_failure :: "'r cl_event \<Rightarrow> bool" where
  "is_dial_failure (ClDialFails i er) = True"
| "is_dial_failure _ = False"

fun is_wait :: "'r cl_event \<Rightarrow> bool" where
  "is_wait ClReceiverWaits = True"
| "is_wait _ = False"

fun is_give_up :: "'r cl_event \<Rightarrow> bool" where
  "is_give_up (ClGivesUp i) = True"
| "is_give_up _ = False"

fun is_forced :: "'r cl_pc \<Rightarrow> bool" where
  "is_forced (ClForced resp) = True"
| "is_forced _ = False"

fun cl_pc_ok :: "'r cl_event list \<Rightarrow> 'r cl_pc \<Rightarrow> bool" where
  "cl_pc_ok ls (ClForced resp) \<longleftrightarrow> (\<exists>i er. respErr resp = Some er \<and> ClDialFails i er \<in> set ls)"
| "cl_pc_ok ls (ClTrying resp) \<longleftrightarrow> respErr resp = None"
| "cl_pc_ok ls _ \<longleftrightarrow> True"

definition resp_ok :: "'r cl_event list \<Rightarrow> 'r resp \<Rightarrow> bool" where
  "resp_ok ls resp \<longleftrightarrow> (\<forall>er. respErr resp = Some er \<longrightarrow> (\<exists>i. ClDialFails i er \<in> set ls))"

definition cl_inv :: "'r cl_event list \<Rightarrow> 'r cl_run \<Rightarrow> bool" where
  "cl_inv ls r \<longleftrightarrow>
     length (clReceived r) + clWaiting r = length (filter is_wait ls)
     \<and> length (filter (\<lambda>x. respErr x \<noteq> None) (clReceived r)) + length (filter is_forced (clThreads r))
         = length (filter is_dial_failure ls)
     \<and> length (clReceived r) + length (filter is_give_up ls) = length (filter (\<lambda>t. t = ClDone) (clThreads r))
     \<and> list_all (cl_pc_ok ls) (clThreads r)
     \<and> list_all (resp_ok ls) (clReceived r)"

lemma cl_pc_ok_mono: "list_all (cl_pc_ok ls) ts \<Longrightarrow> list_all (cl_pc_ok (ls @ [e])) ts"
proof -
  have "cl_pc_ok ls t \<Longrightarrow> cl_pc_ok (ls @ [e]) t" for t by (cases t) auto
  then show "list_all (cl_pc_ok ls) ts \<Longrightarrow> list_all (cl_pc_ok (ls @ [e])) ts" by (simp add: list_all_iff)
qed

lemma resp_ok_mono: "list_all (resp_ok ls) rs \<Longrightarrow> list_all (resp_ok (ls @ [e])) rs"
  by (fastforce simp: list_all_iff resp_ok_def)

lemma cl_inv_update:
  assumes inv: "cl_inv ls r" and i: "i < length (clThreads r)" "clThreads r ! i \<noteq> ClDone"
    and pc: "cl_pc_ok (ls @ [e]) t" and recv: "list_all (resp_ok (ls @ [e])) rs"
    and r': "clThreads r' = (clThreads r)[i := t]" "clReceived r' = clReceived r @ rs"
      "clWaiting r = clWaiting r' + length rs"
    and "\<not> is_wait e"
    and "(if is_forced (clThreads r ! i) then 1 else 0) + (if is_dial_failure e then 1 else 0)
      = length (filter (\<lambda>x. respErr x \<noteq> None) rs) + (if is_forced t then 1 else 0)"
    and "length rs + (if is_give_up e then 1 else 0) = (if t = ClDone then 1 else 0)"
  shows "cl_inv (ls @ [e]) r'"
proof -
  have "list_all (cl_pc_ok (ls @ [e])) (clThreads r')" "list_all (resp_ok (ls @ [e])) (clReceived r')"
    using inv pc recv r'(1,2) cl_pc_ok_mono [of ls "clThreads r" e] resp_ok_mono [of ls "clReceived r" e]
    by (auto simp: cl_inv_def intro: list_all_update)
  moreover have "length (filter is_forced (clThreads r')) + (if is_forced (clThreads r ! i) then 1 else 0)
      = length (filter is_forced (clThreads r)) + (if is_forced t then 1 else 0)"
    using length_filter_update [OF i(1), of is_forced t] r'(1) by simp
  moreover have "length (filter (\<lambda>t. t = ClDone) (clThreads r'))
      = length (filter (\<lambda>t. t = ClDone) (clThreads r)) + (if t = ClDone then 1 else 0)"
    using length_filter_update [OF i(1), of "\<lambda>t. t = ClDone" t] i(2) r'(1) by simp
  ultimately show ?thesis using inv r'(2,3) assms(9-11) unfolding cl_inv_def by (auto split: if_splits)
qed

lemma cl_inv_frame:
  assumes "cl_inv ls r" and "clThreads r' = clThreads r" and "clReceived r' = clReceived r"
    and "clWaiting r' = clWaiting r + (if is_wait e then 1 else 0)"
    and "\<not> is_dial_failure e" and "\<not> is_give_up e"
  shows "cl_inv (ls @ [e]) r'"
  using assms cl_pc_ok_mono [of ls "clThreads r" e] resp_ok_mono [of ls "clReceived r" e]
  by (simp add: cl_inv_def)

lemma cl_inv_at: "cl_inv ls r \<Longrightarrow> i < length (clThreads r) \<Longrightarrow> cl_pc_ok ls (clThreads r ! i)"
  by (simp add: cl_inv_def list_all_length)

lemma cl_inv_step:
  assumes inv: "cl_inv ls r" and "cl_step r e r'"
  shows "cl_inv (ls @ [e]) r'"
  using assms(2)
proof cases
  case (cl_dial_fails i er)
  then show ?thesis
    by (intro cl_inv_update [OF inv, where i = i and rs = "[]"
        and t = "ClForced \<lparr>respVal = None, respErr = Some er\<rparr>"]) auto
next
  case (cl_invoked i err v)
  then show ?thesis
    by (intro cl_inv_update [OF inv, where i = i and rs = "[]"
        and t = "ClTrying \<lparr>respVal = Some v, respErr = None\<rparr>"]) auto
next
  case (cl_sent i resp n)
  then show ?thesis using cl_inv_at [OF inv cl_sent(3)]
    by (intro cl_inv_update [OF inv, where i = i and rs = "[resp]" and t = ClDone]) (auto simp: resp_ok_def)
qed (intro cl_inv_frame [OF inv]; simp)+

lemma cl_step_frame:
  "cl_step r e r' \<Longrightarrow> clMain r' = clMain r \<and> clCloser r' = clCloser r \<and> clClosed r' = clClosed r
     \<and> length (clThreads r') = length (clThreads r) \<and> \<not> is_give_up e \<and> (clCtxErr r' = None \<longrightarrow> clCtxErr r = None)"
  by (erule cl_stepE) auto

definition all_done :: "'r cl_run \<Rightarrow> bool" where
  "all_done r \<longleftrightarrow> list_all (\<lambda>t. t = ClDone) (clThreads r)"

lemma cl_step_all_done: "cl_step r e r' \<Longrightarrow> all_done r \<Longrightarrow> all_done r'"
  by (erule cl_stepE) (auto simp: all_done_def list_all_length)

lemma all_done_counts:
  assumes "all_done r"
  shows "filter is_forced (clThreads r) = []"
    and "length (filter (\<lambda>t. t = ClDone) (clThreads r)) = length (clThreads r)"
proof -
  show "filter is_forced (clThreads r) = []"
    using assms by (auto simp: all_done_def list_all_iff filter_empty_conv)
  show "length (filter (\<lambda>t. t = ClDone) (clThreads r)) = length (clThreads r)"
    using assms by (simp add: all_done_def list_all_iff)
qed

section \<open>Every answer on a channel\<close>

definition ba_inv :: "nat \<Rightarrow> 'r cl_event list \<Rightarrow> 'r cl_run \<Rightarrow> bool" where
  "ba_inv n ls r \<longleftrightarrow>
     cl_inv ls r \<and> (\<forall>resp. clMain r \<noteq> MainSending resp) \<and> length (clThreads r) = n
     \<and> (clClosed r \<longrightarrow> all_done r) \<and> (clCtxErr r = None \<longrightarrow> filter is_give_up ls = [])"

lemma ba_inv_step:
  assumes inv: "ba_inv n ls r" and "ba_step r e r'"
  shows "ba_inv n (ls @ [e]) r'"
proof -
  have cl: "cl_inv ls r" using inv by (simp add: ba_inv_def)
  from assms(2) show ?thesis
  proof cases
    case ba_common
    then show ?thesis
      using inv cl_inv_step [OF cl ba_common(2)] cl_step_frame [OF ba_common(2)] cl_step_all_done [OF ba_common(2)]
      by (simp add: ba_inv_def)
  next
    case (ba_gives_up i resp err)
    then have "cl_inv (ls @ [e]) r'"
      by (intro cl_inv_update [OF cl, where i = i and rs = "[]" and t = ClDone]) auto
    moreover have "\<not> all_done r" using ba_gives_up(4,5) by (auto simp: all_done_def list_all_length)
    ultimately show ?thesis using inv ba_gives_up by (auto simp: ba_inv_def)
  next
    case ba_closes
    then have "cl_inv (ls @ [e]) r'" by (intro cl_inv_frame [OF cl]) simp_all
    then show ?thesis using inv ba_closes by (simp add: ba_inv_def all_done_def)
  next
    case (ba_lookup_panics resp)
    then show ?thesis using inv by (simp add: ba_inv_def)
  next
    case ba_close_panics
    then have "cl_inv (ls @ [e]) r'" by (intro cl_inv_frame [OF cl]) simp_all
    then show ?thesis using inv ba_close_panics by (simp add: ba_inv_def all_done_def)
  next
    case ba_returns
    then have "cl_inv (ls @ [e]) r'" by (intro cl_inv_frame [OF cl]) simp_all
    then show ?thesis using inv ba_returns by (simp add: ba_inv_def all_done_def)
  qed (use inv in \<open>simp add: ba_inv_def\<close>)
qed

lemma ba_trace_inv:
  assumes "trace ba_step (ba_start (Inr instances)) ls r"
  shows "ba_inv (length instances) ls r"
  using assms
proof (rule trace_invariant [where P = "ba_inv (length instances)"])
  show "ba_inv (length instances) [] (ba_start (Inr instances))"
    by (simp add: ba_start_def ba_inv_def cl_inv_def list_all_iff)
qed (rule ba_inv_step)

section \<open>The fastest answer\<close>

definition fc_inv :: "nat \<Rightarrow> 'r cl_event list \<Rightarrow> 'r cl_run \<Rightarrow> bool" where
  "fc_inv n ls r \<longleftrightarrow>
     cl_inv ls r \<and> length (clThreads r) = n \<and> (\<forall>resp. clMain r \<noteq> MainSending resp)
     \<and> (clMain r \<noteq> MainRunning \<longrightarrow> all_done r) \<and> (clClosed r \<longleftrightarrow> clMain r \<noteq> MainRunning)"

lemma fc_inv_step:
  assumes inv: "fc_inv n ls r" and "fc_step r e r'"
  shows "fc_inv n (ls @ [e]) r'"
proof -
  have cl: "cl_inv ls r" using inv by (simp add: fc_inv_def)
  from assms(2) show ?thesis
  proof cases
    case fc_common
    then show ?thesis
      using inv cl_inv_step [OF cl fc_common(2)] cl_step_frame [OF fc_common(2)] cl_step_all_done [OF fc_common(2)]
      by (simp add: fc_inv_def)
  next
    case (fc_drops i resp)
    then have "cl_inv (ls @ [e]) r'"
      by (intro cl_inv_update [OF cl, where i = i and rs = "[]" and t = ClDone]) auto
    moreover have "\<not> all_done r" using fc_drops(4,5) by (auto simp: all_done_def list_all_length)
    ultimately show ?thesis using inv fc_drops by (auto simp: fc_inv_def)
  next
    case fc_close_panics
    then show ?thesis using inv by (simp add: fc_inv_def)
  next
    case fc_returns
    then have "cl_inv (ls @ [e]) r'" by (intro cl_inv_frame [OF cl]) simp_all
    then show ?thesis using inv fc_returns by (simp add: fc_inv_def all_done_def)
  qed
qed

lemma fc_trace_inv:
  assumes "trace fc_step (fc_start (Inr instances)) ls r"
  shows "fc_inv (length instances) ls r"
  using assms
proof (rule trace_invariant [where P = "fc_inv (length instances)"])
  show "fc_inv (length instances) [] (fc_start (Inr instances))"
    by (simp add: fc_start_def fc_inv_def cl_inv_def list_all_iff)
qed (rule fc_inv_step)

lemma ba_lookup_inv:
  assumes "trace ba_step (ba_start (Inl err)) ls r"
  shows "clThreads r = [] \<and> \<not> clCloser r \<and> \<not> clClosed r"
  using assms
proof (rule trace_invariant [where P = "\<lambda>ls r. clThreads r = [] \<and> \<not> clCloser r \<and> \<not> clClosed r"])
  show "clThreads (ba_start (Inl err)) = [] \<and> \<not> clCloser (ba_start (Inl err)) \<and> \<not> clClosed (ba_start (Inl err))"
    by (simp add: ba_start_def)
next
  fix t u :: "'a cl_run" and e
  assume t: "clThreads t = [] \<and> \<not> clCloser t \<and> \<not> clClosed t" and "ba_step t e u"
  from this(2) show "clThreads u = [] \<and> \<not> clCloser u \<and> \<not> clClosed u"
  proof cases
    case ba_common
    then show ?thesis using t cl_step_frame [OF ba_common(2)] by simp
  qed (use t in simp_all)
qed

lemma bc_returned:
  assumes "errgroup_laws wait" and "trace (bc_step wait) (bc_start (Inr instances)) (ls @ [BcReturns res]) r"
  shows "distinct (bc_called ls) \<and> set (bc_called ls) = {..<length instances}
    \<and> (res = None \<longleftrightarrow> bc_errors ls = []) \<and> set_option res \<subseteq> set (bc_errors ls)"
proof -
  obtain t where t: "trace (bc_step wait) (bc_start (Inr instances)) ls t" "bc_step wait t (BcReturns res) r"
    using assms(2) by (rule trace_lastE)
  then have ret: "list_all (\<lambda>x. x = BcDone) (bcThreads t)" "wait (bcResults t) = res" by (auto elim: bc_step.cases)
  have wait: "res = None \<longleftrightarrow> list_all (\<lambda>x. x = None) (bcResults t)" "\<And>er. res = Some er \<Longrightarrow> Some er \<in> set (bcResults t)"
    using assms(1) ret(2) by (auto simp: errgroup_laws_def)
  have none: "filter is_failed (bcThreads t) = []" using ret(1) by (auto simp: list_all_iff filter_empty_conv)
  have inv: "bc_inv (length instances) ls t" by (rule bc_trace_inv [OF t(1)])
  have "set (bc_called ls) = {..<length instances}"
    using inv ret(1) by (auto simp: bc_inv_def list_all_length)
  moreover have "length (bc_errors ls) = length (filter (\<lambda>x. x \<noteq> None) (bcResults t))"
    using inv none by (simp add: bc_inv_def)
  then have "bc_errors ls = [] \<longleftrightarrow> res = None"
    using wait(1) length_0_conv [of "bc_errors ls"] length_0_conv [of "filter (\<lambda>x. x \<noteq> None) (bcResults t)"]
    by (auto simp: filter_empty_conv list_all_iff)
  moreover have "set_option res \<subseteq> set (bc_errors ls)"
    using wait(2) inv by (cases res) (auto simp: bc_inv_def list_all_iff)
  ultimately show ?thesis using inv by (simp add: bc_inv_def)
qed

section \<open>Properties\<close>

text \<open>
  A broadcast that returns has called every instance exactly once, and whatever fails stops none of
  the calls: it returns no error exactly when none of them gave one, and else the error of one of them.
\<close>

theorem broadcast_calls_all:
  assumes "errgroup_laws wait" and "trace (bc_step wait) (bc_start (Inr instances)) (ls @ [BcReturns res]) r"
  shows "distinct (bc_called ls) \<and> set (bc_called ls) = {..<length instances}
    \<and> (res = None \<longleftrightarrow> bc_errors ls = []) \<and> set_option res \<subseteq> set (bc_errors ls)"
  using assms by (rule bc_returned)

text \<open>The first error, if there is one.\<close>

fun first_error :: "go_error option list \<Rightarrow> go_error option" where
  "first_error [] = None"
| "first_error (None # rs) = first_error rs"
| "first_error (Some er # rs) = Some er"

lemma first_error_laws: "errgroup_laws first_error"
proof -
  have "(first_error rs = None \<longleftrightarrow> list_all (\<lambda>r. r = None) rs) \<and> (\<forall>er. first_error rs = Some er \<longrightarrow> Some er \<in> set rs)" for rs
    by (induction rs rule: first_error.induct) auto
  then show ?thesis by (simp add: errgroup_laws_def)
qed

theorem broadcast_calls_all_witness:
  "set (bc_called [BcInvoked 0 None (Some (7 :: nat)), BcFinishes 0 None]) = {..<length [zero_instance]}"
proof -
  let ?s = "bc_start (Inr [zero_instance]) :: nat bc_run"
  let ?t = "?s\<lparr>bcThreads := [BcDone], bcReply := Some 7, bcResults := [None]\<rparr>"
  have a: "bc_step first_error ?s (BcInvoked 0 None (Some 7)) (?s\<lparr>bcThreads := [BcCalled None], bcReply := Some 7\<rparr>)"
    using bc_invoked [of 0 ?s first_error None "Some 7"] by (simp add: bc_start_def)
  have b: "bc_step first_error (?s\<lparr>bcThreads := [BcCalled None], bcReply := Some 7\<rparr>) (BcFinishes 0 None) ?t"
    using bc_finishes [of 0 "?s\<lparr>bcThreads := [BcCalled None], bcReply := Some 7\<rparr>" None first_error]
    by (simp add: bc_start_def)
  have c: "bc_step first_error ?t (BcReturns None) (?t\<lparr>bcReturned := Some None\<rparr>)"
    using bc_returns [of ?t first_error] by (simp add: bc_start_def)
  have "trace (bc_step first_error) ?s ([BcInvoked 0 None (Some 7), BcFinishes 0 None] @ [BcReturns None]) (?t\<lparr>bcReturned := Some None\<rparr>)"
    using trace_Cons [where step = "bc_step first_error", OF a trace_Cons [where step = "bc_step first_error", OF b trace_one [where step = "bc_step first_error", OF c]]]
    by simp
  from broadcast_calls_all [OF first_error_laws this] show ?thesis by simp
qed


text \<open>
  When \<^verbatim>\<open>broadcastall\<close> has closed its channel and the context was not done, the receiver got exactly
  one answer for each instance.
\<close>

theorem every_instance_answers:
  assumes "trace ba_step (ba_start (Inr instances)) ls r" and "clClosed r" and "clCtxErr r = None"
  shows "length (clReceived r) = length instances"
proof -
  have inv: "ba_inv (length instances) ls r" by (rule ba_trace_inv [OF assms(1)])
  then have "all_done r" "filter is_give_up ls = []" using assms(2,3) by (simp_all add: ba_inv_def)
  then show ?thesis using inv all_done_counts(2) [of r] by (simp add: ba_inv_def cl_inv_def)
qed

text \<open>
  When the lookup fails, \<^verbatim>\<open>broadcastall\<close> never closes its channel: a receiver that ranges over it waits
  for ever after the one answer with the error.
\<close>

theorem lookup_failure_never_closes:
  assumes "trace ba_step (ba_start (Inl err)) ls r"
  shows "\<not> clClosed r"
  using ba_lookup_inv [OF assms] by simp

text \<open>
  A call of \<^verbatim>\<open>fastest\<close> can return only if at least as many receives were made during it as
  instances could not be dialed, since those answers are sent unconditionally; and without a receive
  during the call nothing is delivered.
\<close>

theorem fastest_needs_receivers:
  assumes "trace fc_step (fc_start (Inr instances)) ls r" and "clMain r \<noteq> MainRunning"
  shows "length (filter is_dial_failure ls) \<le> length (filter is_wait ls)
    \<and> length (clReceived r) \<le> length (filter is_wait ls)"
proof -
  have inv: "fc_inv (length instances) ls r" by (rule fc_trace_inv [OF assms(1)])
  then have "filter is_forced (clThreads r) = []"
    using assms(2) all_done_counts(1) [of r] by (simp add: fc_inv_def)
  then have "length (filter is_dial_failure ls) \<le> length (clReceived r)"
    using inv length_filter_le [of "\<lambda>x. respErr x \<noteq> None" "clReceived r"] by (simp add: fc_inv_def cl_inv_def)
  then show ?thesis using inv by (simp add: fc_inv_def cl_inv_def)
qed

section \<open>Runs of the two packages\<close>

abbreviation one_call :: "(lookup \<Rightarrow> nat cl_run) \<Rightarrow> nat cl_run" where
  "one_call start \<equiv> start (Inr [zero_instance])"

abbreviation answered :: "nat cl_run \<Rightarrow> nat cl_run" where
  "answered s \<equiv> s\<lparr>clErr := Some CtxCanceled, clThreads := [ClDone], clReceived := [\<lparr>respVal = Some 0, respErr = None\<rparr>]\<rparr>"

abbreviation answer_run :: "nat cl_event list" where
  "answer_run \<equiv> [ClReceiverWaits, ClInvoked 0 (Some CtxCanceled) 0, ClSent 0]"

lemma answer_trace:
  assumes "\<And>r e r'. clPanic r = None \<Longrightarrow> cl_step r e r' \<Longrightarrow> step r e r'"
    and s: "clThreads s = [ClStart]" "clWaiting s = 0" "clReceived s = []" "\<not> clClosed s" "clPanic s = None"
  shows "trace step s answer_run
    (s\<lparr>clErr := Some CtxCanceled, clThreads := [ClDone], clWaiting := 0, clReceived := [\<lparr>respVal = Some 0, respErr = None\<rparr>]\<rparr>)"
proof -
  let ?a = "s\<lparr>clWaiting := 1\<rparr>"
  let ?b = "s\<lparr>clWaiting := 1, clErr := Some CtxCanceled, clThreads := [ClTrying \<lparr>respVal = Some 0, respErr = None\<rparr>]\<rparr>"
  have "cl_step s ClReceiverWaits ?a" using cl_waits [of s] s by simp
  moreover have "cl_step ?a (ClInvoked 0 (Some CtxCanceled) 0) ?b"
    using cl_invoked [of 0 ?a "Some CtxCanceled" 0] s by simp
  moreover have "cl_step ?b (ClSent 0)
      (s\<lparr>clErr := Some CtxCanceled, clThreads := [ClDone], clWaiting := 0, clReceived := [\<lparr>respVal = Some 0, respErr = None\<rparr>]\<rparr>)"
    using cl_sent [of 0 ?b "\<lparr>respVal = Some 0, respErr = None\<rparr>" 0] s by simp
  ultimately show ?thesis
    using s(5) by (intro trace_Cons [where step = step, OF assms(1)] trace_one [where step = step, OF assms(1)]) simp_all
qed

lemma answer_trace_ba: "trace ba_step (one_call ba_start) answer_run (answered (one_call ba_start))"
  using answer_trace [of ba_step "one_call ba_start"] by (simp add: ba_common ba_start_def)

lemma answer_trace_fc: "trace fc_step (one_call fc_start) answer_run (answered (one_call fc_start))"
  using answer_trace [of fc_step "one_call fc_start"] by (simp add: fc_common fc_start_def)


theorem every_instance_answers_witness:
  "length (clReceived ((answered (one_call ba_start))\<lparr>clClosed := True, clCloser := False\<rparr>)) = length [zero_instance]"
proof (rule every_instance_answers)
  have "ba_step (answered (one_call ba_start)) ClCloses ((answered (one_call ba_start))\<lparr>clClosed := True, clCloser := False\<rparr>)"
    by (rule ba_closes) (simp_all add: ba_start_def)
  then show "trace ba_step (one_call ba_start) (answer_run @ [ClCloses]) ((answered (one_call ba_start))\<lparr>clClosed := True, clCloser := False\<rparr>)"
    by (rule trace_snoc [where step = ba_step, OF answer_trace_ba])
qed (simp_all add: ba_start_def)

theorem lookup_failure_never_closes_witness:
  "\<not> clClosed ((ba_start (Inl CtxCanceled) :: nat cl_run)\<lparr>clWaiting := 1\<rparr>)"
proof (rule lookup_failure_never_closes)
  show "trace ba_step (ba_start (Inl CtxCanceled)) [ClReceiverWaits] ((ba_start (Inl CtxCanceled) :: nat cl_run)\<lparr>clWaiting := 1\<rparr>)"
    using trace_one [where step = ba_step, OF ba_common [OF _ cl_waits [of "ba_start (Inl CtxCanceled) :: nat cl_run"]]]
    by (simp add: ba_start_def)
qed

theorem fastest_needs_receivers_witness:
  "length (filter is_dial_failure (answer_run @ [ClReturns (Some CtxCanceled)]))
     \<le> length (filter is_wait (answer_run @ [ClReturns (Some CtxCanceled)]))"
proof -
  let ?r = "answered (one_call fc_start)"
  have "fc_step ?r (ClReturns (Some CtxCanceled)) (?r\<lparr>clMain := MainReturned (Some CtxCanceled), clClosed := True\<rparr>)"
    using fc_returns [of ?r] by (simp add: fc_start_def)
  from trace_snoc [where step = fc_step, OF answer_trace_fc this]
  have "trace fc_step (one_call fc_start) (answer_run @ [ClReturns (Some CtxCanceled)])
      (?r\<lparr>clMain := MainReturned (Some CtxCanceled), clClosed := True\<rparr>)" .
  from fastest_needs_receivers [OF this] show ?thesis by simp
qed

section \<open>A context for one call\<close>

definition reused_inv :: "'r cl_run \<Rightarrow> bool" where
  "reused_inv r \<longleftrightarrow> clClosed r \<and> clReceived r = [] \<and> list_all (\<lambda>t. t \<noteq> ClDone) (clThreads r)"

lemma reused_cl_step:
  assumes "cl_step r e r'" and "reused_inv r"
  shows "reused_inv r' \<and> (\<forall>res. e \<noteq> ClReturns res)"
  using assms(1)
proof cases
  case (cl_dial_fails i er)
  then show ?thesis using assms(2) by (auto simp: reused_inv_def intro: list_all_update)
next
  case (cl_invoked i err v)
  then show ?thesis using assms(2) by (auto simp: reused_inv_def intro: list_all_update)
qed (use assms(2) in \<open>auto simp: reused_inv_def\<close>)

lemma reused_fc_step:
  assumes "fc_step r e r'" and "reused_inv r"
  shows "reused_inv r' \<and> (\<forall>res. e \<noteq> ClReturns res)"
  using assms(1)
proof cases
  case fc_common
  then show ?thesis using reused_cl_step assms(2) by blast
qed (use assms(2) in \<open>auto simp: reused_inv_def\<close>)

lemma list_all_nth_cases: "(\<exists>i < length xs. P (xs ! i)) \<or> list_all (\<lambda>x. \<not> P x) xs"
  by (auto simp: list_all_length)

text \<open>When nothing is left to do but to send or to close, there is only the panic.\<close>

lemma reused_fc_progress:
  assumes "reused_inv r" and "clMain r = MainRunning" and "clPanic r = None"
  shows "(\<exists>i < length (clThreads r). clThreads r ! i = ClStart) \<or> (\<exists>p r'. fc_step r (ClPanics p) r')"
proof (cases "\<exists>i < length (clThreads r). clThreads r ! i = ClStart")
  case False
  show ?thesis
  proof (cases "clThreads r")
    case Nil
    then have "fc_step r (ClPanics CloseOfClosed) (r\<lparr>clPanic := Some CloseOfClosed\<rparr>)"
      using assms by (intro fc_close_panics) (auto simp: reused_inv_def)
    then show ?thesis by blast
  next
    case (Cons t ts)
    then have "t \<noteq> ClStart" "t \<noteq> ClDone" using False assms(1) by (auto simp: reused_inv_def)
    then obtain resp where "clThreads r ! 0 = ClForced resp \<or> clThreads r ! 0 = ClTrying resp"
      using Cons by (cases t) auto
    then have "cl_step r (ClPanics SendOnClosed) (r\<lparr>clPanic := Some SendOnClosed\<rparr>)"
      using assms(1) Cons by (intro cl_send_panics [of 0 r resp]) (auto simp: reused_inv_def)
    then show ?thesis using fc_common [OF assms(3)] by blast
  qed
qed simp

text \<open>
  A context that \<^verbatim>\<open>UsingBroadCast\<close> of \<^verbatim>\<open>fastest\<close> has marked serves one call: the first one closes the channel in it, so
  a second call with it never returns, delivers nothing, and once every instance has been dialed it can only
  panic.
\<close>

theorem reused_context_panics:
  fixes s r :: "'r cl_run"
  assumes "fc_intercept b (UsingBroadCast_fastest ch) closed d = Spread s" and "closed ch"
    and "trace fc_step s ls r"
  shows "clReceived r = [] \<and> (\<forall>res. ClReturns res \<notin> set ls)
    \<and> (clPanic r \<noteq> None \<or> (\<exists>i < length (clThreads r). clThreads r ! i = ClStart) \<or> (\<exists>p r'. fc_step r (ClPanics p) r'))"
proof -
  have s: "reused_inv s" "clMain s = MainRunning"
    using assms(1,2)
    by (auto simp: fc_intercept_def UsingBroadCast_fastest_def fc_start_def reused_inv_def list_all_iff split: sum.splits)
  from assms(3) have "reused_inv r \<and> clMain r = MainRunning \<and> (\<forall>res. ClReturns res \<notin> set ls)"
  proof (rule trace_invariant [where P = "\<lambda>ls r. reused_inv r \<and> clMain r = MainRunning \<and> (\<forall>res. ClReturns res \<notin> set ls)"])
    fix ls :: "'r cl_event list" and t u :: "'r cl_run" and e
    assume t: "reused_inv t \<and> clMain t = MainRunning \<and> (\<forall>res. ClReturns res \<notin> set ls)" and step: "fc_step t e u"
    from step have "clMain u = MainRunning"
    proof cases
      case fc_common
      then show ?thesis using cl_step_frame t by metis
    qed (use t in \<open>auto simp: reused_inv_def\<close>)
    then show "reused_inv u \<and> clMain u = MainRunning \<and> (\<forall>res. ClReturns res \<notin> set (ls @ [e]))"
      using t reused_fc_step [OF step] by auto
  qed (use s in simp)
  then show ?thesis using reused_fc_progress [of r] by (auto simp: reused_inv_def)
qed

theorem reused_context_panics_witness:
  "\<exists>p r'. fc_step ((fc_start (Inl CtxCanceled) :: nat cl_run)\<lparr>clClosed := True\<rparr>) (ClPanics p) r'"
proof -
  let ?e = "memory_etcd\<lparr>etGetPrefix := \<lambda>p d. Inl CtxCanceled\<rparr>"
  let ?s = "(fc_start (Inl CtxCanceled) :: nat cl_run)\<lparr>clClosed := True\<rparr>"
  have "fc_intercept (NewClusterBuilder ?e [97] ([] :: nat list)) (UsingBroadCast_fastest 0) (\<lambda>ch. True) [] = Spread ?s"
    by (simp add: fc_intercept_def UsingBroadCast_fastest_def lookup_of_def NewClusterBuilder_def ListServices_def)
  from reused_context_panics [OF this _ trace_Nil] show ?thesis by (simp add: fc_start_def)
qed

end
