(* ===== verification/Clock.thy ===== *)
theory Clock
  imports Errs
begin

text \<open>
  The clock and the atomic duration that the p2c picker uses (\<^verbatim>\<open>internal/utils/xtime\<close> and
  \<^verbatim>\<open>internal/utils/xsync\<close>). Times and durations are in nanoseconds.
\<close>

text \<open>\<^verbatim>\<open>time.Since\<close> keeps a duration within its 64 bits; \<open>initTime\<close> was read when the package was loaded.\<close>

definition Now :: "int \<Rightarrow> int \<Rightarrow> int" where
  "Now initTime now = max (- (2 ^ 63)) (min (2 ^ 63 - 1) (now - initTime))"

text \<open>
  The wrappers of the parser, the formatter and the zones of the package \<^verbatim>\<open>time\<close>, which are parameters:
  \<open>parse\<close>, \<open>fmt\<close>, \<open>load\<close> and \<open>parse_in\<close>; \<open>getenv\<close> reads the environment and \<open>zero\<close> is the zero time.
\<close>

definition Duration :: "(go_string \<Rightarrow> go_error + int) \<Rightarrow> go_string \<Rightarrow> int go" where
  "Duration parse str = (case parse str of Inl err \<Rightarrow> Inl (ExplicitPanic (error_text err)) | Inr dur \<Rightarrow> Inr dur)"

type_synonym time_format = go_string

definition TS :: time_format where
  "TS = go_str ''2006-01-02 15:04:05''"

definition TimeFormat_Format :: "(go_string \<Rightarrow> 't \<Rightarrow> go_string) \<Rightarrow> time_format \<Rightarrow> 't \<Rightarrow> go_string" where
  "TimeFormat_Format fmt ts t = fmt ts t"

definition ParseInLocation ::
  "(go_string \<Rightarrow> go_string) \<Rightarrow> (go_string \<Rightarrow> go_error + 'loc) \<Rightarrow> (go_string \<Rightarrow> go_string \<Rightarrow> 'loc \<Rightarrow> 't \<times> go_error option)
     \<Rightarrow> 't \<Rightarrow> go_string \<Rightarrow> go_string \<Rightarrow> 't \<times> go_error option" where
  "ParseInLocation getenv load parse_in zero layout text =
     (case load (getenv (go_str ''TZ'')) of
        Inl err \<Rightarrow> (zero, Some err)
      | Inr loc \<Rightarrow> parse_in layout text loc)"

type_synonym atomic_duration = int

definition NewAtomicDuration :: atomic_duration where
  "NewAtomicDuration = 0"

definition SetDuration :: "int \<Rightarrow> atomic_duration \<Rightarrow> atomic_duration" where
  "SetDuration val d = val"

definition ForAtomicDuration :: "int \<Rightarrow> atomic_duration" where
  "ForAtomicDuration val = SetDuration val NewAtomicDuration"

definition LoadDuration :: "atomic_duration \<Rightarrow> int" where
  "LoadDuration d = d"

definition CompareAndSwap :: "int \<Rightarrow> int \<Rightarrow> atomic_duration \<Rightarrow> bool \<times> atomic_duration" where
  "CompareAndSwap old val d = (if d = old then (True, val) else (False, d))"

text \<open>A clock that does not go back gives readings that do not.\<close>

lemma Now_mono: "now \<le> now' \<Longrightarrow> Now initTime now \<le> Now initTime now'"
  by (auto simp: Now_def)

lemma Load_For: "LoadDuration (ForAtomicDuration val) = val"
  by (simp add: LoadDuration_def ForAtomicDuration_def SetDuration_def)

lemma CompareAndSwap_loaded [simp]: "CompareAndSwap (LoadDuration d) val d = (True, val)"
  by (simp add: CompareAndSwap_def LoadDuration_def)

lemma Load_New [simp]: "LoadDuration NewAtomicDuration = 0"
  by (simp add: LoadDuration_def NewAtomicDuration_def)

end
