(* ===== verification/P2C.thy ===== *)
theory P2C
  imports Balancer Clock
begin

text \<open>
  The picker of the power of two choices (\<^verbatim>\<open>loadbalance/p2c/picker.go\<close>), with the errors it accepts
  (\<^verbatim>\<open>internal/codes/accept.go\<close>).

  \<^item> The floating-point terms of the code are a parameter, the record \<open>float_ops\<close>: the square root of the
    load, the decay and the weighted mean, over a type \<open>'f\<close> of weights.
  \<^item> Random numbers and clock readings are inputs; times are in nanoseconds, as \<^verbatim>\<open>xtime.Now\<close> gives them.
  \<^item> \<^verbatim>\<open>Pick\<close> holds the lock of the picker, so that its compare-and-swap on the time of the last pick, which
    only \<^verbatim>\<open>choose\<close> writes, succeeds. \<^verbatim>\<open>Done\<close> is one operation here.
  \<^item> Of the error of a call the code uses its status code.
\<close>

section \<open>Data\<close>

record 'f float_ops =
  foSqrt :: "u64 \<Rightarrow> int"
  foDecay :: "int \<Rightarrow> 'f"
  foZero :: 'f
  foMean :: "'f \<Rightarrow> u64 \<Rightarrow> int \<Rightarrow> u64"

record 'c p2c_conn =
  pcSubConn :: 'c
  pcAddress :: address
  pcLatency :: u64
  pcSuccess :: u64
  pcInflight :: int
  pcRequests :: int
  pcLast :: int
  pcPick :: int
  pcName :: go_string

record 'c p2c_picker =
  ppConnections :: "'c p2c_conn list"
  ppStamp :: atomic_duration
  ppLogFunc :: bool
  ppFilter :: filter_fn

definition initSuccess :: int where "initSuccess = 1000"

definition throttleSuccess :: u64 where "throttleSuccess = 500"

definition penalty :: int where "penalty = 2147483647"

definition forcePick :: int where "forcePick = 1000000000"

definition pickTimes :: nat where "pickTimes = 3"

definition logInterval :: int where "logInterval = 60 * 1000000000"

definition p2c_Build :: "filter_fn option \<Rightarrow> ('c \<times> address) list \<Rightarrow> 'c p2c_picker" where
  "p2c_Build f ready =
     \<lparr>ppConnections = map (\<lambda>(c, a). \<lparr>pcSubConn = c, pcAddress = a, pcLatency = 0, pcSuccess = word_of_int initSuccess,
        pcInflight = 0, pcRequests = 0, pcLast = 0, pcPick = 0, pcName = addrAddr a\<rparr>) ready,
      ppStamp = NewAtomicDuration, ppLogFunc = False, ppFilter = built_filter f\<rparr>"

definition Acceptable :: "grpc_code \<Rightarrow> bool" where
  "Acceptable code \<longleftrightarrow> code \<notin> {DeadlineExceeded, Internal, Unavailable, DataLoss, Unimplemented}"

section \<open>Pick\<close>

definition healthy :: "'c p2c_conn \<Rightarrow> bool" where
  "healthy c \<longleftrightarrow> throttleSuccess < pcSuccess c"

definition p2c_load :: "'f float_ops \<Rightarrow> 'c p2c_conn \<Rightarrow> int" where
  "p2c_load fo c =
     (let latency = foSqrt fo (pcLatency c + 1);
          load = i64 (latency * i64 (pcInflight c + 1))
      in if load = 0 then penalty else load)"

definition set_pick :: "nat \<Rightarrow> int \<Rightarrow> 'c p2c_conn list \<Rightarrow> 'c p2c_conn list" where
  "set_pick i start conns = conns[i := (conns ! i)\<lparr>pcPick := start\<rparr>]"

definition p2c_choose :: "'f float_ops \<Rightarrow> int \<Rightarrow> nat \<Rightarrow> nat option \<Rightarrow> 'c p2c_conn list \<Rightarrow> nat \<times> 'c p2c_conn list" where
  "p2c_choose fo start c1 c2 conns =
     (case c2 of
        None \<Rightarrow> (c1, set_pick c1 start conns)
      | Some c2 \<Rightarrow>
          (let (c1, c2) = (if p2c_load fo (conns ! c2) < p2c_load fo (conns ! c1) then (c2, c1) else (c1, c2));
               pick = pcPick (conns ! c2)
           in if forcePick < i64 (start - pick) then (c2, set_pick c2 start conns)
              else (c1, set_pick c1 start conns)))"

text \<open>The two indexes of an attempt from its random numbers, and the attempts in turn.\<close>

definition p2c_pair :: "nat \<times> nat \<Rightarrow> nat \<times> nat" where
  "p2c_pair r = (fst r, if fst r \<le> snd r then snd r + 1 else snd r)"

fun p2c_sample :: "'c p2c_conn list \<Rightarrow> nat \<times> nat \<Rightarrow> (nat \<times> nat) list \<Rightarrow> nat \<times> nat" where
  "p2c_sample conns nodes [] = nodes"
| "p2c_sample conns nodes (r # rs) =
     (let (node1, node2) = p2c_pair r
      in if healthy (conns ! node1) \<and> healthy (conns ! node2) then (node1, node2)
         else p2c_sample conns (node1, node2) rs)"

definition p2c_buildCallback :: "nat \<Rightarrow> 'c p2c_conn list \<Rightarrow> 'c p2c_conn list" where
  "p2c_buildCallback i conns =
     conns[i := (conns ! i)\<lparr>pcInflight := i64 (pcInflight (conns ! i) + 1), pcRequests := i64 (pcRequests (conns ! i) + 1)\<rparr>]"

text \<open>An input: the random numbers of the attempts and the time at which \<^verbatim>\<open>choose\<close> reads the clock.\<close>

type_synonym p2c_input = "(nat \<times> nat) list \<times> int"

definition p2c_Pick :: "'f float_ops \<Rightarrow> 'c p2c_picker \<Rightarrow> p2c_input \<Rightarrow> (go_error + nat) \<times> 'c p2c_picker" where
  "p2c_Pick fo p i =
     (let conns = ppConnections p;
          go = (\<lambda>c1 c2. case p2c_choose fo (snd i) c1 c2 conns of
                  (k, conns) \<Rightarrow> (Inr k, p\<lparr>ppConnections := p2c_buildCallback k conns\<rparr>))
      in if length conns = 0 then (Inl ErrNoSubConnAvailable, p)
         else if length conns = 1 then go 0 None
         else if length conns = 2 then go 0 (Some 1)
         else (case p2c_sample conns (0, 0) (take pickTimes (fst i)) of (c1, c2) \<Rightarrow> go c1 (Some c2)))"

section \<open>Done\<close>

text \<open>\<open>err\<close> is the status code of the error of the call, if it had one.\<close>

definition p2c_finish :: "'f float_ops \<Rightarrow> int \<Rightarrow> int \<Rightarrow> grpc_code option \<Rightarrow> 'c p2c_conn \<Rightarrow> 'c p2c_conn" where
  "p2c_finish fo start now err c =
     (let td = max 0 (i64 (now - pcLast c));
          latency = max 0 (i64 (now - start));
          oldLatency = pcLatency c;
          w = (if oldLatency \<noteq> 0 then foDecay fo td else foZero fo);
          success = (case err of None \<Rightarrow> initSuccess | Some code \<Rightarrow> if Acceptable code then initSuccess else 0)
      in c\<lparr>pcInflight := i64 (pcInflight c - 1), pcLast := now,
           pcLatency := foMean fo w oldLatency latency,
           pcSuccess := foMean fo w (pcSuccess c) success\<rparr>)"

text \<open>
  The log of the loads: it resets the counters of requests and calls \<^verbatim>\<open>logFunc\<close>, which is nil unless
  somebody has set it.
\<close>

definition p2c_logStats :: "'c p2c_picker \<Rightarrow> go_panic option \<times> 'c p2c_picker" where
  "p2c_logStats p =
     (if ppLogFunc p then None else Some NilDereference,
      p\<lparr>ppConnections := map (\<lambda>c. c\<lparr>pcRequests := 0\<rparr>) (ppConnections p)\<rparr>)"

text \<open>The log is due after an interval, for the call that swaps the time stamp.\<close>

definition p2c_stamp :: "int \<Rightarrow> 'c p2c_picker \<Rightarrow> go_panic option \<times> 'c p2c_picker" where
  "p2c_stamp now p =
     (let stamp = LoadDuration (ppStamp p)
      in if logInterval \<le> i64 (now - stamp)
         then (case CompareAndSwap stamp now (ppStamp p) of
                 (True, st) \<Rightarrow> p2c_logStats (p\<lparr>ppStamp := st\<rparr>)
               | (False, st) \<Rightarrow> (None, p))
         else (None, p))"

definition p2c_Done ::
  "'f float_ops \<Rightarrow> nat \<times> int \<Rightarrow> int \<Rightarrow> grpc_code option \<Rightarrow> 'c p2c_picker \<Rightarrow> go_panic option \<times> 'c p2c_picker" where
  "p2c_Done fo call now err p =
     (case call of (k, start) \<Rightarrow>
        (let p = p\<lparr>ppConnections := (ppConnections p)[k := p2c_finish fo start now err (ppConnections p ! k)]\<rparr>
         in p2c_stamp now p))"

section \<open>The log among calls at once\<close>

text \<open>
  Calls that report back at the same time, at their atomic operations on the time stamp. \<open>lgTimes\<close> are the
  times of the calls that went on to log.
\<close>

datatype log_pc = LgRead int | LgLoaded int int | LgEnded

record log_run =
  lgStamp :: atomic_duration
  lgCalls :: "log_pc list"
  lgTimes :: "int list"

datatype log_event = LgReports int | LgLoads nat | LgNotDue nat | LgSwaps nat

inductive log_step :: "log_run \<Rightarrow> log_event \<Rightarrow> log_run \<Rightarrow> bool" where
  lg_reports: "log_step s (LgReports now) (s\<lparr>lgCalls := lgCalls s @ [LgRead now]\<rparr>)"
| lg_loads: "k < length (lgCalls s) \<Longrightarrow> lgCalls s ! k = LgRead now \<Longrightarrow>
    log_step s (LgLoads k) (s\<lparr>lgCalls := (lgCalls s)[k := LgLoaded now (LoadDuration (lgStamp s))]\<rparr>)"
| lg_not_due: "k < length (lgCalls s) \<Longrightarrow> lgCalls s ! k = LgLoaded now stamp \<Longrightarrow> \<not> logInterval \<le> i64 (now - stamp) \<Longrightarrow>
    log_step s (LgNotDue k) (s\<lparr>lgCalls := (lgCalls s)[k := LgEnded]\<rparr>)"
| lg_swaps: "k < length (lgCalls s) \<Longrightarrow> lgCalls s ! k = LgLoaded now stamp \<Longrightarrow> logInterval \<le> i64 (now - stamp) \<Longrightarrow>
    CompareAndSwap stamp now (lgStamp s) = (ok, st) \<Longrightarrow>
    log_step s (LgSwaps k)
      (s\<lparr>lgStamp := st, lgCalls := (lgCalls s)[k := LgEnded], lgTimes := (if ok then lgTimes s @ [now] else lgTimes s)\<rparr>)"

definition log_start :: log_run where
  "log_start = \<lparr>lgStamp = NewAtomicDuration, lgCalls = [], lgTimes = []\<rparr>"

fun spaced :: "int list \<Rightarrow> bool" where
  "spaced (a # b # ts) \<longleftrightarrow> logInterval \<le> i64 (b - a) \<and> spaced (b # ts)"
| "spaced _ \<longleftrightarrow> True"

lemma spaced_snoc: "ts \<noteq> [] \<Longrightarrow> spaced (ts @ [b]) \<longleftrightarrow> spaced ts \<and> logInterval \<le> i64 (b - last ts)"
  by (induction ts rule: spaced.induct) auto

lemma log_inv_step:
  assumes "lgStamp s = last (0 # lgTimes s) \<and> spaced (0 # lgTimes s)" and "log_step s e s'"
  shows "lgStamp s' = last (0 # lgTimes s') \<and> spaced (0 # lgTimes s')"
  using assms(2)
proof cases
  case (lg_swaps k now stamp ok st)
  show ?thesis
  proof (cases ok)
    case True
    then have "stamp = last (0 # lgTimes s)" "st = now" using lg_swaps(6) assms(1) by (auto simp: CompareAndSwap_def split: if_splits)
    then show ?thesis
      using assms(1) lg_swaps(2,5) True spaced_snoc [of "0 # lgTimes s" now] by simp
  next
    case False
    then have "st = lgStamp s" using lg_swaps(6) by (auto simp: CompareAndSwap_def split: if_splits)
    then show ?thesis using assms(1) lg_swaps(2) False by simp
  qed
qed (use assms(1) in auto)

section \<open>Facts on the choice\<close>

lemma length_set_pick [simp]: "length (set_pick i start conns) = length conns"
  by (simp add: set_pick_def)

lemma length_buildCallback [simp]: "length (p2c_buildCallback i conns) = length conns"
  by (simp add: p2c_buildCallback_def)

lemma p2c_choose_length [simp]: "length (snd (p2c_choose fo start c1 c2 conns)) = length conns"
  by (auto simp: p2c_choose_def Let_def split: option.split)

lemma p2c_choose_one: "fst (p2c_choose fo start c1 None conns) = c1"
  by (simp add: p2c_choose_def)

text \<open>Of two, the one chosen has no greater load than the other, or was last picked over a second ago.\<close>

lemma p2c_choose_two:
  obtains k j where "fst (p2c_choose fo start c1 (Some c2) conns) = k" "(k, j) = (c1, c2) \<or> (k, j) = (c2, c1)"
    "p2c_load fo (conns ! k) \<le> p2c_load fo (conns ! j) \<or> forcePick < i64 (start - pcPick (conns ! k))"
proof (cases "p2c_load fo (conns ! c2) < p2c_load fo (conns ! c1)")
  case True
  show thesis
  proof (cases "forcePick < i64 (start - pcPick (conns ! c1))")
    case True
    then show thesis using that [of c1 c2] \<open>p2c_load fo (conns ! c2) < p2c_load fo (conns ! c1)\<close>
      by (simp add: p2c_choose_def)
  next
    case False
    then show thesis using that [of c2 c1] True by (simp add: p2c_choose_def)
  qed
next
  case False
  show thesis
  proof (cases "forcePick < i64 (start - pcPick (conns ! c2))")
    case True
    then show thesis using that [of c2 c1] False by (simp add: p2c_choose_def)
  next
    case False
    then show thesis using that [of c1 c2] \<open>\<not> p2c_load fo (conns ! c2) < p2c_load fo (conns ! c1)\<close>
      by (simp add: p2c_choose_def)
  qed
qed

definition healthy_pair :: "'c p2c_conn list \<Rightarrow> nat \<times> nat \<Rightarrow> bool" where
  "healthy_pair conns ns \<longleftrightarrow> healthy (conns ! fst ns) \<and> healthy (conns ! snd ns)"

lemma p2c_sample_in: "rs \<noteq> [] \<Longrightarrow> p2c_sample conns ns rs \<in> p2c_pair ` set rs"
proof (induction rs arbitrary: ns)
  case (Cons r rs)
  then show ?case by (cases "rs = []") (auto simp: Let_def split: prod.split)
qed simp

lemma p2c_sample_healthy:
  "(\<exists>r \<in> set rs. healthy_pair conns (p2c_pair r)) \<Longrightarrow> healthy_pair conns (p2c_sample conns ns rs)"
proof (induction rs arbitrary: ns)
  case (Cons r rs)
  then show ?case by (auto simp: Let_def healthy_pair_def split: prod.split)
qed simp

definition p2c_legal :: "nat \<Rightarrow> p2c_input \<Rightarrow> bool" where
  "p2c_legal n i \<longleftrightarrow> length (fst i) = pickTimes \<and> list_all (\<lambda>r. fst r < n \<and> snd r < n - 1) (fst i)"

lemma p2c_pair_range:
  "r1 < n \<Longrightarrow> r2 < n - 1 \<Longrightarrow> p2c_pair (r1, r2) = (i, j) \<Longrightarrow> i < n \<and> j < n \<and> i \<noteq> j"
  by (auto simp: p2c_pair_def split: if_splits)

lemma p2c_Pick_cases:
  obtains (none) "ppConnections p = []" "p2c_Pick fo p i = (Inl ErrNoSubConnAvailable, p)"
  | (one) "length (ppConnections p) = 1"
      "p2c_Pick fo p i = (Inr 0, p\<lparr>ppConnections := p2c_buildCallback 0 (set_pick 0 (snd i) (ppConnections p))\<rparr>)"
  | (two) c1 c2 k conns where "2 \<le> length (ppConnections p)"
      "(c1, c2) = (if length (ppConnections p) = 2 then (0, 1) else p2c_sample (ppConnections p) (0, 0) (take pickTimes (fst i)))"
      "p2c_choose fo (snd i) c1 (Some c2) (ppConnections p) = (k, conns)"
      "p2c_Pick fo p i = (Inr k, p\<lparr>ppConnections := p2c_buildCallback k conns\<rparr>)"
proof (cases "length (ppConnections p) = 0 \<or> length (ppConnections p) = 1")
  case True
  then show thesis
  proof
    assume "length (ppConnections p) = 0"
    then show thesis using none by (simp add: p2c_Pick_def Let_def)
  next
    assume "length (ppConnections p) = 1"
    then show thesis using one by (simp add: p2c_Pick_def Let_def p2c_choose_def flip: length_0_conv)
  qed
next
  case False
  obtain c1 c2 where c: "(c1, c2) = (if length (ppConnections p) = 2 then (0, 1)
      else p2c_sample (ppConnections p) (0, 0) (take pickTimes (fst i)))"
    by (metis surj_pair)
  obtain k conns where k: "p2c_choose fo (snd i) c1 (Some c2) (ppConnections p) = (k, conns)" by fastforce
  have "p2c_Pick fo p i = (Inr k, p\<lparr>ppConnections := p2c_buildCallback k conns\<rparr>)"
    using False c k by (auto simp: p2c_Pick_def Let_def split: if_splits prod.splits)
  then show thesis using two [OF _ c k] False by linarith
qed

lemma p2c_Pick_frame:
  "length (ppConnections (snd (p2c_Pick fo p i))) = length (ppConnections p)
   \<and> ppStamp (snd (p2c_Pick fo p i)) = ppStamp p \<and> ppLogFunc (snd (p2c_Pick fo p i)) = ppLogFunc p"
proof (cases rule: p2c_Pick_cases [of p fo i])
  case (two c1 c2 k conns)
  have "length conns = length (ppConnections p)"
    using two(3) p2c_choose_length [of fo "snd i" c1 "Some c2" "ppConnections p"] by simp
  with two(4) show ?thesis by simp
qed simp_all

text \<open>The pairs that the attempts of a call compare.\<close>

definition p2c_pairs :: "nat \<Rightarrow> (nat \<times> nat) list \<Rightarrow> (nat \<times> nat) set" where
  "p2c_pairs n rs = (if n = 2 then {(0, 1)} else p2c_pair ` set rs)"

lemma p2c_two_facts:
  assumes "p2c_legal n i" and "n = length (ppConnections p)" and "2 \<le> n"
    and c: "(c1, c2) = (if n = 2 then (0, 1) else p2c_sample (ppConnections p) (0, 0) (take pickTimes (fst i)))"
  shows "(c1, c2) \<in> p2c_pairs n (fst i) \<and> c1 < n \<and> c2 < n \<and> c1 \<noteq> c2
    \<and> ((\<exists>ns \<in> p2c_pairs n (fst i). healthy_pair (ppConnections p) ns) \<longrightarrow> healthy_pair (ppConnections p) (c1, c2))"
proof (cases "n = 2")
  case True
  then show ?thesis using c by (auto simp: p2c_pairs_def)
next
  case False
  have rs: "take pickTimes (fst i) = fst i" "fst i \<noteq> []" "list_all (\<lambda>r. fst r < n \<and> snd r < n - 1) (fst i)"
    using assms(1) by (auto simp: p2c_legal_def pickTimes_def)
  have s: "p2c_sample (ppConnections p) (0, 0) (fst i) = (c1, c2)" using c False rs(1) by simp
  have "(c1, c2) \<in> p2c_pair ` set (fst i)" using p2c_sample_in [OF rs(2)] s by metis
  moreover from this obtain r where "r \<in> set (fst i)" "(c1, c2) = p2c_pair r" by blast
  then have "c1 < n \<and> c2 < n \<and> c1 \<noteq> c2"
    using rs(3) p2c_pair_range [of "fst r" n "snd r" c1 c2] by (simp add: list_all_iff)
  moreover have "(\<exists>ns \<in> p2c_pair ` set (fst i). healthy_pair (ppConnections p) ns) \<longrightarrow>
      healthy_pair (ppConnections p) (c1, c2)"
    using p2c_sample_healthy [of "fst i" "ppConnections p" "(0, 0)"] s by auto
  ultimately show ?thesis using False by (simp add: p2c_pairs_def)
qed

interpretation p2c: picker "p2c_Pick fo" "\<lambda>p i. {..<length (ppConnections p)}"
  "\<lambda>p. length (ppConnections p) = n" "p2c_legal n" for fo n
proof unfold_locales
  fix p :: "'b p2c_picker" and i
  assume "{..<length (ppConnections p)} = {}"
  then have "ppConnections p = []" by (simp add: lessThan_empty_iff)
  then show "fst (p2c_Pick fo p i) = Inl ErrNoSubConnAvailable" by (simp add: p2c_Pick_def Let_def)
next
  fix p :: "'b p2c_picker" and i
  assume n: "length (ppConnections p) = n" and legal: "p2c_legal n i" and "{..<length (ppConnections p)} \<noteq> {}"
  then show "\<exists>k \<in> {..<length (ppConnections p)}. fst (p2c_Pick fo p i) = Inr k"
  proof (cases rule: p2c_Pick_cases [of p fo i])
    case (two c1 c2 k conns)
    have "2 \<le> n" "(c1, c2) = (if n = 2 then (0, 1) else p2c_sample (ppConnections p) (0, 0) (take pickTimes (fst i)))"
      using two(1,2) unfolding n by simp_all
    then have "c1 < n" "c2 < n" using p2c_two_facts [OF legal n [symmetric]] by blast+
    moreover obtain k' j where "fst (p2c_choose fo (snd i) c1 (Some c2) (ppConnections p)) = k'"
        "(k', j) = (c1, c2) \<or> (k', j) = (c2, c1)"
      by (rule p2c_choose_two)
    ultimately have "k < n" using two(3) by (elim disjE) simp_all
    then show ?thesis using two(4) n by simp
  next
    case one
    then show ?thesis by force
  qed simp_all
qed (simp_all add: p2c_Pick_frame)

section \<open>Properties\<close>

text \<open>
  C24: With two or more connections a call compares the two of one of its attempts, which are distinct: the
  one it chooses has no greater load than the other, unless it was last picked more than a second ago.
  When one of the three attempts meets two healthy connections, a healthy one is chosen.
\<close>

theorem p2c_lighter_chosen:
  assumes "2 \<le> length (ppConnections p)" and "p2c_legal (length (ppConnections p)) i"
    and "p2c_Pick fo p i = (Inr k, p')"
  shows "\<exists>j. k \<noteq> j \<and> k < length (ppConnections p) \<and> j < length (ppConnections p)
    \<and> ((k, j) \<in> p2c_pairs (length (ppConnections p)) (fst i) \<or> (j, k) \<in> p2c_pairs (length (ppConnections p)) (fst i))
    \<and> (p2c_load fo (ppConnections p ! k) \<le> p2c_load fo (ppConnections p ! j)
       \<or> forcePick < i64 (snd i - pcPick (ppConnections p ! k)))
    \<and> (healthy_pair (ppConnections p) ` p2c_pairs (length (ppConnections p)) (fst i) \<subseteq> {False}
       \<or> healthy (ppConnections p ! k))"
proof (cases rule: p2c_Pick_cases [of p fo i])
  case (two c1 c2 k' conns)
  then have k': "k' = k" using assms(3) by simp
  have f: "(c1, c2) \<in> p2c_pairs (length (ppConnections p)) (fst i)" "c1 < length (ppConnections p)"
      "c2 < length (ppConnections p)" "c1 \<noteq> c2"
      "(\<exists>ns \<in> p2c_pairs (length (ppConnections p)) (fst i). healthy_pair (ppConnections p) ns) \<longrightarrow>
         healthy_pair (ppConnections p) (c1, c2)"
    using p2c_two_facts [OF assms(2) refl assms(1) two(2)] by blast+
  obtain j where j: "(k, j) = (c1, c2) \<or> (k, j) = (c2, c1)"
      "p2c_load fo (ppConnections p ! k) \<le> p2c_load fo (ppConnections p ! j)
       \<or> forcePick < i64 (snd i - pcPick (ppConnections p ! k))"
    using p2c_choose_two [of fo "snd i" c1 c2 "ppConnections p"] two(3) k' by (metis fst_conv)
  have "healthy_pair (ppConnections p) ` p2c_pairs (length (ppConnections p)) (fst i) \<subseteq> {False}
      \<or> healthy (ppConnections p ! k)"
  proof (cases "\<exists>ns \<in> p2c_pairs (length (ppConnections p)) (fst i). healthy_pair (ppConnections p) ns")
    case True
    then have "healthy (ppConnections p ! c1) \<and> healthy (ppConnections p ! c2)"
      using f(5) by (simp add: healthy_pair_def)
    then show ?thesis using j(1) by (elim disjE) simp_all
  next
    case False
    then show ?thesis by blast
  qed
  moreover have "k \<noteq> j \<and> k < length (ppConnections p) \<and> j < length (ppConnections p)
      \<and> ((k, j) \<in> p2c_pairs (length (ppConnections p)) (fst i) \<or> (j, k) \<in> p2c_pairs (length (ppConnections p)) (fst i))"
    using j(1) f(1-4) by (elim disjE) simp_all
  ultimately show ?thesis using j(2) by (intro exI [of _ j]) simp
qed (use assms(1) in simp_all)

section \<open>Calls in turn\<close>

text \<open>The picker, and for each call under way its connection and the time its callback was built.\<close>

record 'c p2c_run =
  prPicker :: "'c p2c_picker"
  prCalls :: "(nat \<times> int) list"

datatype p2c_event = P2cPicked nat | P2cFails | P2cDone nat

inductive p2c_step :: "'f float_ops \<Rightarrow> 'c p2c_run \<Rightarrow> p2c_event \<Rightarrow> 'c p2c_run \<Rightarrow> bool" for fo where
  p2c_picked: "p2c_legal (length (ppConnections (prPicker s))) i \<Longrightarrow> p2c_Pick fo (prPicker s) i = (Inr k, p) \<Longrightarrow>
    p2c_step fo s (P2cPicked k) (s\<lparr>prPicker := p, prCalls := prCalls s @ [(k, start)]\<rparr>)"
| p2c_fails: "p2c_Pick fo (prPicker s) i = (Inl err, p) \<Longrightarrow> p2c_step fo s P2cFails (s\<lparr>prPicker := p\<rparr>)"
| p2c_done: "prCalls s = cs @ call # cs' \<Longrightarrow> p2c_Done fo call now err (prPicker s) = (None, p) \<Longrightarrow>
    p2c_step fo s (P2cDone (fst call)) (s\<lparr>prPicker := p, prCalls := cs @ cs'\<rparr>)"

definition p2c_start :: "filter_fn option \<Rightarrow> ('c \<times> address) list \<Rightarrow> 'c p2c_run" where
  "p2c_start f ready = \<lparr>prPicker = p2c_Build f ready, prCalls = []\<rparr>"

definition calls_on :: "(nat \<times> int) list \<Rightarrow> nat \<Rightarrow> int" where
  "calls_on cs k = int (length (filter (\<lambda>c. fst c = k) cs))"

definition inflights :: "'c p2c_picker \<Rightarrow> int list" where
  "inflights p = map pcInflight (ppConnections p)"

lemma i64_add: "i64 (i64 x + y) = i64 (x + y)"
  by (simp add: i64_def mod_simps algebra_simps)

lemma i64_diff: "i64 (i64 x - y) = i64 (x - y)"
  using i64_add [of x "- y"] by simp

lemma inflights_set_pick [simp]: "map pcInflight (set_pick k start conns) = map pcInflight conns"
  by (cases "k < length conns") (simp_all add: set_pick_def map_update list_update_same_conv list_update_beyond)

lemma inflights_choose [simp]: "map pcInflight (snd (p2c_choose fo start c1 c2 conns)) = map pcInflight conns"
  by (auto simp: p2c_choose_def Let_def split: option.split)

lemma inflights_buildCallback:
  "k < length conns \<Longrightarrow> map pcInflight (p2c_buildCallback k conns) =
     (map pcInflight conns)[k := i64 (map pcInflight conns ! k + 1)]"
  by (simp add: p2c_buildCallback_def map_update)

lemma inflights_Pick:
  assumes "p2c_legal (length (ppConnections p)) i" and "p2c_Pick fo p i = (Inr k, p')"
  shows "k < length (ppConnections p) \<and> inflights p' = (inflights p)[k := i64 (inflights p ! k + 1)]"
proof -
  have ne: "ppConnections p \<noteq> []" using assms(2) by (auto simp: p2c_Pick_def Let_def)
  then obtain k' where "k' < length (ppConnections p)" "fst (p2c_Pick fo p i) = Inr k'"
    using p2c.pick_some [OF refl assms(1), of fo] by auto
  then have k: "k < length (ppConnections p)" using assms(2) by simp
  show ?thesis
  proof (cases rule: p2c_Pick_cases [of p fo i])
    case none
    then show ?thesis using ne by simp
  next
    case one
    then have kk: "k = 0" "p' = p\<lparr>ppConnections := p2c_buildCallback 0 (set_pick 0 (snd i) (ppConnections p))\<rparr>"
      using assms(2) by simp_all
    show ?thesis using k inflights_buildCallback [of 0 "set_pick 0 (snd i) (ppConnections p)"]
      by (simp add: kk inflights_def)
  next
    case (two c1 c2 k' conns)
    then have kk: "k' = k" "p' = p\<lparr>ppConnections := p2c_buildCallback k conns\<rparr>" using assms(2) by simp_all
    have "map pcInflight conns = inflights p"
      using inflights_choose [of fo "snd i" c1 "Some c2" "ppConnections p"] two(3) by (simp add: inflights_def)
    moreover from this have "length conns = length (ppConnections p)" by (metis inflights_def length_map)
    ultimately show ?thesis using k inflights_buildCallback [of k conns] by (simp add: kk inflights_def)
  qed
qed

lemma inflights_Done:
  "k < length (ppConnections p) \<Longrightarrow> p2c_Done fo (k, start) now err p = (pa, p') \<Longrightarrow>
     inflights p' = (inflights p)[k := i64 (inflights p ! k - 1)]"
  by (auto simp: p2c_Done_def p2c_stamp_def p2c_logStats_def p2c_finish_def Let_def inflights_def map_update comp_def
      split: if_splits)

definition p2c_inv :: "nat \<Rightarrow> 'c p2c_run \<Rightarrow> bool" where
  "p2c_inv n s \<longleftrightarrow>
     list_all (\<lambda>c. fst c < n) (prCalls s)
     \<and> inflights (prPicker s) = map (\<lambda>k. i64 (calls_on (prCalls s) k)) [0..<n]"

lemma map_upt_update:
  "k < n \<Longrightarrow> (\<And>j. j < n \<Longrightarrow> j \<noteq> k \<Longrightarrow> g j = f j) \<Longrightarrow> g k = v \<Longrightarrow> (map f [0..<n])[k := v] = map g [0..<n]"
  by (auto simp: list_eq_iff_nth_eq nth_list_update)

lemma p2c_inv_step:
  assumes "p2c_inv n s" and "p2c_step fo s e s'"
  shows "p2c_inv n s'"
proof -
  have infl: "inflights (prPicker s) = map (\<lambda>k. i64 (calls_on (prCalls s) k)) [0..<n]"
    using assms(1) by (simp add: p2c_inv_def)
  have n: "length (ppConnections (prPicker s)) = n"
    using arg_cong [OF infl, of length] by (simp add: inflights_def)
  from assms(2) show ?thesis
  proof cases
    case (p2c_picked i k p start)
    have k: "k < n" "inflights p = (inflights (prPicker s))[k := i64 (inflights (prPicker s) ! k + 1)]"
      using inflights_Pick [OF p2c_picked(3,4)] n by simp_all
    have "inflights p = map (\<lambda>j. i64 (calls_on (prCalls s @ [(k, start)]) j)) [0..<n]"
      unfolding k(2) infl by (rule map_upt_update [OF k(1)]) (use k(1) in \<open>simp_all add: calls_on_def i64_add add.commute [of 1]\<close>)
    then show ?thesis using assms(1) p2c_picked(2) k(1) by (simp add: p2c_inv_def)
  next
    case (p2c_fails i err p)
    then have "p = prPicker s" by (cases rule: p2c_Pick_cases [of "prPicker s" fo i]) simp_all
    then show ?thesis using assms(1) p2c_fails(2) by (simp add: p2c_inv_def)
  next
    case (p2c_done cs call cs' now err p)
    obtain k start where call: "call = (k, start)" by fastforce
    have k: "k < n" using assms(1) p2c_done(3) call by (simp add: p2c_inv_def)
    have "inflights p = (inflights (prPicker s))[k := i64 (inflights (prPicker s) ! k - 1)]"
      using inflights_Done [of k "prPicker s" fo start now err None p] p2c_done(4) call k n by simp
    also have "\<dots> = map (\<lambda>j. i64 (calls_on (cs @ cs') j)) [0..<n]"
      unfolding infl by (rule map_upt_update [OF k]) (use k in \<open>simp_all add: p2c_done(3) call calls_on_def i64_diff\<close>)
    finally show ?thesis using assms(1) p2c_done(2,3) by (simp add: p2c_inv_def)
  qed
qed

lemma p2c_trace_inv:
  assumes "trace (p2c_step fo) (p2c_start f ready) ls s"
  shows "p2c_inv (length ready) s"
  using assms
proof (rule trace_invariant [where P = "\<lambda>ls. p2c_inv (length ready)"])
  show "p2c_inv (length ready) (p2c_start f ready)"
    by (simp add: p2c_inv_def p2c_start_def p2c_Build_def inflights_def calls_on_def case_prod_beta comp_def map_replicate_const i64_id)
qed (rule p2c_inv_step)

section \<open>Properties of calls in turn\<close>

text \<open>
  C26: The in-flight counter of every connection is the number of calls that chose it and have not reported
  back, whatever was chosen and however the calls ended, as long as this number fits 63 bits.
\<close>

theorem p2c_inflight_counts:
  assumes "trace (p2c_step fo) (p2c_start f ready) ls s" and "length (prCalls s) < 2 ^ 63"
  shows "map pcInflight (ppConnections (prPicker s)) = map (calls_on (prCalls s)) [0..<length ready]"
proof -
  have "i64 (calls_on (prCalls s) k) = calls_on (prCalls s) k" for k
  proof (rule i64_id)
    have "length (filter (\<lambda>c. fst c = k) (prCalls s)) < 2 ^ 63"
      using length_filter_le [of "\<lambda>c. fst c = k" "prCalls s"] assms(2) by linarith
    then have "int (length (filter (\<lambda>c. fst c = k) (prCalls s))) < int (2 ^ 63)"
      by (simp only: of_nat_less_iff)
    then show "calls_on (prCalls s) k < 2 ^ 63" by (simp add: calls_on_def)
  qed (simp add: calls_on_def)
  then show ?thesis using p2c_trace_inv [OF assms(1)] by (simp add: p2c_inv_def inflights_def)
qed

text \<open>
  The first call that reports back panics: the picker starts with a time stamp of 0, and the clock it
  reads runs from a time more than a year ago, so that the log is due at once, and the builder sets no
  function to write it.
\<close>

theorem p2c_first_report_panics:
  assumes "trace (p2c_step fo) (p2c_start f ready) (map P2cPicked ks) s" and "logInterval \<le> now" and "now < 2 ^ 63"
  shows "fst (p2c_Done fo call now err (prPicker s)) = Some NilDereference"
proof -
  have "ppStamp (prPicker s) = NewAtomicDuration \<and> \<not> ppLogFunc (prPicker s)"
    if "trace (p2c_step fo) (p2c_start f ready) ls s" "ls = map P2cPicked ks" for ls ks s
    using that
  proof (induction arbitrary: ks rule: trace.induct)
    case trace_Nil
    then show ?case by (simp add: p2c_start_def p2c_Build_def)
  next
    case (trace_snoc es t e u)
    obtain k ks' where ks: "e = P2cPicked k" "es = map P2cPicked ks'"
      using trace_snoc.prems by (auto simp: append_eq_map_conv)
    from trace_snoc.hyps(2) show ?case
    proof cases
      case (p2c_picked i k p start)
      then show ?thesis using trace_snoc.IH [OF ks(2)] p2c_Pick_frame [of fo "prPicker t" i] by simp
    qed (use ks(1) in simp_all)
  qed
  then have "ppStamp (prPicker s) = NewAtomicDuration" "\<not> ppLogFunc (prPicker s)" using assms(1) by blast+
  then show ?thesis using assms(2,3)
    by (cases call) (simp add: p2c_Done_def p2c_stamp_def p2c_logStats_def Let_def i64_id logInterval_def CompareAndSwap_def
        NewAtomicDuration_def LoadDuration_def)
qed

text \<open>
  However the calls that report back interleave at their atomic operations, the load is logged at most once in an
  interval: any two of the times at which it is, one after the other, are at least that apart.
\<close>

theorem log_once_an_interval:
  assumes "trace log_step log_start ls s"
  shows "spaced (0 # lgTimes s)"
proof -
  have "lgStamp s = last (0 # lgTimes s) \<and> spaced (0 # lgTimes s)"
    using assms
  proof (rule trace_invariant [where P = "\<lambda>ls s. lgStamp s = last (0 # lgTimes s) \<and> spaced (0 # lgTimes s)"])
    show "lgStamp log_start = last (0 # lgTimes log_start) \<and> spaced (0 # lgTimes log_start)"
      by (simp add: log_start_def NewAtomicDuration_def)
  qed (rule log_inv_step)
  then show ?thesis ..
qed

text \<open>An instance of the floating-point terms, and two connections.\<close>

definition whole_ops :: "unit float_ops" where
  "whole_ops = \<lparr>foSqrt = uint, foDecay = (\<lambda>td. ()), foZero = (), foMean = (\<lambda>w old new. word_of_int new)\<rparr>"

definition two_ready :: "(nat \<times> address) list" where
  "two_ready = [(0, \<lparr>addrAddr = [48], addrAttrs = Map.empty\<rparr>), (1, \<lparr>addrAddr = [49], addrAttrs = Map.empty\<rparr>)]"

abbreviation two_input :: p2c_input where
  "two_input \<equiv> ([(0, 0), (0, 0), (0, 0)], 5)"

abbreviation two_picked :: "nat p2c_picker" where
  "two_picked \<equiv> snd (p2c_Pick whole_ops (p2c_Build None two_ready) two_input)"

lemma two_legal: "p2c_legal (length (ppConnections (p2c_Build f two_ready))) two_input"
  by (simp add: p2c_legal_def pickTimes_def p2c_Build_def two_ready_def)

lemma two_pick: "p2c_Pick whole_ops (p2c_Build None two_ready) two_input = (Inr 0, two_picked)"
  by (simp add: p2c_Pick_def p2c_Build_def two_ready_def Let_def p2c_choose_def p2c_load_def whole_ops_def i64_id forcePick_def)

lemma two_trace:
  "trace (p2c_step whole_ops) (p2c_start None two_ready) (map P2cPicked [0]) \<lparr>prPicker = two_picked, prCalls = [(0, 6)]\<rparr>"
proof -
  have "p2c_step whole_ops (p2c_start None two_ready) (P2cPicked 0)
      ((p2c_start None two_ready)\<lparr>prPicker := two_picked, prCalls := prCalls (p2c_start None two_ready) @ [(0, 6)]\<rparr>)"
    by (rule p2c_picked [where i = two_input]) (simp_all only: p2c_start_def p2c_run.simps two_legal, rule two_pick)
  then show ?thesis
    using trace_one [where step = "p2c_step whole_ops"] by (fastforce simp: p2c_start_def)
qed

theorem p2c_lighter_chosen_witness:
  "\<exists>j. 0 \<noteq> j \<and> j < length (ppConnections (p2c_Build None two_ready))
     \<and> (p2c_load whole_ops (ppConnections (p2c_Build None two_ready) ! 0) \<le> p2c_load whole_ops (ppConnections (p2c_Build None two_ready) ! j)
        \<or> forcePick < i64 (5 - pcPick (ppConnections (p2c_Build None two_ready) ! 0)))"
  using p2c_lighter_chosen [OF _ two_legal two_pick] by (fastforce simp: p2c_Build_def two_ready_def)

theorem p2c_inflight_counts_witness:
  "map pcInflight (ppConnections two_picked) = map (calls_on [(0, 6)]) [0..<length two_ready]"
  using p2c_inflight_counts [OF two_trace] by simp

theorem p2c_first_report_panics_witness:
  "fst (p2c_Done whole_ops (0, 6) logInterval None two_picked) = Some NilDereference"
  using p2c_first_report_panics [OF two_trace, of logInterval "(0, 6)" None] by (simp add: logInterval_def)

theorem log_once_an_interval_witness: "spaced (0 # [logInterval])"
proof -
  let ?s0 = "\<lparr>lgStamp = 0, lgCalls = [], lgTimes = []\<rparr>"
  have a: "log_step log_start (LgReports logInterval) (?s0\<lparr>lgCalls := [LgRead logInterval]\<rparr>)"
    using lg_reports [of log_start logInterval] by (simp add: log_start_def NewAtomicDuration_def)
  have b: "log_step (?s0\<lparr>lgCalls := [LgRead logInterval]\<rparr>) (LgLoads 0) (?s0\<lparr>lgCalls := [LgLoaded logInterval 0]\<rparr>)"
    using lg_loads [of 0 "?s0\<lparr>lgCalls := [LgRead logInterval]\<rparr>" logInterval] by (simp add: LoadDuration_def)
  have c: "log_step (?s0\<lparr>lgCalls := [LgLoaded logInterval 0]\<rparr>) (LgSwaps 0)
      (?s0\<lparr>lgStamp := logInterval, lgCalls := [LgEnded], lgTimes := [logInterval]\<rparr>)"
    using lg_swaps [of 0 "?s0\<lparr>lgCalls := [LgLoaded logInterval 0]\<rparr>" logInterval 0 True logInterval]
    by (simp add: CompareAndSwap_def logInterval_def i64_id)
  have "trace log_step log_start [LgReports logInterval, LgLoads 0, LgSwaps 0]
      (?s0\<lparr>lgStamp := logInterval, lgCalls := [LgEnded], lgTimes := [logInterval]\<rparr>)"
    using a b c by (intro trace_Cons [where step = log_step] trace_one [where step = log_step])
  from log_once_an_interval [OF this] show ?thesis by simp
qed

end
