(* ===== verification/RandomText.thy ===== *)
theory RandomText
  imports Emicro_Prelude
begin

text \<open>
  Random strings (\<^verbatim>\<open>internal/utils/xstring/random.go\<close>).

  \<^item> The source of random numbers is a parameter: \<open>int63\<close> gives the next number and the next state. The
    functions take the method of the locked source around it, \<open>Int63\<close>, in its place.
  \<^item> The loop of \<^verbatim>\<open>Randn\<close> draws until it has enough letters, and no number of draws is enough for every
    source: it is a \<^theory_text>\<open>partial_function\<close>, whose value \<open>None\<close> means that it does not return.
\<close>

section \<open>Operations\<close>

definition letterBytes :: bytes where
  "letterBytes = go_str ''abcdefghijklmnopqrstuvwxyzABCDEFGHIJKLMNOPQRSTUVWXYZ0123456789''"

definition letterIdxBits :: nat where "letterIdxBits = 6"

definition letterIdxMask :: u64 where "letterIdxMask = 63"

definition letterIdxMax :: nat where "letterIdxMax = 10"

definition letter_index :: "u64 \<Rightarrow> nat" where
  "letter_index cache = unat (and cache letterIdxMask)"

partial_function (option) randn_loop ::
  "('s \<Rightarrow> u64 \<times> 's) \<Rightarrow> bytes \<Rightarrow> int \<Rightarrow> u64 \<Rightarrow> nat \<Rightarrow> 's \<Rightarrow> (bytes \<times> 's) option" where
  "randn_loop int63 b i cache remain src =
     (if i < 0 then Some (b, src)
      else
        let (cache, remain, src) =
              (if remain = 0 then (fst (int63 src), letterIdxMax, snd (int63 src)) else (cache, remain, src));
            idx = letter_index cache
        in if idx < length letterBytes
           then randn_loop int63 (b[nat i := letterBytes ! idx]) (i - 1) (drop_bit letterIdxBits cache) (remain - 1) src
           else randn_loop int63 b i (drop_bit letterIdxBits cache) (remain - 1) src)"

text \<open>
  The source that every caller shares. Each of its methods holds the lock for the whole call, so it is one
  operation; \<open>new_source\<close>, \<open>int63\<close> and \<open>seed_source\<close> are those of the source of \<^verbatim>\<open>math/rand\<close> inside.
\<close>

record 's locked_source =
  lsSource :: 's

definition newLockedSource :: "(int \<Rightarrow> 's) \<Rightarrow> int \<Rightarrow> 's locked_source" where
  "newLockedSource new_source seed = \<lparr>lsSource = new_source seed\<rparr>"

definition Int63 :: "('s \<Rightarrow> u64 \<times> 's) \<Rightarrow> 's locked_source \<Rightarrow> u64 \<times> 's locked_source" where
  "Int63 int63 ls = (case int63 (lsSource ls) of (x, s) \<Rightarrow> (x, ls\<lparr>lsSource := s\<rparr>))"

definition Seed :: "(int \<Rightarrow> 's \<Rightarrow> 's) \<Rightarrow> int \<Rightarrow> 's locked_source \<Rightarrow> 's locked_source" where
  "Seed seed_source seed ls = ls\<lparr>lsSource := seed_source seed (lsSource ls)\<rparr>"

text \<open>The function \<^verbatim>\<open>Seed\<close> of the package seeds the source of the package, \<open>src\<close>.\<close>

definition Seed_src :: "(int \<Rightarrow> 's \<Rightarrow> 's) \<Rightarrow> int \<Rightarrow> 's locked_source \<Rightarrow> 's locked_source" where
  "Seed_src seed_source seed src = Seed seed_source seed src"

text \<open>\<^verbatim>\<open>make\<close> panics for a negative length.\<close>

definition Randn :: "('s \<Rightarrow> u64 \<times> 's) \<Rightarrow> int \<Rightarrow> 's \<Rightarrow> (bytes \<times> 's) option go" where
  "Randn int63 n src =
     (if n < 0 then Inl NonPositiveArg
      else Inr (randn_loop int63 (replicate (nat n) 0) (n - 1) (fst (int63 src)) letterIdxMax (snd (int63 src))))"

definition Rand :: "('s \<Rightarrow> u64 \<times> 's) \<Rightarrow> 's \<Rightarrow> (bytes \<times> 's) option go" where
  "Rand int63 src = Randn int63 8 src"

definition hex_digit :: "nat \<Rightarrow> byte" where
  "hex_digit d = (if d < 10 then of_nat (48 + d) else of_nat (87 + d))"

text \<open>\<^verbatim>\<open>%x\<close> of a slice of bytes\<close>

definition hex_text :: "bytes \<Rightarrow> bytes" where
  "hex_text bs = concat (map (\<lambda>b. [hex_digit (unat b div 16), hex_digit (unat b mod 16)]) bs)"

text \<open>\<open>read\<close> is what reading eight bytes from the source of the system gives.\<close>

definition RandId :: "('s \<Rightarrow> u64 \<times> 's) \<Rightarrow> bytes option \<Rightarrow> 's \<Rightarrow> (bytes \<times> 's) option go" where
  "RandId int63 read src =
     (case read of
        None \<Rightarrow> Randn int63 8 src
      | Some b \<Rightarrow> Inr (Some (hex_text (take 2 b) @ hex_text (take 2 (drop 2 b)) @ hex_text (take 2 (drop 4 b))
                     @ hex_text (take 2 (drop 6 b)), src)))"

section \<open>Facts\<close>

lemma length_letterBytes [simp]: "length letterBytes = 62"
  by (simp add: letterBytes_def)

lemma randn_loop_end [simp]: "i < 0 \<Longrightarrow> randn_loop int63 b i cache remain src = Some (b, src)"
  by (subst randn_loop.simps) simp

lemma randn_loop_draw:
  "\<not> i < 0 \<Longrightarrow> randn_loop int63 b i cache 0 src = randn_loop int63 b i (fst (int63 src)) letterIdxMax (snd (int63 src))"
  by (subst (1 2) randn_loop.simps) (simp add: letterIdxMax_def)

lemma randn_loop_letter:
  "\<not> i < 0 \<Longrightarrow> randn_loop int63 b i cache (Suc remain) src =
     (if letter_index cache < 62
      then randn_loop int63 (b[nat i := letterBytes ! letter_index cache]) (i - 1) (drop_bit letterIdxBits cache) remain src
      else randn_loop int63 b i (drop_bit letterIdxBits cache) remain src)"
  by (subst randn_loop.simps) simp

text \<open>A number that gives a letter in one of its groups of six bits.\<close>

definition has_letter :: "nat \<Rightarrow> u64 \<Rightarrow> bool" where
  "has_letter r cache \<longleftrightarrow> (\<exists>j < r. letter_index (drop_bit (letterIdxBits * j) cache) < 62)"

definition returns_at :: "('s \<Rightarrow> u64 \<times> 's) \<Rightarrow> int \<Rightarrow> bool" where
  "returns_at int63 i \<longleftrightarrow> (\<forall>b cache remain src. remain \<le> letterIdxMax \<longrightarrow> randn_loop int63 b i cache remain src \<noteq> None)"

lemma returns_atD: "returns_at int63 i \<Longrightarrow> remain \<le> letterIdxMax \<Longrightarrow> randn_loop int63 b i cache remain src \<noteq> None"
  by (simp add: returns_at_def)

lemma randn_loop_with_letter:
  "returns_at int63 (i - 1) \<Longrightarrow> \<not> i < 0 \<Longrightarrow> r \<le> letterIdxMax \<Longrightarrow> has_letter r cache \<Longrightarrow>
     randn_loop int63 b i cache r src \<noteq> None"
proof (induction r arbitrary: cache)
  case (Suc r)
  show ?case
  proof (cases "letter_index cache < 62")
    case True
    then show ?thesis using Suc.prems returns_atD [OF Suc.prems(1), of r] by (simp add: randn_loop_letter del: not_None_eq)
  next
    case False
    obtain j where j: "j < Suc r" "letter_index (drop_bit (letterIdxBits * j) cache) < 62"
      using Suc.prems(4) by (auto simp: has_letter_def)
    then obtain j' where j': "j = Suc j'" using False by (cases j) auto
    then have "letter_index (drop_bit (letterIdxBits * j') (drop_bit letterIdxBits cache)) < 62"
      using j(2) by (simp add: drop_bit_drop_bit add.commute)
    then have "has_letter r (drop_bit letterIdxBits cache)" using j(1) j' by (auto simp: has_letter_def)
    then show ?thesis using Suc False by (simp add: randn_loop_letter del: not_None_eq)
  qed
qed (simp add: has_letter_def)

lemma randn_loop_before_draw:
  "returns_at int63 (i - 1) \<Longrightarrow> \<not> i < 0 \<Longrightarrow> (\<And>b cache. randn_loop int63 b i cache 0 src \<noteq> None) \<Longrightarrow>
     r \<le> letterIdxMax \<Longrightarrow> randn_loop int63 b i cache r src \<noteq> None"
proof (induction r arbitrary: cache)
  case (Suc r)
  then show ?case using returns_atD [OF Suc.prems(1), of r] by (simp add: randn_loop_letter del: not_None_eq)
qed simp

text \<open>A source that always comes to a number with a letter.\<close>

definition keeps_giving :: "('s \<Rightarrow> u64 \<times> 's) \<Rightarrow> bool" where
  "keeps_giving int63 \<longleftrightarrow> (\<forall>src. \<exists>m. has_letter letterIdxMax (fst (int63 (((\<lambda>s. snd (int63 s)) ^^ m) src))))"

lemma randn_loop_draws:
  "returns_at int63 (i - 1) \<Longrightarrow> \<not> i < 0 \<Longrightarrow> has_letter letterIdxMax (fst (int63 (((\<lambda>s. snd (int63 s)) ^^ m) src))) \<Longrightarrow>
     randn_loop int63 b i cache 0 src \<noteq> None"
proof (induction m arbitrary: src b cache)
  case 0
  then show ?case using randn_loop_with_letter [OF 0(1,2) order_refl] by (simp add: randn_loop_draw del: not_None_eq)
next
  case (Suc m)
  have "randn_loop int63 b i cache 0 (snd (int63 src)) \<noteq> None" for b cache
    using Suc.prems by (intro Suc.IH) (simp_all add: funpow_Suc_right del: funpow.simps)
  from randn_loop_before_draw [OF Suc.prems(1,2) this order_refl] show ?case
    using Suc.prems(2) by (simp add: randn_loop_draw del: not_None_eq)
qed

lemma returns_at_all:
  assumes "keeps_giving int63"
  shows "returns_at int63 (int n - 1)"
proof (induction n)
  case 0
  then show ?case by (simp add: returns_at_def)
next
  case (Suc n)
  then have r: "returns_at int63 (int n - 1)" by simp
  show ?case
    unfolding returns_at_def
  proof (intro allI impI)
    fix b cache src and remain :: nat
    assume le: "remain \<le> letterIdxMax"
    obtain m where "has_letter letterIdxMax (fst (int63 (((\<lambda>s. snd (int63 s)) ^^ m) src)))"
      using assms by (auto simp: keeps_giving_def)
    then have "randn_loop int63 b (int n) cache 0 src \<noteq> None" for b cache
      using randn_loop_draws [of int63 "int n" m src b cache] r by simp
    then show "randn_loop int63 b (int (Suc n) - 1) cache remain src \<noteq> None"
      using randn_loop_before_draw [of int63 "int n" src remain b cache] r le by simp
  qed
qed

text \<open>What the loop returns: the bytes above the index stay, those it fills are letters.\<close>

definition filled :: "bytes \<Rightarrow> int \<Rightarrow> bytes \<Rightarrow> bool" where
  "filled b i s \<longleftrightarrow> length s = length b \<and> drop (nat (i + 1)) s = drop (nat (i + 1)) b
     \<and> set (take (nat (i + 1)) s) \<subseteq> set letterBytes"

lemma filled_end: "i < 0 \<Longrightarrow> filled b i b"
  by (simp add: filled_def)

lemma filled_step:
  assumes "filled (b[nat i := c]) (i - 1) s" and "0 \<le> i" and "i < int (length b)" and "c \<in> set letterBytes"
  shows "filled b i s"
proof -
  have n: "nat (i + 1) = Suc (nat i)" "nat (i - 1 + 1) = nat i" "nat i < length b" using assms(2,3) by linarith+
  have len: "length s = length b" using assms(1) by (simp add: filled_def)
  have d: "drop (nat i) s = drop (nat i) (b[nat i := c])" using assms(1) n(2) by (simp add: filled_def)
  then have "s ! nat i = c" using n(3) len by (metis Cons_nth_drop_Suc length_list_update list.inject nth_list_update_eq)
  moreover have "drop (Suc (nat i)) s = drop (Suc (nat i)) b"
    using arg_cong [OF d, of "drop 1"] by (simp add: drop_drop)
  ultimately show ?thesis using assms(1,4) n len by (simp add: filled_def take_Suc_conv_app_nth)
qed

lemma randn_loop_filled:
  assumes "randn_loop int63 b i cache remain src = Some r"
  shows "i < int (length b) \<longrightarrow> filled b i (fst r)"
proof (rule randn_loop.raw_induct [where P = "\<lambda>int63 b i cache remain src r. i < int (length b) \<longrightarrow> filled b i (fst r)"])
  fix loop :: "('a \<Rightarrow> u64 \<times> 'a) \<Rightarrow> bytes \<Rightarrow> int \<Rightarrow> u64 \<Rightarrow> nat \<Rightarrow> 'a \<Rightarrow> (bytes \<times> 'a) option"
  fix int63 :: "'a \<Rightarrow> u64 \<times> 'a" and b :: bytes and i :: int and cache :: u64 and remain :: nat and src :: 'a and r
  assume IH: "\<And>int63 b i cache remain src r. loop int63 b i cache remain src = Some r \<Longrightarrow>
      i < int (length b) \<longrightarrow> filled b i (fst r)"
    and eq: "(if i < 0 then Some (b, src)
      else
        let (cache, remain, src) =
              (if remain = 0 then (fst (int63 src), letterIdxMax, snd (int63 src)) else (cache, remain, src));
            idx = letter_index cache
        in if idx < length letterBytes
           then loop int63 (b[nat i := letterBytes ! idx]) (i - 1) (drop_bit letterIdxBits cache) (remain - 1) src
           else loop int63 b i (drop_bit letterIdxBits cache) (remain - 1) src) = Some r"
  show "i < int (length b) \<longrightarrow> filled b i (fst r)"
  proof (cases "i < 0")
    case True
    then show ?thesis using eq filled_end [of i b] by auto
  next
    case False
    define cache' remain' src' where "cache' = (if remain = 0 then fst (int63 src) else cache)"
      and "remain' = (if remain = 0 then letterIdxMax else remain)"
      and "src' = (if remain = 0 then snd (int63 src) else src)"
    have "(if letter_index cache' < 62
        then loop int63 (b[nat i := letterBytes ! letter_index cache']) (i - 1) (drop_bit letterIdxBits cache') (remain' - 1) src'
        else loop int63 b i (drop_bit letterIdxBits cache') (remain' - 1) src') = Some r"
      using eq False by (simp add: cache'_def remain'_def src'_def Let_def split: if_splits)
    moreover have "letter_index cache' < 62 \<Longrightarrow> letterBytes ! letter_index cache' \<in> set letterBytes"
      by (rule nth_mem) simp
    ultimately show ?thesis
      using IH [of int63 "b[nat i := letterBytes ! letter_index cache']" "i - 1"] IH [of int63 b i] False
        filled_step [of b i "letterBytes ! letter_index cache'" "fst r"]
      by (simp split: if_splits)
  qed
qed (rule assms)

text \<open>
  The documentation of \<^verbatim>\<open>rand.Source\<close>: a source is determined by the seed it was last given. So after \<^verbatim>\<open>Seed\<close>
  the strings are those of a source made with the seed, whatever was drawn before.
\<close>

definition seed_law :: "(int \<Rightarrow> 's) \<Rightarrow> (int \<Rightarrow> 's \<Rightarrow> 's) \<Rightarrow> bool" where
  "seed_law new_source seed_source \<longleftrightarrow> (\<forall>seed s. seed_source seed s = new_source seed)"

lemma Seed_restarts: "seed_law new_source seed_source \<Longrightarrow> Seed seed_source seed ls = newLockedSource new_source seed"
  by (simp add: Seed_def newLockedSource_def seed_law_def)

lemma Randn_seeded:
  "seed_law new_source seed_source \<Longrightarrow>
     Randn (Int63 int63) n (Seed_src seed_source seed ls) = Randn (Int63 int63) n (newLockedSource new_source seed)"
  by (simp add: Seed_src_def Seed_restarts)

section \<open>Properties\<close>

text \<open>
  C32: What \<^verbatim>\<open>Randn\<close> returns for a length that is not negative has that length and holds letters and digits
  only, whatever the source; for a negative length it panics.
\<close>

theorem Randn_letters:
  assumes "Randn int63 n src = Inr (Some (s, src'))"
  shows "int (length s) = n \<and> set s \<subseteq> set letterBytes"
proof -
  have n: "0 \<le> n" using assms by (auto simp: Randn_def split: if_splits)
  have "randn_loop int63 (replicate (nat n) 0) (n - 1) (fst (int63 src)) letterIdxMax (snd (int63 src)) = Some (s, src')"
    using assms n by (simp add: Randn_def)
  from randn_loop_filled [OF this] have f: "filled (replicate (nat n) 0) (n - 1) s" using n by simp
  then have "length s = nat n" by (simp add: filled_def)
  with f show ?thesis using n by (simp add: filled_def)
qed

text \<open>
  C31: \<^verbatim>\<open>Randn\<close> returns for every length that is not negative, if its source, in whatever state, comes in the
  end to a number with a group of six bits that stands for a letter.
\<close>

theorem Randn_terminates:
  assumes "keeps_giving int63" and "0 \<le> n"
  shows "\<exists>s src'. Randn int63 n src = Inr (Some (s, src'))"
proof -
  have "returns_at int63 (n - 1)" using returns_at_all [OF assms(1), of "nat n"] assms(2) by simp
  from returns_atD [OF this order_refl] show ?thesis using assms(2) by (simp add: Randn_def)
qed

text \<open>A source that counts.\<close>

definition counting :: "u64 \<Rightarrow> u64 \<times> u64" where
  "counting s = (0, s + 1)"

lemma counting_gives: "keeps_giving counting"
  by (simp add: keeps_giving_def counting_def has_letter_def letter_index_def letterIdxMax_def exI [of _ 0])

theorem Randn_letters_witness:
  "\<exists>s src'. Randn counting 3 7 = Inr (Some (s, src')) \<and> length s = 3 \<and> set s \<subseteq> set letterBytes"
proof -
  obtain s src' where s: "Randn counting 3 7 = Inr (Some (s, src'))"
    using returns_atD [OF returns_at_all [OF counting_gives, of 3] order_refl, of "replicate 3 0" "fst (counting 7)" "snd (counting 7)"]
    by (auto simp: Randn_def)
  with Randn_letters [OF s] show ?thesis by auto
qed

theorem Randn_terminates_witness: "\<exists>s src'. Randn counting 3 7 = Inr (Some (s, src'))"
  by (rule Randn_terminates [OF counting_gives]) simp

end
