(* ===== verification/Metrics.thy ===== *)
theory Metrics
  imports Errs
begin

text \<open>
  The interceptors that count calls in Prometheus (\<^verbatim>\<open>observability/metrics/prometheus\<close>) and the address
  they report (\<^verbatim>\<open>observability/address.go\<close>).

  \<^item> A metric is what the code declares it with. The library is a parameter, the record \<open>prom\<close>:
    \<^verbatim>\<open>MustRegister\<close>, and \<^verbatim>\<open>WithLabelValues\<close> with a list of values followed by the operation on the metric, on
    a state \<open>'d\<close> of all metrics; each may panic. \<open>prom_laws\<close> is the documented behaviour: a list of values
    of another length than the labels of the metric panics, and so does a second registration.
  \<^item> A duration is in milliseconds, read from the clock. A panic of the handler or the invoker runs the
    deferred function and goes on, unless that panics itself.
\<close>

section \<open>The address\<close>

text \<open>\<open>dial\<close> is what the UDP dial gives: an error, or the text of the local address.\<close>

definition GetOutboundIP :: "go_error + go_string \<Rightarrow> go_string" where
  "GetOutboundIP dial = (case dial of Inl err \<Rightarrow> [] | Inr ip \<Rightarrow> ip)"

section \<open>Metrics\<close>

datatype metric_kind = SummaryVec | CounterVec | GaugeVec

text \<open>The quantiles of a summary are in thousandths, their errors in ten-thousandths.\<close>

record metric =
  mtKind :: metric_kind
  mtNamespace :: go_string
  mtSubsystem :: go_string
  mtName :: go_string
  mtHelp :: go_string
  mtConst :: "(go_string \<times> go_string) list"
  mtObjectives :: "(nat \<times> nat) list"
  mtLabels :: "go_string list"

record 'd prom =
  prMustRegister :: "metric list \<Rightarrow> 'd \<Rightarrow> 'd go"
  prAdd :: "metric \<Rightarrow> go_string list \<Rightarrow> int \<Rightarrow> 'd \<Rightarrow> 'd go"
  prObserve :: "metric \<Rightarrow> go_string list \<Rightarrow> int \<Rightarrow> 'd \<Rightarrow> 'd go"

text \<open>
  What can be read of the metrics: which are registered, and the value of a gauge or counter or the
  number of observations of a summary for a list of values.
\<close>

record readings =
  rdRegistered :: "metric set"
  rdOf :: "metric \<Rightarrow> go_string list \<Rightarrow> int"

definition rd_add :: "metric \<Rightarrow> go_string list \<Rightarrow> int \<Rightarrow> readings \<Rightarrow> readings" where
  "rd_add mt ls x r = r\<lparr>rdOf := (rdOf r)(mt := (rdOf r mt)(ls := rdOf r mt ls + x))\<rparr>"

definition prom_laws :: "'d prom \<Rightarrow> ('d \<Rightarrow> readings) \<Rightarrow> bool" where
  "prom_laws p rd \<longleftrightarrow>
     (\<forall>mt ls x d. length ls \<noteq> length (mtLabels mt) \<longrightarrow>
        (\<exists>t. prAdd p mt ls x d = Inl (ExplicitPanic t)) \<and> (\<exists>t. prObserve p mt ls x d = Inl (ExplicitPanic t)))
     \<and> (\<forall>mt ls x d. length ls = length (mtLabels mt) \<and> (mtKind mt = GaugeVec \<or> 0 \<le> x) \<longrightarrow>
          (\<exists>d'. prAdd p mt ls x d = Inr d' \<and> rd d' = rd_add mt ls x (rd d)))
     \<and> (\<forall>mt ls x d. length ls = length (mtLabels mt) \<longrightarrow>
          (\<exists>d'. prObserve p mt ls x d = Inr d' \<and> rd d' = rd_add mt ls 1 (rd d)))
     \<and> (\<forall>ms d. \<not> disjnt (set ms) (rdRegistered (rd d)) \<longrightarrow>
          (\<exists>t. prMustRegister p ms d = Inl (ExplicitPanic t)))
     \<and> (\<forall>ms d d'. prMustRegister p ms d = Inr d' \<longrightarrow>
          rd d' = (rd d)\<lparr>rdRegistered := rdRegistered (rd d) \<union> set ms\<rparr>)"

section \<open>Building the interceptors\<close>

record prom_builder =
  pbNamespace :: go_string
  pbSubsystem :: go_string
  pbName :: go_string
  pbHelp :: go_string
  pbPort :: go_string

definition vec :: "metric_kind \<Rightarrow> prom_builder \<Rightarrow> go_string \<Rightarrow> go_string \<Rightarrow> go_string \<Rightarrow> metric" where
  "vec kind b suffix address side =
     \<lparr>mtKind = kind, mtNamespace = pbNamespace b, mtSubsystem = pbSubsystem b, mtName = pbName b @ suffix,
      mtHelp = pbHelp b, mtConst = [(go_str ''address'', address), (go_str ''kind'', side)],
      mtObjectives =
        (if kind = SummaryVec then [(500, 100), (750, 100), (900, 100), (990, 10), (999, 1)] else []),
      mtLabels = [go_str ''method'']\<rparr>"

record vectors =
  vcSummary :: metric
  vcErrors :: metric
  vcActive :: metric

definition all_vectors :: "vectors \<Rightarrow> metric list" where
  "all_vectors v = [vcSummary v, vcErrors v, vcActive v]"

definition client_vectors :: "prom_builder \<Rightarrow> go_error + go_string \<Rightarrow> vectors" where
  "client_vectors b dial =
     (let address = GetOutboundIP dial; side = go_str ''client'' in
        \<lparr>vcSummary = vec SummaryVec b (go_str ''_response'') address side,
         vcErrors = vec CounterVec b (go_str ''_error_cnt'') address side,
         vcActive = vec GaugeVec b (go_str ''_active_req_cnt'') address side\<rparr>)"

definition server_vectors :: "prom_builder \<Rightarrow> go_error + go_string \<Rightarrow> vectors" where
  "server_vectors b dial =
     (let ip = GetOutboundIP dial;
          address = (if pbPort b \<noteq> [] then ip @ [58] @ pbPort b else ip);
          side = go_str ''server''
      in
        \<lparr>vcSummary = vec SummaryVec b (go_str ''_response'') address side,
         vcErrors = vec CounterVec b (go_str ''_error_cnt'') address side,
         vcActive = vec GaugeVec b (go_str ''_active_req_cnt'') address side\<rparr>)"

definition BuildUnaryClientInterceptor ::
  "'d prom \<Rightarrow> prom_builder \<Rightarrow> go_error + go_string \<Rightarrow> 'd \<Rightarrow> (vectors \<times> 'd) go" where
  "BuildUnaryClientInterceptor p b dial d =
     (let v = client_vectors b dial in
        go_bind (prMustRegister p (all_vectors v) d) (\<lambda>d. Inr (v, d)))"

definition BuildUnaryServerInterceptor ::
  "'d prom \<Rightarrow> prom_builder \<Rightarrow> go_error + go_string \<Rightarrow> 'd \<Rightarrow> (vectors \<times> 'd) go" where
  "BuildUnaryServerInterceptor p b dial d =
     (let v = server_vectors b dial in
        go_bind (prMustRegister p (all_vectors v) d) (\<lambda>d. Inr (v, d)))"

section \<open>The interceptors\<close>

text \<open>
  The call of the client: \<open>result\<close> is what the invoker does, and \<open>err\<close> in the deferred function is nil after a
  panic.
\<close>

definition prom_client ::
  "'d prom \<Rightarrow> vectors \<Rightarrow> go_string \<Rightarrow> go_error option go \<Rightarrow> int \<Rightarrow> 'd \<Rightarrow> (go_error option go \<times> 'd) go" where
  "prom_client p v method result duration d =
     go_bind (prAdd p (vcActive v) [method] 1 d) (\<lambda>d.
       (let err = (case result of Inl pn \<Rightarrow> None | Inr e \<Rightarrow> e) in
          go_bind (if err \<noteq> None then prAdd p (vcErrors v) [method] 1 d else Inr d) (\<lambda>d.
          go_bind (prAdd p (vcActive v) [method] (- 1) d) (\<lambda>d.
          go_bind (prObserve p (vcSummary v) [method] duration d) (\<lambda>d.
          Inr (result, d))))))"

definition unknown_text :: go_string where
  "unknown_text = go_str ''unknown''"

definition splitMethodName :: "go_string \<Rightarrow> go_string \<times> go_string" where
  "splitMethodName fullMethodName =
     (let name = (if take 1 fullMethodName = [47] then drop 1 fullMethodName else fullMethodName);
          i = index_byte name 47
      in if 0 \<le> i then (take (nat i) name, drop (nat i + 1) name) else (unknown_text, unknown_text))"

definition server_unary :: go_string where
  "server_unary = go_str ''server unary''"

text \<open>The call of a handler: \<open>codeText\<close> gives the text of the status code of an error.\<close>

definition prom_server ::
  "'d prom \<Rightarrow> vectors \<Rightarrow> (go_error \<Rightarrow> go_string) \<Rightarrow> go_string \<Rightarrow> (go_error + 'r) go \<Rightarrow> int \<Rightarrow> 'd
     \<Rightarrow> ((go_error + 'r) go \<times> 'd) go" where
  "prom_server p v codeText fullMethod result duration d =
     go_bind (prAdd p (vcActive v) [fullMethod] 1 d) (\<lambda>d.
       (case splitMethodName fullMethod of (s, m) \<Rightarrow>
          (let err = (case result of Inr (Inl e) \<Rightarrow> Some e | _ \<Rightarrow> None) in
             go_bind (if err \<noteq> None then prAdd p (vcErrors v) [server_unary, s, m] 1 d else Inr d) (\<lambda>d.
             go_bind (prAdd p (vcActive v) [fullMethod] (- 1) d) (\<lambda>d.
             go_bind (case err of
                        None \<Rightarrow> prObserve p (vcSummary v) [server_unary, s, m, go_str ''OK''] duration d
                      | Some e \<Rightarrow> prObserve p (vcSummary v) [server_unary, s, m, codeText e] duration d) (\<lambda>d.
             Inr (result, d)))))))"

section \<open>Properties\<close>

lemma vector_labels:
  "length (mtLabels (vcActive (server_vectors b dial))) = 1" "length (mtLabels (vcErrors (server_vectors b dial))) = 1"
  "length (mtLabels (vcSummary (server_vectors b dial))) = 1"
  "length (mtLabels (vcActive (client_vectors b dial))) = 1" "length (mtLabels (vcErrors (client_vectors b dial))) = 1"
  "length (mtLabels (vcSummary (client_vectors b dial))) = 1"
  "mtKind (vcActive (server_vectors b dial)) = GaugeVec" "mtKind (vcActive (client_vectors b dial)) = GaugeVec"
  by (simp_all add: server_vectors_def client_vectors_def vec_def Let_def)

lemma prom_lawsD:
  assumes "prom_laws p rd"
  shows "length ls \<noteq> length (mtLabels mt) \<Longrightarrow> \<exists>t. prAdd p mt ls x d = Inl (ExplicitPanic t)"
    and "length ls \<noteq> length (mtLabels mt) \<Longrightarrow> \<exists>t. prObserve p mt ls x d = Inl (ExplicitPanic t)"
    and "length ls = length (mtLabels mt) \<Longrightarrow> mtKind mt = GaugeVec \<or> 0 \<le> x \<Longrightarrow>
      \<exists>d'. prAdd p mt ls x d = Inr d' \<and> rd d' = rd_add mt ls x (rd d)"
    and "length ls = length (mtLabels mt) \<Longrightarrow> \<exists>d'. prObserve p mt ls x d = Inr d' \<and> rd d' = rd_add mt ls 1 (rd d)"
    and "\<not> disjnt (set ms) (rdRegistered (rd d)) \<Longrightarrow> \<exists>t. prMustRegister p ms d = Inl (ExplicitPanic t)"
    and "prMustRegister p ms d = Inr d' \<Longrightarrow> rd d' = (rd d)\<lparr>rdRegistered := rdRegistered (rd d) \<union> set ms\<rparr>"
  using assms unfolding prom_laws_def by blast+

text \<open>
  The interceptor that the builder of the server makes panics on every request, whether the handler succeeds,
  fails or panics: its metrics are declared with one label, and it gives them three or four values.
\<close>

theorem prom_server_panics:
  assumes "prom_laws p rd" and "BuildUnaryServerInterceptor p b dial d0 = Inr (v, d1)"
  shows "\<exists>t. prom_server p v codeText fullMethod result duration d = Inl (ExplicitPanic t)"
proof -
  have v: "v = server_vectors b dial"
    using assms(2) by (auto simp: BuildUnaryServerInterceptor_def Let_def elim: go_bindE)
  note laws = prom_lawsD [OF assms(1)]
  note labels = vector_labels [of b dial]
  have gauge: "\<exists>d'. prAdd p (vcActive v) [m] x d = Inr d'" for m x d
    using laws(3) [of "[m]" "vcActive v" x d] labels by (auto simp: v)
  obtain s m where sm: "splitMethodName fullMethod = (s, m)" by force
  obtain d1 where d1: "prAdd p (vcActive v) [fullMethod] 1 d = Inr d1" using gauge by blast
  obtain d2 where d2: "prAdd p (vcActive v) [fullMethod] (- 1) d1 = Inr d2" using gauge by blast
  show ?thesis
  proof (cases "\<exists>e. result = Inr (Inl e)")
    case True
    then show ?thesis using d1 sm laws(1) [of "[server_unary, s, m]" "vcErrors v" 1 d1] labels
      by (auto simp: prom_server_def v Let_def)
  next
    case False
    then have "(case result of Inr (Inl e) \<Rightarrow> Some e | _ \<Rightarrow> None) = None" by (auto split: sum.split)
    then show ?thesis
      using d1 d2 sm laws(2) [of "[server_unary, s, m, go_str ''OK'']" "vcSummary v" duration d2] labels
      by (auto simp: prom_server_def v Let_def)
  qed
qed

text \<open>
  The interceptor of the client returns what the invoker does, leaves the number of active calls as it was,
  counts an error exactly when one was returned, so not for a panic, and one observation for each call.
\<close>

theorem prom_client_counts:
  assumes "prom_laws p rd" and "BuildUnaryClientInterceptor p b dial d0 = Inr (v, d1)"
  shows "\<exists>d'. prom_client p v method result duration d = Inr (result, d')
    \<and> rdOf (rd d') (vcActive v) = rdOf (rd d) (vcActive v)
    \<and> rdOf (rd d') (vcErrors v) [method] =
        rdOf (rd d) (vcErrors v) [method] + (case result of Inr (Some e) \<Rightarrow> 1 | _ \<Rightarrow> 0)
    \<and> rdOf (rd d') (vcSummary v) [method] = rdOf (rd d) (vcSummary v) [method] + 1"
proof -
  have v: "v = client_vectors b dial"
    using assms(2) by (auto simp: BuildUnaryClientInterceptor_def Let_def elim: go_bindE)
  note laws = prom_lawsD [OF assms(1)]
  have labels: "length (mtLabels (vcActive v)) = 1" "length (mtLabels (vcErrors v)) = 1"
    "length (mtLabels (vcSummary v)) = 1" "mtKind (vcActive v) = GaugeVec"
    using vector_labels [of b dial] by (simp_all add: v)
  have other: "vcActive v \<noteq> vcErrors v" "vcActive v \<noteq> vcSummary v" "vcErrors v \<noteq> vcSummary v"
    by (auto simp: v client_vectors_def vec_def Let_def)
  let ?err = "case result of Inl pn \<Rightarrow> None | Inr e \<Rightarrow> e"
  let ?n = "if ?err = None then 0 else 1 :: int"
  obtain d1 where d1: "prAdd p (vcActive v) [method] 1 d = Inr d1" "rd d1 = rd_add (vcActive v) [method] 1 (rd d)"
    using laws(3) [of "[method]" "vcActive v" 1 d] labels by auto
  obtain d2 where d2: "(if ?err \<noteq> None then prAdd p (vcErrors v) [method] 1 d1 else Inr d1) = Inr d2"
      "rd d2 = (if ?err = None then rd d1 else rd_add (vcErrors v) [method] 1 (rd d1))"
    using laws(3) [of "[method]" "vcErrors v" 1 d1] labels by (cases "?err = None") auto
  obtain d3 where d3: "prAdd p (vcActive v) [method] (- 1) d2 = Inr d3" "rd d3 = rd_add (vcActive v) [method] (- 1) (rd d2)"
    using laws(3) [of "[method]" "vcActive v" "- 1" d2] labels by auto
  obtain d4 where d4: "prObserve p (vcSummary v) [method] duration d3 = Inr d4" "rd d4 = rd_add (vcSummary v) [method] 1 (rd d3)"
    using laws(4) [of "[method]" "vcSummary v" duration d3] labels by auto
  have "prom_client p v method result duration d = Inr (result, d4)"
    using d1(1) d2(1) d3(1) d4(1) by (simp add: prom_client_def Let_def)
  moreover have "(case result of Inr (Some e) \<Rightarrow> 1 | _ \<Rightarrow> 0) = ?n" by (auto split: sum.split option.split)
  ultimately show ?thesis
    using other by (auto simp: d1(2) d2(2) d3(2) d4(2) rd_add_def fun_eq_iff)
qed

text \<open>
  The interceptor of the client can be built once for a name: the second time, for another client of the same
  process, \<^verbatim>\<open>MustRegister\<close> panics.
\<close>

theorem second_client_panics:
  assumes "prom_laws p rd" and "BuildUnaryClientInterceptor p b dial d = Inr (v, d')"
  shows "\<exists>t. BuildUnaryClientInterceptor p b dial d' = Inl (ExplicitPanic t)"
proof -
  have "prMustRegister p (all_vectors (client_vectors b dial)) d = Inr d'"
    using assms(2) by (auto simp: BuildUnaryClientInterceptor_def Let_def elim: go_bindE)
  then have "\<not> disjnt (set (all_vectors (client_vectors b dial))) (rdRegistered (rd d'))"
    using prom_lawsD(6) [OF assms(1)] by (auto simp: disjnt_def all_vectors_def)
  then show ?thesis
    using prom_lawsD(5) [OF assms(1)] by (fastforce simp: BuildUnaryClientInterceptor_def Let_def)
qed

lemma split_full_name: "47 \<notin> set s \<Longrightarrow> splitMethodName (47 # s @ 47 # m) = (s, m)"
  by (simp add: splitMethodName_def index_byte_append Let_def)

text \<open>Metrics in memory.\<close>

definition memory_prom :: "readings prom" where
  "memory_prom =
     \<lparr>prMustRegister = (\<lambda>ms r. if disjnt (set ms) (rdRegistered r)
        then Inr (r\<lparr>rdRegistered := rdRegistered r \<union> set ms\<rparr>) else Inl (ExplicitPanic [])),
      prAdd = (\<lambda>mt ls x r. if length ls = length (mtLabels mt) then Inr (rd_add mt ls x r) else Inl (ExplicitPanic [])),
      prObserve = (\<lambda>mt ls x r. if length ls = length (mtLabels mt) then Inr (rd_add mt ls 1 r) else Inl (ExplicitPanic []))\<rparr>"

lemma memory_prom_laws: "prom_laws memory_prom (\<lambda>d. d)"
  by (simp add: prom_laws_def memory_prom_def)

definition no_readings :: readings where
  "no_readings = \<lparr>rdRegistered = {}, rdOf = (\<lambda>mt ls. 0)\<rparr>"

definition sample_builder :: prom_builder where
  "sample_builder = \<lparr>pbNamespace = [97], pbSubsystem = [98], pbName = [99], pbHelp = [], pbPort = []\<rparr>"

lemma sample_built:
  "BuildUnaryServerInterceptor memory_prom sample_builder (Inr [49]) no_readings =
     Inr (server_vectors sample_builder (Inr [49]),
       no_readings\<lparr>rdRegistered := set (all_vectors (server_vectors sample_builder (Inr [49])))\<rparr>)"
  "BuildUnaryClientInterceptor memory_prom sample_builder (Inr [49]) no_readings =
     Inr (client_vectors sample_builder (Inr [49]),
       no_readings\<lparr>rdRegistered := set (all_vectors (client_vectors sample_builder (Inr [49])))\<rparr>)"
  by (simp_all add: BuildUnaryServerInterceptor_def BuildUnaryClientInterceptor_def memory_prom_def no_readings_def Let_def)

theorem prom_server_panics_witness:
  "\<exists>t. prom_server memory_prom (server_vectors sample_builder (Inr [49])) (\<lambda>e. []) [47, 97, 47, 98] (Inr (Inr True)) 5
     no_readings = Inl (ExplicitPanic t)"
  by (rule prom_server_panics [OF memory_prom_laws sample_built(1)])

theorem prom_client_counts_witness:
  "\<exists>d'. prom_client memory_prom (client_vectors sample_builder (Inr [49])) [97] (Inr (Some CtxCanceled)) 5 no_readings
       = Inr (Inr (Some CtxCanceled), d')
     \<and> rdOf d' (vcErrors (client_vectors sample_builder (Inr [49]))) [[97]] = 1"
  using prom_client_counts [OF memory_prom_laws sample_built(2), of "[97]" "Inr (Some CtxCanceled)" 5 no_readings]
  by (auto simp: no_readings_def)

theorem second_client_panics_witness:
  "\<exists>t. BuildUnaryClientInterceptor memory_prom sample_builder (Inr [49])
     (no_readings\<lparr>rdRegistered := set (all_vectors (client_vectors sample_builder (Inr [49])))\<rparr>) = Inl (ExplicitPanic t)"
  by (rule second_client_panics [OF memory_prom_laws sample_built(2)])

end
