(* ===== verification/Tracing.thy ===== *)
theory Tracing
  imports Metrics GoJson
begin

text \<open>
  The interceptors that trace calls with OpenTelemetry (\<^verbatim>\<open>observability/opentelemetry\<close>).

  \<^item> The tracer, the propagator and the metadata of gRPC are parameters, the record \<open>otel\<close>, on contexts of
    type \<open>'x\<close> and a state \<open>'t\<close> of the tracer. A propagator sees a carrier only through its methods: to inject
    it sets keys, to extract it gets them. \<open>otel_laws\<close> is the documented behaviour: the keys that
    \<^verbatim>\<open>FromIncomingContext\<close> gives are lower-case, new outgoing metadata replaces what was there and
    \<^verbatim>\<open>FromOutgoingContextRaw\<close> gives it as it was set, and a propagator extracts from the keys of its
    \<^verbatim>\<open>Fields\<close>.
  \<^item> \<^verbatim>\<open>propagation.HeaderCarrier\<close> adapts \<^verbatim>\<open>http.Header\<close> of the standard library: \<open>header_get\<close> and \<open>header_set\<close>,
    which bring a key into canonical form.
  \<^item> A call that ends in a panic runs the deferred functions with a nil error, then goes on.
\<close>

section \<open>Headers\<close>

type_synonym metadata = "go_string \<rightharpoonup> go_string list"

definition token_byte :: "byte \<Rightarrow> bool" where
  "token_byte b \<longleftrightarrow> is_digit b \<or> 97 \<le> b \<and> b \<le> 122 \<or> 65 \<le> b \<and> b \<le> 90
     \<or> b \<in> {33, 35, 36, 37, 38, 39, 42, 43, 45, 46, 94, 95, 96, 124, 126}"

definition lower :: "byte \<Rightarrow> byte" where
  "lower b = (if 65 \<le> b \<and> b \<le> 90 then b + 32 else b)"

text \<open>\<^verbatim>\<open>textproto.CanonicalMIMEHeaderKey\<close>: upper-case at the start and after a hyphen, lower-case elsewhere.\<close>

fun canonical_from :: "bool \<Rightarrow> bytes \<Rightarrow> bytes" where
  "canonical_from up [] = []"
| "canonical_from up (b # bs) = (if up then upper b else lower b) # canonical_from (b = 45) bs"

definition canonical :: "go_string \<Rightarrow> go_string" where
  "canonical k = (if list_all token_byte k then canonical_from True k else k)"

definition header_get :: "metadata \<Rightarrow> go_string \<Rightarrow> go_string" where
  "header_get md k = (case md (canonical k) of Some (v # vs) \<Rightarrow> v | _ \<Rightarrow> [])"

definition header_set :: "go_string \<Rightarrow> go_string \<Rightarrow> metadata \<Rightarrow> metadata" where
  "header_set k v md = md(canonical k \<mapsto> [v])"

section \<open>Tracer and propagator\<close>

datatype span_kind = SpanKindClient | SpanKindServer

datatype attr = AttrText go_string go_string | AttrInt64 go_string int

datatype span_status = StatusUnset | StatusErr | StatusOk

text \<open>The methods of a span that the code calls.\<close>

datatype span_call =
    SetAttributes "attr list"
  | SetStatus span_status bytes
  | RecordError go_error
  | EndSpan

record ('x, 't, 's) otel =
  otStart :: "go_string \<Rightarrow> span_kind \<Rightarrow> attr list \<Rightarrow> 'x \<Rightarrow> 't \<Rightarrow> ('x \<times> 's) \<times> 't"
  otCall :: "'s \<Rightarrow> span_call \<Rightarrow> 't \<Rightarrow> 't"
  otInject :: "'x \<Rightarrow> (go_string \<times> go_string) list"
  otExtract :: "(go_string \<Rightarrow> go_string) \<Rightarrow> 'x \<Rightarrow> 'x"
  otFields :: "go_string list"
  mdFromIncoming :: "'x \<Rightarrow> metadata option"
  mdNewOutgoing :: "'x \<Rightarrow> metadata \<Rightarrow> 'x"
  mdFromOutgoingRaw :: "'x \<Rightarrow> metadata option"

definition lower_case :: "go_string \<Rightarrow> bool" where
  "lower_case k \<longleftrightarrow> map lower k = k"

definition starts_with_letter :: "go_string \<Rightarrow> bool" where
  "starts_with_letter k \<longleftrightarrow> k \<noteq> [] \<and> (97 \<le> hd k \<and> hd k \<le> 122 \<or> 65 \<le> hd k \<and> hd k \<le> 90)"

definition otel_laws :: "('x, 't, 's) otel \<Rightarrow> bool" where
  "otel_laws o1 \<longleftrightarrow>
     (\<forall>x md k. mdFromIncoming o1 x = Some md \<longrightarrow> k \<in> dom md \<longrightarrow> lower_case k)
     \<and> (\<forall>x md. mdFromOutgoingRaw o1 (mdNewOutgoing o1 x md) = Some md)
     \<and> (\<forall>get get' x. (\<forall>k\<in>set (otFields o1). get k = get' k) \<longrightarrow> otExtract o1 get x = otExtract o1 get' x)"

section \<open>The interceptor of the client\<close>

record otel_builder =
  obPort :: int

definition NewClientInterceptorBuilder :: "int \<Rightarrow> otel_builder" where
  "NewClientInterceptorBuilder port = \<lparr>obPort = port\<rparr>"

definition NewServerInterceptorBuilder :: "int \<Rightarrow> otel_builder" where
  "NewServerInterceptorBuilder port = \<lparr>obPort = port\<rparr>"

declare NewServerInterceptorBuilder_def [simp]

definition span_address :: "otel_builder \<Rightarrow> go_error + go_string \<Rightarrow> go_string" where
  "span_address b dial =
     (if obPort b \<noteq> 0 then GetOutboundIP dial @ 58 # int_text (obPort b) else GetOutboundIP dial)"

definition client_attrs :: "attr list" where
  "client_attrs =
     [AttrText (go_str ''rpc.system'') (go_str ''grpc''), AttrText (go_str ''rpc.grpc.kind'') (go_str ''unary''),
      AttrText (go_str ''rpc.component'') (go_str ''client'')]"

definition inject_ctx :: "('x, 't, 's) otel \<Rightarrow> 'x \<Rightarrow> 'x" where
  "inject_ctx o1 ctx =
     (let md = (case mdFromIncoming o1 ctx of Some md \<Rightarrow> md | None \<Rightarrow> Map.empty)
      in mdNewOutgoing o1 ctx (fold (\<lambda>(k, v). header_set k v) (otInject o1 ctx) md))"

definition span_calls :: "('x, 't, 's) otel \<Rightarrow> 's \<Rightarrow> span_call list \<Rightarrow> 't \<Rightarrow> 't" where
  "span_calls o1 sp cs t = fold (otCall o1 sp) cs t"

text \<open>What the deferred functions call on the span, the last deferred first. \<^verbatim>\<open>codes.Error\<close> is 1.\<close>

definition client_deferred :: "go_error option \<Rightarrow> span_call list" where
  "client_deferred err =
     (case err of
        Some e \<Rightarrow> [SetAttributes [AttrInt64 (go_str ''rpc.grpc.status_code'') 1],
                   SetStatus StatusErr (go_str ''client failed''), RecordError e, EndSpan]
      | None \<Rightarrow> [SetStatus StatusOk (go_str ''OK''), EndSpan]) @ [EndSpan]"

text \<open>\<open>invoker\<close> may use the tracer itself.\<close>

definition otel_client ::
  "('x, 't, 's) otel \<Rightarrow> go_string \<Rightarrow> ('x \<Rightarrow> 't \<Rightarrow> go_error option go \<times> 't) \<Rightarrow> 'x \<Rightarrow> 't \<Rightarrow> go_error option go \<times> 't" where
  "otel_client o1 method invoker ctx t =
     (case otStart o1 method SpanKindClient client_attrs ctx t of ((ctx, sp), t) \<Rightarrow>
        (case invoker (inject_ctx o1 ctx) t of (r, t) \<Rightarrow>
           (r, span_calls o1 sp (client_deferred (case r of Inl p \<Rightarrow> None | Inr err \<Rightarrow> err)) t)))"

section \<open>The interceptor of the server\<close>

definition extract_ctx :: "('x, 't, 's) otel \<Rightarrow> 'x \<Rightarrow> 'x" where
  "extract_ctx o1 ctx =
     (let md = (case mdFromIncoming o1 ctx of Some md \<Rightarrow> md | None \<Rightarrow> Map.empty)
      in otExtract o1 (header_get md) ctx)"

definition server_deferred :: "go_error option \<Rightarrow> span_call list" where
  "server_deferred err =
     (case err of
        Some e \<Rightarrow> [SetStatus StatusErr (go_str ''server failed''), RecordError e]
      | None \<Rightarrow> []) @ [EndSpan]"

definition otel_server ::
  "('x, 't, 's) otel \<Rightarrow> otel_builder \<Rightarrow> go_error + go_string \<Rightarrow> go_string
     \<Rightarrow> ('x \<Rightarrow> 't \<Rightarrow> (go_error + 'r) go \<times> 't) \<Rightarrow> 'x \<Rightarrow> 't \<Rightarrow> (go_error + 'r) go \<times> 't" where
  "otel_server o1 b dial fullMethod handler ctx t =
     (case otStart o1 fullMethod SpanKindServer [] ctx t of ((ctx, sp), t) \<Rightarrow>
        (let ctx = extract_ctx o1 ctx;
             t = span_calls o1 sp [SetAttributes [AttrText (go_str ''address'') (span_address b dial)]] t
         in
           (case handler ctx t of (r, t) \<Rightarrow>
              (r, span_calls o1 sp (server_deferred (case r of Inr (Inl e) \<Rightarrow> Some e | _ \<Rightarrow> None)) t))))"

section \<open>Lemmas\<close>

lemma upper_range: "97 \<le> b \<and> b \<le> 122 \<or> 65 \<le> b \<and> b \<le> 90 \<Longrightarrow> 65 \<le> upper b \<and> upper b \<le> 90"
  by (auto simp: upper_def byte_nat unat_sub)

lemma canonical_upper:
  assumes "list_all token_byte k" and "starts_with_letter k"
  shows "\<not> lower_case (canonical k)"
proof -
  obtain b bs where k: "k = b # bs" using assms(2) by (cases k) (auto simp: starts_with_letter_def)
  have "65 \<le> upper b \<and> upper b \<le> 90" using assms(2) by (intro upper_range) (simp add: starts_with_letter_def k)
  then have "lower (upper b) \<noteq> upper b" by (simp add: lower_def)
  then show ?thesis using assms(1) by (simp add: canonical_def lower_case_def k)
qed

lemma header_get_lower:
  assumes "\<And>k. k \<in> dom md \<Longrightarrow> lower_case k" and "list_all token_byte k" and "starts_with_letter k"
  shows "header_get md k = []"
proof -
  have "canonical k \<notin> dom md" using assms(1) canonical_upper [OF assms(2,3)] by blast
  then show ?thesis by (simp add: header_get_def domIff)
qed

lemma extract_nothing:
  assumes "otel_laws o1" and "list_all (\<lambda>k. list_all token_byte k \<and> starts_with_letter k) (otFields o1)"
  shows "extract_ctx o1 ctx = otExtract o1 (\<lambda>k. []) ctx"
proof -
  let ?md = "case mdFromIncoming o1 ctx of Some md \<Rightarrow> md | None \<Rightarrow> Map.empty"
  have "lower_case k" if "k \<in> dom ?md" for k
    using that assms(1) by (auto simp: otel_laws_def split: option.splits)
  then have "\<forall>k\<in>set (otFields o1). header_get ?md k = []"
    using assms(2) by (intro ballI header_get_lower) (auto simp: list_all_iff)
  then show ?thesis using assms(1) by (simp add: otel_laws_def extract_ctx_def Let_def)
qed

section \<open>Properties\<close>

text \<open>
  C29: A trace never crosses to the server: for every propagator whose fields are header names that start with
  a letter, the interceptor of the server does what it would do for a request without metadata, because it
  reads the carrier under canonical keys, which start in upper case, and incoming metadata has lower-case keys.
\<close>

theorem remote_trace_ignored:
  assumes "otel_laws o1" and "list_all (\<lambda>k. list_all token_byte k \<and> starts_with_letter k) (otFields o1)"
  shows "otel_server o1 b dial fullMethod handler ctx t =
     otel_server (o1\<lparr>mdFromIncoming := \<lambda>x. None\<rparr>) b dial fullMethod handler ctx t"
proof -
  have "header_get (\<lambda>x. None) = (\<lambda>k. [])" by (simp add: header_get_def fun_eq_iff)
  then have "extract_ctx (o1\<lparr>mdFromIncoming := \<lambda>x. None\<rparr>) x = otExtract o1 (\<lambda>k. []) x" for x
    by (simp add: extract_ctx_def)
  moreover have "extract_ctx o1 x = otExtract o1 (\<lambda>k. []) x" for x by (rule extract_nothing [OF assms])
  moreover have "span_calls (o1\<lparr>mdFromIncoming := \<lambda>x. None\<rparr>) = span_calls o1"
    by (simp add: span_calls_def fun_eq_iff)
  ultimately show ?thesis by (simp add: otel_server_def)
qed

text \<open>
  The interceptor of the client is transparent: it returns what the invoker does, panics included. It ends its
  span twice, and marks it OK when the invoker panics. The call goes out with the metadata of the request that
  is being served and what the propagator sets, whatever outgoing metadata the caller had set.
\<close>

theorem client_call_traced:
  assumes "otel_laws o1" and "otStart o1 m SpanKindClient client_attrs ctx t = ((ctxa, sp), ta)"
    and "invoker (inject_ctx o1 ctxa) ta = (r, tb)"
  shows "otel_client o1 m invoker ctx t =
      (r, span_calls o1 sp
        (case r of
           Inr (Some e) \<Rightarrow> [SetAttributes [AttrInt64 (go_str ''rpc.grpc.status_code'') 1],
               SetStatus StatusErr (go_str ''client failed''), RecordError e, EndSpan, EndSpan]
         | _ \<Rightarrow> [SetStatus StatusOk (go_str ''OK''), EndSpan, EndSpan]) tb)
    \<and> (\<exists>md. mdFromOutgoingRaw o1 (inject_ctx o1 ctxa) = Some md
        \<and> dom md = (case mdFromIncoming o1 ctxa of Some inc \<Rightarrow> dom inc | None \<Rightarrow> {})
            \<union> canonical ` fst ` set (otInject o1 ctxa))"
proof
  show "otel_client o1 m invoker ctx t =
      (r, span_calls o1 sp
        (case r of
           Inr (Some e) \<Rightarrow> [SetAttributes [AttrInt64 (go_str ''rpc.grpc.status_code'') 1],
               SetStatus StatusErr (go_str ''client failed''), RecordError e, EndSpan, EndSpan]
         | _ \<Rightarrow> [SetStatus StatusOk (go_str ''OK''), EndSpan, EndSpan]) tb)"
    using assms(2,3) by (simp add: otel_client_def client_deferred_def split: sum.split option.split)
  have "dom (fold (\<lambda>(k, v). header_set k v) kvs md) = dom md \<union> canonical ` fst ` set kvs" for kvs md
    by (induction kvs arbitrary: md) (auto simp: header_set_def)
  moreover have "mdFromOutgoingRaw o1 (mdNewOutgoing o1 ctxa md) = Some md" for md
    using assms(1) by (simp add: otel_laws_def)
  ultimately show "\<exists>md. mdFromOutgoingRaw o1 (inject_ctx o1 ctxa) = Some md
        \<and> dom md = (case mdFromIncoming o1 ctxa of Some inc \<Rightarrow> dom inc | None \<Rightarrow> {})
            \<union> canonical ` fst ` set (otInject o1 ctxa)"
    by (auto simp: inject_ctx_def Let_def split: option.split)
qed

text \<open>
  The interceptor of the server is transparent too, and ends its span once. The span is started before the
  remote context is extracted: it is made from the context of the request as it came.
\<close>

theorem server_call_traced:
  assumes "otStart o1 m SpanKindServer [] ctx t = ((ctxa, sp), ta)"
    and "handler (extract_ctx o1 ctxa)
        (otCall o1 sp (SetAttributes [AttrText (go_str ''address'') (span_address b dial)]) ta) = (r, tb)"
  shows "otel_server o1 b dial m handler ctx t =
      (r, span_calls o1 sp
        (case r of
           Inr (Inl e) \<Rightarrow> [SetStatus StatusErr (go_str ''server failed''), RecordError e, EndSpan]
         | _ \<Rightarrow> [EndSpan]) tb)"
  using assms by (auto simp: otel_server_def span_calls_def server_deferred_def split: sum.split)

section \<open>A tracer in memory\<close>

text \<open>
  A context is its incoming and outgoing metadata and the trace it belongs to; the tracer keeps the calls
  on its spans, which it numbers.
\<close>

type_synonym mem_ctx = "metadata option \<times> metadata option \<times> go_string"

definition traceparent :: go_string where
  "traceparent = go_str ''traceparent''"

definition memory_otel :: "(mem_ctx, nat \<times> (nat \<times> span_call) list, nat) otel" where
  "memory_otel =
     \<lparr>otStart = (\<lambda>m k as x (n, cs). ((x, n), (Suc n, cs))),
      otCall = (\<lambda>sp c (n, cs). (n, cs @ [(sp, c)])),
      otInject = (\<lambda>(inc, out, tr). [(traceparent, tr)]),
      otExtract = (\<lambda>get (inc, out, tr). (inc, out, if get traceparent = [] then tr else get traceparent)),
      otFields = [traceparent],
      mdFromIncoming = (\<lambda>(inc, out, tr). map_option (\<lambda>md k. if lower_case k then md k else None) inc),
      mdNewOutgoing = (\<lambda>(inc, out, tr) md. (inc, Some md, tr)),
      mdFromOutgoingRaw = (\<lambda>(inc, out, tr). out)\<rparr>"

lemma memory_otel_laws: "otel_laws memory_otel"
  by (auto simp: otel_laws_def memory_otel_def split: if_splits)

theorem remote_trace_ignored_witness:
  "otel_server memory_otel (NewServerInterceptorBuilder 8081) (Inr [49]) [47] (\<lambda>x t. (Inr (Inr (snd (snd x))), t))
       (Some [traceparent \<mapsto> [[48, 48]]], None, [57]) (0, [])
     = (Inr (Inr [57]), (1, [(0, SetAttributes [AttrText (go_str ''address'') (49 # go_str '':8081'')]), (0, EndSpan)]))"
proof -
  have "list_all (\<lambda>k. list_all token_byte k \<and> starts_with_letter k) (otFields memory_otel)"
    by (simp add: memory_otel_def traceparent_def token_byte_def is_digit_def starts_with_letter_def)
  from remote_trace_ignored [OF memory_otel_laws this]
  have "otel_server memory_otel (NewServerInterceptorBuilder 8081) (Inr [49]) [47] (\<lambda>x t. (Inr (Inr (snd (snd x))), t))
       (Some [traceparent \<mapsto> [[48, 48]]], None, [57]) (0, []) =
     otel_server (memory_otel\<lparr>mdFromIncoming := \<lambda>x. None\<rparr>) (NewServerInterceptorBuilder 8081) (Inr [49]) [47]
       (\<lambda>x t. (Inr (Inr (snd (snd x))), t)) (Some [traceparent \<mapsto> [[48, 48]]], None, [57]) (0, [])" .
  also have "\<dots> = (Inr (Inr [57]),
      (1, [(0, SetAttributes [AttrText (go_str ''address'') (49 # go_str '':8081'')]), (0, EndSpan)]))"
    by (simp add: otel_server_def memory_otel_def span_calls_def server_deferred_def extract_ctx_def header_get_def
        span_address_def GetOutboundIP_def int_text_def digits.simps)
  finally show ?thesis .
qed

theorem client_call_traced_witness:
  "fst (otel_client memory_otel [47] (\<lambda>x t. (Inl TypeAssertion, t)) (None, Some [[97] \<mapsto> [[98]]], [57]) (0, []))
      = Inl TypeAssertion
   \<and> (\<exists>md. mdFromOutgoingRaw memory_otel (inject_ctx memory_otel (None, Some [[97] \<mapsto> [[98]]], [57])) = Some md
        \<and> [97] \<notin> dom md)"
proof -
  have start: "otStart memory_otel [47] SpanKindClient client_attrs (None, Some [[97] \<mapsto> [[98]]], [57]) (0, []) =
      (((None, Some [[97] \<mapsto> [[98]]], [57]), 0), (1, []))"
    by (simp add: memory_otel_def)
  have "otInject memory_otel (None, Some [[97] \<mapsto> [[98]]], [57]) = [(traceparent, [57])]"
    "mdFromIncoming memory_otel (None, Some [[97] \<mapsto> [[98]]], [57]) = None"
    by (simp_all add: memory_otel_def)
  moreover have "[97] \<noteq> canonical traceparent"
    by (simp add: canonical_def traceparent_def token_byte_def is_digit_def)
  ultimately show ?thesis
    using client_call_traced [OF memory_otel_laws start, of "\<lambda>x t. (Inl TypeAssertion, t)"] by fastforce
qed

theorem server_call_traced_witness:
  "otel_server memory_otel (NewServerInterceptorBuilder 0) (Inl CtxCanceled) [47] (\<lambda>x t. (Inr (Inl CtxCanceled), t)) (None, None, [57]) (0, []) =
     (Inr (Inl CtxCanceled :: go_error + bool), span_calls memory_otel 0
        [SetStatus StatusErr (go_str ''server failed''), RecordError CtxCanceled, EndSpan]
        (1, [(0, SetAttributes [AttrText (go_str ''address'') []])]))"
  by (subst server_call_traced [where handler = "\<lambda>x t. (Inr (Inl CtxCanceled), t)" and tb = "(1, [(0, SetAttributes [AttrText (go_str ''address'') []])])"
        and sp = 0 and ta = "(1, [])" and ctxa = "(None, None, [57])" and r = "Inr (Inl CtxCanceled)"])
    (simp_all add: memory_otel_def span_address_def GetOutboundIP_def)

end
