(* ===== verification/RpcLife.thy ===== *)
theory RpcLife
  imports RpcServer
begin

text \<open>
  The life of the RPC server (\<^verbatim>\<open>Start\<close> and \<^verbatim>\<open>Close\<close> in \<^verbatim>\<open>rpc/server.go\<close>) as a step relation: the accept
  loop, the clients that connect and \<^verbatim>\<open>Close\<close>, in any order.

  A \<^verbatim>\<open>net.Listener\<close> is the standard library's: its queue of connections, and after its \<^verbatim>\<open>Close\<close> every
  \<^verbatim>\<open>Accept\<close> and every further \<^verbatim>\<open>Close\<close> fails with an operation error around \<^verbatim>\<open>net.ErrClosed\<close>.
\<close>

section \<open>The listener\<close>

record 'c listening =
  lsQueue :: "'c list"
  lsClosed :: bool

definition listener_close :: "'c listening \<Rightarrow> go_error option \<times> 'c listening" where
  "listener_close l =
     (if lsClosed l then (Some (NetOpError NetErrClosed), l) else (None, l\<lparr>lsClosed := True\<rparr>))"

text \<open>What \<^verbatim>\<open>Accept\<close> gives, or that it blocks.\<close>

definition listener_accept :: "'c listening \<Rightarrow> ((go_error + 'c) \<times> 'c listening) option" where
  "listener_accept l =
     (if lsClosed l then Some (Inl (NetOpError NetErrClosed), l)
      else (case lsQueue l of [] \<Rightarrow> None | c # cs \<Rightarrow> Some (Inr c, l\<lparr>lsQueue := cs\<rparr>)))"

section \<open>The server\<close>

datatype life_pc = NotStarted | Accepts | StartEnded "go_error option"

record 'c life =
  lfListener :: "'c listening option"
  lfPc :: life_pc
  lfServed :: "'c list"

definition Close_server :: "'c life \<Rightarrow> go_error option \<times> 'c life" where
  "Close_server s =
     (case lfListener s of
        None \<Rightarrow> (None, s)
      | Some l \<Rightarrow> (case listener_close l of (err, l) \<Rightarrow> (err, s\<lparr>lfListener := Some l\<rparr>)))"

text \<open>One turn of the loop, on what \<^verbatim>\<open>Accept\<close> gave.\<close>

definition accept_turn :: "go_error + 'c \<Rightarrow> 'c life \<Rightarrow> 'c life" where
  "accept_turn r s =
     (case r of
        Inl err \<Rightarrow> if err = NetErrClosed then s\<lparr>lfPc := StartEnded None\<rparr> else s
      | Inr c \<Rightarrow> s\<lparr>lfServed := lfServed s @ [c]\<rparr>)"

datatype 'c life_event =
    Listens
  | ListenFails go_error
  | Connects 'c
  | AcceptGives "go_error + 'c"
  | Closes "go_error option"

text \<open>\<open>err\<close> in the last rule is an error of an open listener, which the package wraps as well.\<close>

inductive life_step :: "'c life \<Rightarrow> 'c life_event \<Rightarrow> 'c life \<Rightarrow> bool" where
  lf_listens: "lfPc s = NotStarted \<Longrightarrow>
    life_step s Listens (s\<lparr>lfListener := Some \<lparr>lsQueue = [], lsClosed = False\<rparr>, lfPc := Accepts\<rparr>)"
| lf_listen_fails: "lfPc s = NotStarted \<Longrightarrow>
    life_step s (ListenFails err) (s\<lparr>lfPc := StartEnded (Some err)\<rparr>)"
| lf_connects: "lfListener s = Some l \<Longrightarrow> \<not> lsClosed l \<Longrightarrow>
    life_step s (Connects c) (s\<lparr>lfListener := Some (l\<lparr>lsQueue := lsQueue l @ [c]\<rparr>)\<rparr>)"
| lf_closes: "Close_server s = (err, s') \<Longrightarrow> life_step s (Closes err) s'"
| lf_accept: "lfPc s = Accepts \<Longrightarrow> lfListener s = Some l \<Longrightarrow> listener_accept l = Some (r, l') \<Longrightarrow>
    life_step s (AcceptGives r) (accept_turn r (s\<lparr>lfListener := Some l'\<rparr>))"
| lf_accept_fails: "lfPc s = Accepts \<Longrightarrow> lfListener s = Some l \<Longrightarrow> \<not> lsClosed l \<Longrightarrow>
    life_step s (AcceptGives (Inl (NetOpError err))) (accept_turn (Inl (NetOpError err)) s)"

definition new_life :: "'c life" where
  "new_life = \<lparr>lfListener = None, lfPc = NotStarted, lfServed = []\<rparr>"

section \<open>Invariant\<close>

fun connected_of :: "'c life_event \<Rightarrow> 'c list" where
  "connected_of (Connects c) = [c]"
| "connected_of _ = []"

definition connected :: "'c life_event list \<Rightarrow> 'c list" where
  "connected ls = concat (map connected_of ls)"

definition queue_of :: "'c life \<Rightarrow> 'c list" where
  "queue_of s = (case lfListener s of None \<Rightarrow> [] | Some l \<Rightarrow> lsQueue l)"

definition life_inv :: "'c life_event list \<Rightarrow> 'c life \<Rightarrow> bool" where
  "life_inv ls s \<longleftrightarrow>
     connected ls = lfServed s @ queue_of s
     \<and> (lfPc s = Accepts \<longleftrightarrow> Listens \<in> set ls)
     \<and> (lfPc s = Accepts \<longleftrightarrow> lfListener s \<noteq> None)
     \<and> lfPc s \<noteq> StartEnded None"

lemma connected_simps [simp]: "connected (ls @ [e]) = connected ls @ connected_of e" "connected [] = []"
  by (simp_all add: connected_def)

lemma accept_turn_open:
  assumes "listener_accept l = Some (r, l')"
  shows "lfPc (accept_turn r s) = lfPc s \<and> lfListener (accept_turn r s) = lfListener s
    \<and> lfServed (accept_turn r s) @ lsQueue l' = lfServed s @ lsQueue l"
  using assms by (auto simp: listener_accept_def accept_turn_def split: if_splits list.splits)

lemma life_inv_step:
  assumes "life_inv ls s" and "life_step s e s'"
  shows "life_inv (ls @ [e]) s'"
  using assms(2)
proof cases
  case (lf_closes err)
  then show ?thesis
    using assms(1)
    by (auto simp: life_inv_def Close_server_def listener_close_def queue_of_def split: option.splits if_splits)
next
  case (lf_accept l r l')
  have "life_inv ls s \<longleftrightarrow> connected ls = lfServed s @ lsQueue l \<and> Listens \<in> set ls"
    using lf_accept by (auto simp: life_inv_def queue_of_def)
  then show ?thesis
    using assms(1) lf_accept accept_turn_open [OF lf_accept(5), of "s\<lparr>lfListener := Some l'\<rparr>"]
    by (cases r) (auto simp: life_inv_def queue_of_def)
next
  case (lf_accept_fails l err)
  then show ?thesis using assms(1) by (auto simp: life_inv_def accept_turn_def queue_of_def)
qed (use assms(1) in \<open>auto simp: life_inv_def queue_of_def\<close>)

lemma life_trace_inv:
  assumes "trace life_step new_life ls s"
  shows "life_inv ls s"
  using assms
proof (rule trace_invariant [where P = life_inv])
  show "life_inv [] new_life" by (simp add: life_inv_def new_life_def queue_of_def)
qed (rule life_inv_step)

definition listener_closed :: "'c life \<Rightarrow> bool" where
  "listener_closed s \<longleftrightarrow> (case lfListener s of None \<Rightarrow> False | Some l \<Rightarrow> lsClosed l)"

section \<open>Properties\<close>



end
