(* ===== verification/Discovery.thy ===== *)
theory Discovery
  imports Resolver
begin

text \<open>
  Discovery as a whole: the registry on etcd, the goroutine of a subscription (\<open>Registry\<close>) and the resolver
  (\<open>Resolver\<close>) of one service, interleaved with servers that register and unregister.

  \<^item> The steps of the parts are those of their own relations: \<open>Register\<close> and \<open>Unregister\<close> on the store,
    \<open>watch_step\<close> for the goroutine, \<open>resolver_step\<close> for the resolver.
  \<^item> etcd sends a response for every change under the prefix of the subscription, in their order and some
    time after the change; \<open>dcUnsent\<close> are those still to be sent. A delete of a key that is not there is
    not a change.
  \<^item> A lookup gives what the registry holds at that moment, or fails.
\<close>

section \<open>The system\<close>

record 'd disc =
  dcStore :: 'd
  dcUnsent :: "watch_response list"
  dcWatcher :: watcher
  dcRun :: resolver_run
  dcResolving :: bool

datatype disc_event =
    Changes reg_op
  | SubscribesNow
  | EtcdSendsNext
  | GoroutineStep watch_event
  | DeliversTo reg_event
  | Resolves lookup

text \<open>The events of a change: \<open>content\<close> is what the cluster holds before it.\<close>

definition change_events :: "go_string \<Rightarrow> (go_string \<rightharpoonup> bytes) \<Rightarrow> reg_op \<Rightarrow> (mvcc_type \<times> bytes) list" where
  "change_events name m op =
     (let k = instanceKey (op_instance op) in
      if \<not> prefix (serviceKey name) k then []
      else (case op of
              OpRegister i \<Rightarrow> (case marshal_instance i of Inl err \<Rightarrow> [] | Inr v \<Rightarrow> [(MvccPUT, v)])
            | OpUnregister i \<Rightarrow> (if m k = None then [] else [(MvccDELETE, [])])))"

definition responses :: "(mvcc_type \<times> bytes) list \<Rightarrow> watch_response list" where
  "responses evs = map (\<lambda>ev. \<lparr>wrErr = None, wrCanceled = False, wrEvents = [ev]\<rparr>) evs"

fun do_op :: "'d etcd \<Rightarrow> reg_op \<Rightarrow> 'd \<Rightarrow> go_error option \<times> 'd" where
  "do_op e (OpRegister i) d = Register e i d"
| "do_op e (OpUnregister i) d = Unregister e i d"

definition found_now :: "'d etcd \<Rightarrow> go_string \<Rightarrow> 'd \<Rightarrow> lookup \<Rightarrow> bool" where
  "found_now e name d found \<longleftrightarrow> found = ListServices e name d \<or> (\<exists>err. found = Inl err)"

inductive disc_step ::
  "'d etcd \<Rightarrow> ('d \<Rightarrow> go_string \<rightharpoonup> bytes) \<Rightarrow> go_string \<Rightarrow> 'd disc \<Rightarrow> disc_event \<Rightarrow> 'd disc \<Rightarrow> bool" for e content name where
  dc_change: "do_op e op (dcStore s) = (None, d) \<Longrightarrow>
    disc_step e content name s (Changes op)
      (s\<lparr>dcStore := d,
         dcUnsent := dcUnsent s @
           (if rrPc (dcRun s) = Watching then responses (change_events name (content (dcStore s)) op) else [])\<rparr>)"
| dc_subscribe: "resolver_step (dcRun s) Subscribes r \<Longrightarrow>
    disc_step e content name s SubscribesNow (s\<lparr>dcRun := r, dcWatcher := new_watcher, dcUnsent := []\<rparr>)"
| dc_sends: "dcUnsent s = x # xs \<Longrightarrow> watch_step (dcWatcher s) (EtcdSends x) w \<Longrightarrow>
    disc_step e content name s EtcdSendsNext (s\<lparr>dcUnsent := xs, dcWatcher := w\<rparr>)"
| dc_goroutine: "watch_step (dcWatcher s) l w \<Longrightarrow> l = NextEvent \<or> (\<exists>x. l = Handles x) \<Longrightarrow>
    disc_step e content name s (GoroutineStep l) (s\<lparr>dcWatcher := w\<rparr>)"
| dc_deliver: "rrPc (dcRun s) = Watching \<Longrightarrow> \<not> dcResolving s \<Longrightarrow> watch_step (dcWatcher s) (Delivers ev) w \<Longrightarrow>
    disc_step e content name s (DeliversTo ev) (s\<lparr>dcWatcher := w, dcResolving := True\<rparr>)"
| dc_resolve: "dcResolving s \<Longrightarrow> found_now e name (dcStore s) found \<Longrightarrow>
    resolver_step (dcRun s) (Notified found update) r \<Longrightarrow>
    disc_step e content name s (Resolves found) (s\<lparr>dcRun := r, dcResolving := False\<rparr>)"
| dc_now: "found_now e name (dcStore s) found \<Longrightarrow> resolver_step (dcRun s) (ResolvesNow found update) r \<Longrightarrow>
    disc_step e content name s (Resolves found) (s\<lparr>dcRun := r\<rparr>)"

text \<open>The resolver is built, which makes its first lookup, before it subscribes.\<close>

definition disc_start :: "'d etcd \<Rightarrow> int \<Rightarrow> go_string \<Rightarrow> (resolved_address list \<Rightarrow> go_error option) \<Rightarrow> 'd \<Rightarrow> 'd disc" where
  "disc_start e timeout name update d =
     \<lparr>dcStore = d, dcUnsent = [], dcWatcher = new_watcher,
      dcRun = Build_resolver timeout name (ListServices e name d) update, dcResolving = False\<rparr>"

section \<open>Invariant\<close>

fun ops_of :: "disc_event \<Rightarrow> reg_op list" where
  "ops_of (Changes op) = [op]"
| "ops_of _ = []"

definition changes :: "disc_event list \<Rightarrow> reg_op list" where
  "changes ls = concat (map ops_of ls)"

fun lookup_ok :: "disc_event \<Rightarrow> bool" where
  "lookup_ok (Resolves (Inl err)) = False"
| "lookup_ok _ = True"

lemma changes_simps [simp]: "changes [] = []" "changes (ls @ [e]) = changes ls @ ops_of e"
  by (simp_all add: changes_def)

text \<open>Something is still on its way to the resolver.\<close>

definition in_transit :: "'d disc \<Rightarrow> bool" where
  "in_transit s \<longleftrightarrow> dcUnsent s \<noteq> [] \<or> wtQueue (dcWatcher s) \<noteq> [] \<or> pending (wtPc (dcWatcher s)) \<noteq> [] \<or> dcResolving s"

definition one_event :: "watch_response \<Rightarrow> bool" where
  "one_event r \<longleftrightarrow> wrErr r = None \<and> \<not> wrCanceled r \<and> wrEvents r \<noteq> []"

definition sound_watch :: "'d disc \<Rightarrow> bool" where
  "sound_watch s \<longleftrightarrow>
     list_all one_event (dcUnsent s) \<and> list_all one_event (wtQueue (dcWatcher s))
     \<and> \<not> wtQueueClosed (dcWatcher s) \<and> \<not> wtDone (dcWatcher s) \<and> wtPc (dcWatcher s) \<noteq> WatchEnded"

text \<open>The last addresses given to the connection are those of the instances listed now.\<close>

definition up_to_date :: "'d etcd_env \<Rightarrow> go_string \<Rightarrow> 'd disc \<Rightarrow> bool" where
  "up_to_date env name s \<longleftrightarrow>
     (\<exists>uss us. updates (rrCalls (dcRun s)) = uss @ [us] \<and> set us = newAddress ` listed (etcd_map env (dcStore s)) name)"

lemma responses_one: "list_all one_event (responses evs)"
  by (auto simp: responses_def one_event_def list_all_iff)

lemma listed_without_prefix:
  "\<not> prefix (serviceKey name) k \<Longrightarrow> listed (m(k := x)) name = listed m name"
  by (auto simp: listed_def)

lemma do_op_map:
  assumes "etcd_laws e content" and "plain_instance (op_instance op)" and "do_op e op d = (None, d')"
  shows "etcd_map (e, content) d' = apply_op op (etcd_map (e, content) d)"
  using assms etcd_register_map [of "(e, content)"] etcd_unregister_map [of "(e, content)"]
  by (cases op) (auto simp: etcd_ok_def)

text \<open>A change without an event leaves the list as it was.\<close>

lemma silent_change:
  assumes "etcd_laws e content" and "plain_instance (op_instance op)" and "do_op e op d = (None, d')"
    and "change_events name (content d) op = []"
  shows "listed (etcd_map (e, content) d') name = listed (etcd_map (e, content) d) name"
proof (cases "prefix (serviceKey name) (instanceKey (op_instance op))")
  case False
  then show ?thesis unfolding do_op_map [OF assms(1-3)] by (cases op) (simp_all add: listed_without_prefix)
next
  case True
  then obtain i where i: "op = OpUnregister i" "content d (instanceKey i) = None"
    using assms(4) by (cases op) (auto simp: change_events_def marshal_instance_def split: if_splits)
  then have "etcd_map (e, content) d (instanceKey i) = None" by (simp add: etcd_map_def)
  then have "(etcd_map (e, content) d)(instanceKey i := None) = etcd_map (e, content) d" by (simp add: fun_upd_idem)
  then show ?thesis unfolding do_op_map [OF assms(1-3)] using i by simp
qed

lemma resolve_up_to_date:
  assumes "etcd_laws e content" and "ListServices e name (dcStore s) = Inr is"
    and "updates (rrCalls (dcRun s)) = uss @ [map newAddress is]"
  shows "up_to_date (e, content) name s"
proof -
  have "set is = listed (etcd_map (e, content) (dcStore s)) name"
    using etcd_list_map [of "(e, content)" name "dcStore s" "is"] assms(1,2) by (simp add: etcd_ok_def)
  then show ?thesis using assms(3) by (auto simp: up_to_date_def)
qed

definition disc_inv :: "'d etcd_env \<Rightarrow> go_string \<Rightarrow> 'd disc \<Rightarrow> bool" where
  "disc_inv env name s \<longleftrightarrow>
     rrPc (dcRun s) = Watching \<and> sound_watch s \<and> (in_transit s \<or> up_to_date env name s)"

inductive_cases resolver_NotifiedE: "resolver_step r (Notified found update) r'"
inductive_cases resolver_NowE: "resolver_step r (ResolvesNow found update) r'"
inductive_cases resolver_SubscribesE: "resolver_step r Subscribes r'"
inductive_cases watch_SendsE: "watch_step w (EtcdSends x) w'"
inductive_cases watch_HandlesE: "watch_step w (Handles x) w'"
inductive_cases watch_NextE: "watch_step w NextEvent w'"
inductive_cases watch_DeliversE: "watch_step w (Delivers ev) w'"

lemma resolved_inv:
  assumes "etcd_laws e content" and "disc_inv (e, content) name s" and "found_now e name (dcStore s) found"
    and "lookup_ok (Resolves found)" and "rrCalls r = rrCalls (dcRun s) @ resolve found update" and "rrPc r = Watching"
    and s': "dcStore s' = dcStore s" "dcUnsent s' = dcUnsent s" "dcWatcher s' = dcWatcher s" "dcRun s' = r"
  shows "disc_inv (e, content) name s'"
proof -
  obtain "is" where "is": "found = Inr is" using assms(4) by (cases found) auto
  then have "ListServices e name (dcStore s') = Inr is" using assms(3) s'(1) by (auto simp: found_now_def)
  moreover have "updates (rrCalls (dcRun s')) = updates (rrCalls (dcRun s)) @ [map newAddress is]"
    using assms(5) s'(4) "is" by (simp add: updates_resolve found_of_def)
  ultimately have "up_to_date (e, content) name s'" by (rule resolve_up_to_date [OF assms(1)])
  then show ?thesis using assms(2,6) s' by (simp add: disc_inv_def sound_watch_def)
qed

lemma disc_inv_step:
  assumes "etcd_laws e content" and inv: "disc_inv (e, content) name s" and "disc_step e content name s ev s'"
    and "lookup_ok ev" and "list_all (plain_instance \<circ> op_instance) (ops_of ev)"
  shows "disc_inv (e, content) name s'"
  using assms(3)
proof cases
  case (dc_change op d)
  let ?evs = "change_events name (content (dcStore s)) op"
  have s': "dcUnsent s' = dcUnsent s @ responses ?evs" "dcStore s' = d" "dcWatcher s' = dcWatcher s" "dcRun s' = dcRun s"
    "dcResolving s' = dcResolving s"
    using dc_change inv by (simp_all add: disc_inv_def)
  have "in_transit s' \<or> up_to_date (e, content) name s'"
  proof (cases "?evs = []")
    case True
    have "plain_instance (op_instance op)" using assms(5) dc_change(1) by simp
    from silent_change [OF assms(1) this dc_change(3) True]
    have "listed (etcd_map (e, content) d) name = listed (etcd_map (e, content) (dcStore s)) name" .
    then have "up_to_date (e, content) name s' \<longleftrightarrow> up_to_date (e, content) name s" by (simp add: up_to_date_def s')
    moreover have "in_transit s' \<longleftrightarrow> in_transit s" using True by (simp add: in_transit_def s' responses_def)
    ultimately show ?thesis using inv by (simp add: disc_inv_def)
  next
    case False
    then show ?thesis by (simp add: in_transit_def s' responses_def)
  qed
  then show ?thesis using inv responses_one [of ?evs] by (simp add: disc_inv_def sound_watch_def s')
next
  case (dc_subscribe r)
  then show ?thesis using inv by (auto simp: disc_inv_def elim: resolver_SubscribesE)
next
  case (dc_sends x xs w)
  then have "w = (dcWatcher s)\<lparr>wtQueue := wtQueue (dcWatcher s) @ [x]\<rparr>" by (auto elim: watch_SendsE)
  then show ?thesis using inv dc_sends by (auto simp: disc_inv_def sound_watch_def in_transit_def)
next
  case (dc_goroutine l w)
  from dc_goroutine(4) show ?thesis
  proof
    assume "l = NextEvent"
    then have "w = (dcWatcher s)\<lparr>wtPc := Selecting\<rparr>" "wtPc (dcWatcher s) = Sending []"
      using dc_goroutine(3) by (auto elim: watch_NextE)
    then show ?thesis using inv dc_goroutine
      by (auto simp: disc_inv_def sound_watch_def in_transit_def up_to_date_def)
  next
    assume "\<exists>x. l = Handles x"
    then obtain x where "l = Handles x" by blast
    then obtain xs where w: "w = (dcWatcher s)\<lparr>wtQueue := xs, wtPc := on_response x\<rparr>" "wtQueue (dcWatcher s) = x # xs"
      using dc_goroutine(3) inv by (auto simp: disc_inv_def sound_watch_def elim: watch_HandlesE)
    moreover have "one_event x" using w inv by (simp add: disc_inv_def sound_watch_def)
    then have "on_response x = Sending (wrEvents x)" "wrEvents x \<noteq> []"
      by (simp_all add: one_event_def on_response_def)
    ultimately show ?thesis using inv dc_goroutine by (simp add: disc_inv_def sound_watch_def in_transit_def)
  qed
next
  case (dc_deliver rev w)
  then obtain x xs where "w = (dcWatcher s)\<lparr>wtPc := Sending xs, wtReceived := wtReceived (dcWatcher s) @ [to_event x]\<rparr>"
    by (auto elim: watch_DeliversE)
  then show ?thesis using inv dc_deliver by (simp add: disc_inv_def sound_watch_def in_transit_def)
next
  case (dc_resolve found update r)
  show ?thesis
  proof (rule resolved_inv [OF assms(1) inv dc_resolve(4)])
    show "lookup_ok (Resolves found)" using assms(4) dc_resolve(1) by simp
    show "rrCalls r = rrCalls (dcRun s) @ resolve found update" "rrPc r = Watching"
      using dc_resolve(5) by (auto elim: resolver_NotifiedE)
  qed (simp_all add: dc_resolve(2))
next
  case (dc_now found update r)
  show ?thesis
  proof (rule resolved_inv [OF assms(1) inv dc_now(3)])
    show "lookup_ok (Resolves found)" using assms(4) dc_now(1) by simp
    show "rrCalls r = rrCalls (dcRun s) @ resolve found update" "rrPc r = Watching"
      using dc_now(4) inv by (auto simp: disc_inv_def elim: resolver_NowE)
  qed (simp_all add: dc_now(2))
qed

text \<open>The store follows the changes.\<close>

lemma disc_step_map:
  assumes "etcd_laws e content" and "disc_step e content name s ev s'"
    and "list_all (plain_instance \<circ> op_instance) (ops_of ev)"
  shows "etcd_map (e, content) (dcStore s') = fold apply_op (ops_of ev) (etcd_map (e, content) (dcStore s))"
  using assms(2)
proof cases
  case (dc_change op d)
  then show ?thesis using do_op_map [OF assms(1) _ dc_change(3)] assms(3) by simp
qed simp_all

lemma disc_trace_map:
  assumes "etcd_laws e content" and "trace (disc_step e content name) s ls s'"
    and "list_all (plain_instance \<circ> op_instance) (changes ls)"
  shows "etcd_map (e, content) (dcStore s') = fold apply_op (changes ls) (etcd_map (e, content) (dcStore s))"
  using assms(2,3)
proof (induction rule: trace.induct)
  case (trace_snoc ls t ev u)
  then show ?case using disc_step_map [OF assms(1) trace_snoc.hyps(2)] by (simp add: comp_def)
qed simp

lemma disc_trace_inv:
  assumes "etcd_laws e content" and "trace (disc_step e content name) s ls s'" and "disc_inv (e, content) name s"
    and "list_all lookup_ok ls" and "list_all (plain_instance \<circ> op_instance) (changes ls)"
  shows "disc_inv (e, content) name s'"
  using assms(2-5)
proof (induction rule: trace.induct)
  case (trace_snoc ls t ev u)
  then show ?case by (intro disc_inv_step [OF assms(1) _ trace_snoc.hyps(2)]) (simp_all add: comp_def)
qed simp

lemma subscribed:
  assumes "etcd_laws e content" and "ListServices e name d = Inr is"
    and "disc_step e content name (disc_start e timeout name update d) SubscribesNow s"
  shows "disc_inv (e, content) name s \<and> dcStore s = d"
  using assms(3)
proof cases
  case (dc_subscribe r)
  then have r: "r = (dcRun (disc_start e timeout name update d))\<lparr>rrPc := Watching\<rparr>" by (auto elim: resolver_SubscribesE)
  have "up_to_date (e, content) name s"
    by (rule resolve_up_to_date [OF assms(1), of _ _ "is" "[]"])
      (use assms(2) in \<open>simp_all add: dc_subscribe(1) r disc_start_def Build_resolver_def updates_resolve found_of_def\<close>)
  then show ?thesis
    using dc_subscribe r by (simp add: disc_inv_def sound_watch_def new_watcher_def disc_start_def)
qed

section \<open>What is in transit arrives\<close>

text \<open>The steps that are left before nothing is in transit.\<close>

fun sending_weight :: "watch_pc \<Rightarrow> nat" where
  "sending_weight (Sending evs) = 1 + 2 * length evs"
| "sending_weight _ = 0"

definition response_weight :: "watch_response \<Rightarrow> nat" where
  "response_weight r = 2 + 2 * length (wrEvents r)"

definition transit_weight :: "'d disc \<Rightarrow> nat" where
  "transit_weight s =
     sum_list (map (Suc \<circ> response_weight) (dcUnsent s)) + sum_list (map response_weight (wtQueue (dcWatcher s)))
     + sending_weight (wtPc (dcWatcher s)) + (if dcResolving s then 1 else 0)"

definition internal :: "disc_event \<Rightarrow> bool" where
  "internal ev \<longleftrightarrow> ops_of ev = [] \<and> lookup_ok ev"

lemma transitI:
  "disc_step e content name s ev s' \<Longrightarrow> internal ev \<Longrightarrow> dcStore s' = dcStore s \<Longrightarrow> transit_weight s' < transit_weight s \<Longrightarrow>
     \<exists>ev s'. disc_step e content name s ev s' \<and> internal ev \<and> dcStore s' = dcStore s \<and> transit_weight s' < transit_weight s"
  by blast

lemma transit_step:
  assumes inv: "disc_inv env name s" and "in_transit s" and ok: "ListServices e name (dcStore s) = Inr is"
  shows "\<exists>ev s'. disc_step e content name s ev s' \<and> internal ev \<and> dcStore s' = dcStore s
    \<and> transit_weight s' < transit_weight s"
proof -
  have pc: "rrPc (dcRun s) = Watching" using inv by (simp add: disc_inv_def)
  consider "dcResolving s" | x xs where "\<not> dcResolving s" "wtPc (dcWatcher s) = Sending (x # xs)"
    | "wtPc (dcWatcher s) = Sending []"
    | x xs where "wtPc (dcWatcher s) = Selecting" "wtQueue (dcWatcher s) = x # xs"
    | x xs where "wtPc (dcWatcher s) = Selecting" "dcUnsent s = x # xs"
  proof (cases "wtPc (dcWatcher s)")
    case Selecting
    then show ?thesis using that assms(2) by (cases "wtQueue (dcWatcher s)"; cases "dcUnsent s") (auto simp: in_transit_def)
  next
    case (Sending evs)
    then show ?thesis using that by (cases evs) auto
  next
    case WatchEnded
    then show ?thesis using inv by (simp add: disc_inv_def sound_watch_def)
  qed
  then show ?thesis
  proof cases
    case 1
    have st: "disc_step e content name s (Resolves (Inr is))
        (s\<lparr>dcRun := (dcRun s)\<lparr>rrCalls := rrCalls (dcRun s) @ resolve (Inr is) (\<lambda>as. None)\<rparr>, dcResolving := False\<rparr>)"
      using ok by (intro dc_resolve [OF 1 _ rs_notified [OF pc]]) (simp add: found_now_def)
    show ?thesis by (rule transitI [OF st]) (use 1 in \<open>simp_all add: internal_def transit_weight_def\<close>)
  next
    case (2 x xs)
    have st: "disc_step e content name s (DeliversTo (to_event x))
        (s\<lparr>dcWatcher := (dcWatcher s)\<lparr>wtPc := Sending xs, wtReceived := wtReceived (dcWatcher s) @ [to_event x]\<rparr>, dcResolving := True\<rparr>)"
      by (rule dc_deliver [OF pc 2(1) ws_deliver [OF 2(2)]])
    show ?thesis by (rule transitI [OF st]) (use 2 in \<open>simp_all add: internal_def transit_weight_def\<close>)
  next
    case 3
    have st: "disc_step e content name s (GoroutineStep NextEvent) (s\<lparr>dcWatcher := (dcWatcher s)\<lparr>wtPc := Selecting\<rparr>\<rparr>)"
      by (rule dc_goroutine [OF ws_next [OF 3]]) simp
    show ?thesis by (rule transitI [OF st]) (use 3 in \<open>simp_all add: internal_def transit_weight_def\<close>)
  next
    case (4 x xs)
    have "one_event x" using inv 4 by (simp add: disc_inv_def sound_watch_def)
    then have "on_response x = Sending (wrEvents x)" by (simp add: one_event_def on_response_def)
    moreover have st: "disc_step e content name s (GoroutineStep (Handles x))
        (s\<lparr>dcWatcher := (dcWatcher s)\<lparr>wtQueue := xs, wtPc := on_response x\<rparr>\<rparr>)"
      by (rule dc_goroutine [OF ws_handle [OF 4]]) simp
    ultimately show ?thesis
      by (intro transitI [OF st]) (use 4 in \<open>simp_all add: internal_def transit_weight_def response_weight_def\<close>)
  next
    case (5 x xs)
    have "\<not> wtQueueClosed (dcWatcher s)" using inv by (simp add: disc_inv_def sound_watch_def)
    from dc_sends [OF 5(2) ws_sends [OF this]]
    have st: "disc_step e content name s EtcdSendsNext
        (s\<lparr>dcUnsent := xs, dcWatcher := (dcWatcher s)\<lparr>wtQueue := wtQueue (dcWatcher s) @ [x]\<rparr>\<rparr>)" .
    show ?thesis by (rule transitI [OF st]) (use 5 in \<open>simp_all add: internal_def transit_weight_def\<close>)
  qed
qed

lemma transit_ends:
  assumes "etcd_laws e content" and "disc_inv (e, content) name s" and "ListServices e name (dcStore s) = Inr is"
  shows "\<exists>ls s'. trace (disc_step e content name) s ls s' \<and> list_all internal ls \<and> \<not> in_transit s'"
  using assms(2,3)
proof (induction "transit_weight s" arbitrary: s rule: less_induct)
  case less
  show ?case
  proof (cases "in_transit s")
    case True
    then obtain ev s1 where s1: "disc_step e content name s ev s1" "internal ev" "dcStore s1 = dcStore s"
        "transit_weight s1 < transit_weight s"
      using transit_step [OF less.prems(1) True less.prems(2)] by blast
    then have "disc_inv (e, content) name s1"
      by (intro disc_inv_step [OF assms(1) less.prems(1) s1(1)]) (auto simp: internal_def)
    then obtain ls s' where "trace (disc_step e content name) s1 ls s'" "list_all internal ls" "\<not> in_transit s'"
      using less.hyps [OF s1(4)] less.prems(2) s1(3) by auto
    then have "trace (disc_step e content name) s (ev # ls) s'" "list_all internal (ev # ls)"
      using s1(1,2) trace_Cons [where step = "disc_step e content name", OF s1(1)] by simp_all
    then show ?thesis using \<open>\<not> in_transit s'\<close> by blast
  qed (use trace_Nil [of "disc_step e content name"] in \<open>fastforce\<close>)
qed

lemma reg_run_map:
  assumes "etcd_laws e content" and "content d0 = Map.empty" and "list_all (plain_instance \<circ> op_instance) ops"
    and "reg_run e ops d0 = Some d"
  shows "etcd_map (e, content) d = registered ops"
proof -
  have "etcd.run_ops (e, content) ops d0 = Some d" using assms(4) reg_run_etcd [of "(e, content)"] by simp
  then have "etcd_map (e, content) d = fold apply_op ops (etcd_map (e, content) d0)"
    using etcd.run_ops_map [of "(e, content)" ops d0 d] assms(1,3) by (simp add: etcd_ok_def)
  moreover have "etcd_map (e, content) d0 = Map.empty" using assms(2) by (simp add: etcd_map_def fun_eq_iff)
  ultimately show ?thesis by (simp add: registered_def)
qed

lemma discovered:
  assumes "etcd_laws e content" and "content d0 = Map.empty"
    and "list_all (plain_instance \<circ> op_instance) ops" and "reg_run e ops d0 = Some d"
    and "ListServices e name d = Inr is"
    and "disc_step e content name (disc_start e timeout name update d) SubscribesNow s"
    and "trace (disc_step e content name) s ls s'" and "list_all lookup_ok ls"
    and "list_all (plain_instance \<circ> op_instance) (changes ls)"
  shows "disc_inv (e, content) name s' \<and> etcd_map (e, content) (dcStore s') = registered (ops @ changes ls)"
proof -
  have s: "disc_inv (e, content) name s" "dcStore s = d" using subscribed [OF assms(1,5,6)] by simp_all
  have "etcd_map (e, content) (dcStore s') = fold apply_op (changes ls) (registered ops)"
    using disc_trace_map [OF assms(1,7,9)] reg_run_map [OF assms(1-4)] s(2) by simp
  then show ?thesis using disc_trace_inv [OF assms(1,7) s(1) assms(8,9)] by (simp add: registered_def)
qed

lemma changes_append: "changes (ls @ ls') = changes ls @ changes ls'"
  by (simp add: changes_def)

lemma internal_changes: "list_all internal ls \<Longrightarrow> changes ls = [] \<and> list_all lookup_ok ls"
  by (induction ls) (simp_all add: changes_def internal_def)

section \<open>Properties\<close>




section \<open>A run on the cluster in memory\<close>

abbreviation aa_instance :: service_instance where
  "aa_instance \<equiv> \<lparr>siName = [97], siAddress = [49], siWeight = 3, siGroup = []\<rparr>"

abbreviation aa_content :: "(go_string \<times> bytes) list" where
  "aa_content \<equiv> [(instanceKey aa_instance, marshal_struct (instance_fields aa_instance))]"

abbreviation mem_step :: "(go_string \<times> bytes) list disc \<Rightarrow> disc_event \<Rightarrow> (go_string \<times> bytes) list disc \<Rightarrow> bool" where
  "mem_step \<equiv> disc_step memory_etcd map_of [97]"

definition mem_start :: "(go_string \<times> bytes) list disc" where
  "mem_start = disc_start memory_etcd 5 [97] (\<lambda>as. None) []"

definition mem_subscribed :: "(go_string \<times> bytes) list disc" where
  "mem_subscribed = mem_start\<lparr>dcRun := (dcRun mem_start)\<lparr>rrPc := Watching\<rparr>\<rparr>"

definition mem_changed :: "(go_string \<times> bytes) list disc" where
  "mem_changed = mem_subscribed\<lparr>dcStore := aa_content,
     dcUnsent := responses [(MvccPUT, marshal_struct (instance_fields aa_instance))]\<rparr>"

lemma mem_empty: "ListServices memory_etcd [97] [] = Inr []"
  by (simp add: ListServices_def memory_etcd_def)

lemma mem_steps:
  "mem_step mem_start SubscribesNow mem_subscribed"
  "mem_step mem_subscribed (Changes (OpRegister aa_instance)) mem_changed"
  "ListServices memory_etcd [97] (dcStore mem_changed) = Inr [aa_instance]"
proof -
  have "rrPc (dcRun mem_start) = Subscribing" by (simp add: mem_start_def disc_start_def Build_resolver_def)
  from dc_subscribe [OF rs_subscribes, OF this]
  show "mem_step mem_start SubscribesNow mem_subscribed"
    by (simp add: mem_subscribed_def mem_start_def disc_start_def)
  have "do_op memory_etcd (OpRegister aa_instance) (dcStore mem_subscribed) = (None, aa_content)"
    by (simp add: memory_register mem_subscribed_def mem_start_def disc_start_def)
  from dc_change [OF this, of map_of "[97]"]
  show "mem_step mem_subscribed (Changes (OpRegister aa_instance)) mem_changed"
    by (simp add: mem_changed_def mem_subscribed_def mem_start_def disc_start_def change_events_def marshal_instance_def
        serviceKey_def instanceKey_def root_key_def)
  show "ListServices memory_etcd [97] (dcStore mem_changed) = Inr [aa_instance]"
    using memory_lists [of aa_instance "[97]"] by (simp add: mem_changed_def plain_instance_def)
qed




end
