(* ===== verification/Example.thy ===== *)
theory Example
  imports RpcClient GoJson
begin

text \<open>
  The example programs of the RPC framework (\<^verbatim>\<open>example/rpc\<close>): the server with its two services and the
  client that calls them, run against one another.

  \<^item> The values of the programs are \<open>ex_value\<close>, printed by \<open>json_of\<close> as \<^verbatim>\<open>json.Marshal\<close> prints them. Reading
    them is the scanner of \<open>GoJson\<close> and then, from a document that it accepts, a parameter, as is the
    encoding of protocol buffers.
  \<^item> \<^verbatim>\<open>main\<close> of the client is a program of the monad \<open>prog\<close>: what it has printed, the counter of the message
    ids and the state of its connections; it may panic.
  \<^item> Its contexts never end, so that \<^verbatim>\<open>Client.Invoke\<close> returns what its goroutine gives.
\<close>

section \<open>Values\<close>

record user =
  usId :: u64
  usName :: go_string
  usAvatar :: go_string
  usEmail :: go_string
  usPassword :: go_string
  usCreateTime :: int

record proto_user =
  puId :: u64
  puStatus :: u32

datatype ex_value =
    FindByUserIdReq u64
  | FindByUserIdResp "user option"
  | GetByIdReq u64
  | GetByIdResp "proto_user option"
  | ExString go_string

definition json_member :: "go_string \<Rightarrow> bytes \<Rightarrow> bytes" where
  "json_member k v = quote_string k @ 58 # v"

fun json_members :: "bytes list \<Rightarrow> bytes" where
  "json_members [] = []"
| "json_members [m] = m"
| "json_members (m # ms) = m @ 44 # json_members ms"

definition json_object :: "bytes list \<Rightarrow> bytes" where
  "json_object ms = 123 # json_members ms @ [125]"

definition user_json :: "user \<Rightarrow> bytes" where
  "user_json u = json_object
     [json_member (go_str ''Id'') (digits (unat (usId u))), json_member (go_str ''Name'') (quote_string (usName u)),
      json_member (go_str ''Avatar'') (quote_string (usAvatar u)), json_member (go_str ''Email'') (quote_string (usEmail u)),
      json_member (go_str ''Password'') (quote_string (usPassword u)),
      json_member (go_str ''CreateTime'') (int_text (usCreateTime u))]"

definition null_text :: bytes where
  "null_text = go_str ''null''"

text \<open>The fields of the generated types are left out when they are zero.\<close>

definition unless_zero :: "bool \<Rightarrow> bytes \<Rightarrow> bytes list" where
  "unless_zero zero m = (if zero then [] else [m])"

definition proto_user_json :: "proto_user \<Rightarrow> bytes" where
  "proto_user_json u = json_object
     (unless_zero (puId u = 0) (json_member (go_str ''id'') (digits (unat (puId u))))
      @ unless_zero (puStatus u = 0) (json_member (go_str ''status'') (digits (unat (puStatus u)))))"

fun json_of :: "ex_value \<Rightarrow> bytes" where
  "json_of (FindByUserIdReq n) = json_object [json_member (go_str ''Id'') (digits (unat n))]"
| "json_of (FindByUserIdResp None) = json_object [json_member (go_str ''User'') null_text]"
| "json_of (FindByUserIdResp (Some u)) = json_object [json_member (go_str ''User'') (user_json u)]"
| "json_of (GetByIdReq n) = json_object (unless_zero (n = 0) (json_member (go_str ''id'') (digits (unat n))))"
| "json_of (GetByIdResp None) = json_object []"
| "json_of (ExString s) = quote_string s"
| "json_of (GetByIdResp (Some u)) = json_object [json_member (go_str ''user'') (proto_user_json u)]"

text \<open>\<open>exStore\<close> fills a value from a document; the message types are those of the generated code.\<close>

record ex_lib =
  exStore :: "json \<Rightarrow> ex_value dyn \<Rightarrow> go_error option \<times> ex_value dyn"
  exProtoMarshal :: "ex_value \<Rightarrow> go_error + bytes"
  exProtoUnmarshal :: "bytes \<Rightarrow> ex_value \<Rightarrow> go_error option \<times> ex_value"

definition ex_marshal :: "ex_value dyn \<Rightarrow> go_error + bytes" where
  "ex_marshal x = Inr (case x of DVal v \<Rightarrow> json_of v | _ \<Rightarrow> null_text)"

definition ex_unmarshal :: "ex_lib \<Rightarrow> bytes \<Rightarrow> ex_value dyn \<Rightarrow> go_error option \<times> ex_value dyn" where
  "ex_unmarshal lib data x =
     (case parse_json data of Inl t \<Rightarrow> (Some (TextError t), x) | Inr v \<Rightarrow> exStore lib v x)"

fun as_message :: "ex_value dyn \<Rightarrow> ex_value option" where
  "as_message (DVal (GetByIdReq n)) = Some (GetByIdReq n)"
| "as_message (DVal (GetByIdResp u)) = Some (GetByIdResp u)"
| "as_message x = None"

definition ex_json :: "ex_lib \<Rightarrow> ex_value dyn serializer" where
  "ex_json lib = json_serializer ex_marshal (ex_unmarshal lib)"

definition ex_proto :: "ex_lib \<Rightarrow> ex_value dyn serializer" where
  "ex_proto lib = proto_serializer as_message DVal (exProtoMarshal lib) (exProtoUnmarshal lib)"

section \<open>The server\<close>

definition user_text :: go_string where
  "user_text = go_str ''user''"

definition user_proto_text :: go_string where
  "user_proto_text = go_str ''user-service-proto''"

text \<open>\<open>second\<close> is what \<^verbatim>\<open>time.Now().Second()\<close> gives. The second parameter of a method is the request.\<close>

definition tom :: "int \<Rightarrow> user" where
  "tom second =
     \<lparr>usId = 12, usName = go_str ''Tom'', usAvatar = go_str ''http://my-avatar'', usEmail = go_str ''xxx@xxx.com'',
      usPassword = go_str ''123456'', usCreateTime = second\<rparr>"

definition user_GetById :: "int \<Rightarrow> go_ctx \<Rightarrow> ex_value dyn \<Rightarrow> ex_value dyn list go" where
  "user_GetById second ctx req = Inr [DVal (FindByUserIdResp (Some (tom second))), DNil]"

definition this_is_an_error :: bytes where
  "this_is_an_error = go_str ''this is an error''"

definition user_AlwaysError :: "go_ctx \<Rightarrow> ex_value dyn \<Rightarrow> ex_value dyn list go" where
  "user_AlwaysError ctx req = Inr [DNil, DErr (TextError this_is_an_error)]"

definition proto_GetById :: "go_ctx \<Rightarrow> ex_value dyn \<Rightarrow> ex_value dyn list go" where
  "proto_GetById ctx req = Inr [DVal (GetByIdResp (Some \<lparr>puId = 123, puStatus = 0\<rparr>)), DNil]"

definition name_method :: "go_string \<Rightarrow> ex_value rmethod" where
  "name_method n = \<lparr>mIn = [], mCall = (\<lambda>ctx req. Inr [DVal (ExString n)])\<rparr>"

definition UserService :: "int \<Rightarrow> ex_value service" where
  "UserService second =
     \<lparr>svcName = user_text, svcMethods =
       [(go_str ''AlwaysError'', \<lparr>mIn = [NoElem, HasElem (FindByUserIdReq 0)], mCall = user_AlwaysError\<rparr>),
        (go_str ''GetById'', \<lparr>mIn = [NoElem, HasElem (FindByUserIdReq 0)], mCall = user_GetById second\<rparr>),
        (go_str ''Name'', name_method user_text)]\<rparr>"

definition UserServiceProto :: "ex_value service" where
  "UserServiceProto =
     \<lparr>svcName = user_proto_text, svcMethods =
       [(go_str ''GetById'', \<lparr>mIn = [NoElem, HasElem (GetByIdReq 0)], mCall = proto_GetById\<rparr>),
        (go_str ''Name'', name_method user_proto_text)]\<rparr>"

definition example_server :: "ex_lib \<Rightarrow> int \<Rightarrow> ex_value server go" where
  "example_server lib second =
     go_bind (NewServer (ex_json lib)) (\<lambda>svr.
     go_bind (MustRegister (UserService second) svr) (\<lambda>svr.
     go_bind (MustRegister UserServiceProto svr) (\<lambda>svr.
     go_bind (RegisterSerializer (ex_json lib) svr) (\<lambda>svr.
     RegisterSerializer (ex_proto lib) svr))))"

section \<open>The client\<close>

record 's ex_state =
  exPrinted :: "bytes list"
  exMessageId :: u32
  exConns :: 's

type_synonym ('s, 'a) prog = "'s ex_state \<Rightarrow> 'a go \<times> 's ex_state"

definition prog_ret :: "'a \<Rightarrow> ('s, 'a) prog" where
  "prog_ret x s = (Inr x, s)"

definition prog_panic :: "go_panic \<Rightarrow> ('s, 'a) prog" where
  "prog_panic p s = (Inl p, s)"

definition prog_bind :: "('s, 'a) prog \<Rightarrow> ('a \<Rightarrow> ('s, 'b) prog) \<Rightarrow> ('s, 'b) prog" where
  "prog_bind m f s = (case m s of (Inl p, s) \<Rightarrow> (Inl p, s) | (Inr x, s) \<Rightarrow> f x s)"

text \<open>\<^verbatim>\<open>if err != nil { panic(err) }\<close>\<close>

definition panic_if :: "ex_value dyn \<Rightarrow> ('s, unit) prog" where
  "panic_if err =
     (case err of DNil \<Rightarrow> prog_ret () | DErr e \<Rightarrow> prog_panic (ExplicitPanic (error_text e)) | DVal v \<Rightarrow> prog_panic TypeAssertion)"

text \<open>\<^verbatim>\<open>err.Error()\<close>\<close>

definition text_of :: "ex_value dyn \<Rightarrow> ('s, bytes) prog" where
  "text_of err = (case err of DErr e \<Rightarrow> prog_ret (error_text e) | _ \<Rightarrow> prog_panic NilDereference)"

definition printf :: "bytes \<Rightarrow> ('s, unit) prog" where
  "printf t s = (Inr (), s\<lparr>exPrinted := exPrinted s @ [t]\<rparr>)"

text \<open>The goroutine of \<^verbatim>\<open>Client.Invoke\<close>.\<close>

definition invoke_goroutine ::
  "('s, 'c) conn_env \<Rightarrow> (go_map option \<Rightarrow> (go_string \<times> go_string) list) \<Rightarrow> go_ctx \<Rightarrow> request \<Rightarrow> 's \<Rightarrow>
     (go_error + response) go \<times> 's" where
  "invoke_goroutine env ord ctx req s =
     (case EncodeReq req (ord (reqMeta req)) of Inl p \<Rightarrow> (Inl p, s) | Inr encode \<Rightarrow> doInvoke env ctx encode s)"

text \<open>A call of a field of a service: its results, the counter and the connections after it.\<close>

definition call_field ::
  "('s, 'c) conn_env \<Rightarrow> (go_map option \<Rightarrow> (go_string \<times> go_string) list) \<Rightarrow> ex_value client \<Rightarrow> go_string \<Rightarrow>
     ex_value func_field \<Rightarrow> go_ctx \<Rightarrow> ex_value \<Rightarrow> ('s, ex_value dyn \<times> ex_value dyn) prog" where
  "call_field env ord cl svc fld ctx arg s =
     (let args = [(Some ctx, DNil), (None, DVal arg)];
          after = (case prepare_call cl fld args of
                     Inr (Inr (out, c, meta)) \<Rightarrow>
                       snd (invoke_goroutine env ord c (new_request cl svc ord fld meta (exMessageId s + 1)) (exConns s))
                   | _ \<Rightarrow> exConns s)
      in (case service_call cl svc ord (\<lambda>c req. fst (invoke_goroutine env ord c req (exConns s))) fld (exMessageId s) args of
            (mid, r) \<Rightarrow> (go_bind r (\<lambda>vs. Inr (vs ! 0, vs ! 1)), s\<lparr>exMessageId := mid, exConns := after\<rparr>)))"

definition user_fields :: "ex_value func_field list" where
  "user_fields =
     [\<lparr>ffName = go_str ''GetById'', ffCanSet = True, ffIsFunc = True, ffOut = [HasElem (FindByUserIdResp None), NoElem]\<rparr>,
      \<lparr>ffName = go_str ''AlwaysError'', ffCanSet = True, ffIsFunc = True, ffOut = [HasElem (FindByUserIdResp None), NoElem]\<rparr>]"

definition user_proto_fields :: "ex_value func_field list" where
  "user_proto_fields =
     [\<lparr>ffName = go_str ''GetById'', ffCanSet = True, ffIsFunc = True, ffOut = [HasElem (GetByIdResp None), NoElem]\<rparr>]"

text \<open>The results of \<^verbatim>\<open>InitService\<close>: a panic, an error for \<^verbatim>\<open>main\<close> to panic with, or the fields.\<close>

definition must_wire :: "(go_error + ex_value func_field list) go \<Rightarrow> ('s, ex_value func_field list) prog" where
  "must_wire r =
     (case r of
        Inl p \<Rightarrow> prog_panic p
      | Inr (Inl e) \<Rightarrow> prog_panic (ExplicitPanic (error_text e))
      | Inr (Inr fs) \<Rightarrow> prog_ret fs)"

text \<open>When the error is not looked at, the call of a field that got no function panics.\<close>

definition unchecked_wire :: "(go_error + ex_value func_field list) go \<Rightarrow> ('s, ex_value func_field list) prog" where
  "unchecked_wire r =
     (case r of
        Inl p \<Rightarrow> prog_panic p
      | Inr (Inl e) \<Rightarrow> prog_panic NilDereference
      | Inr (Inr fs) \<Rightarrow> prog_ret fs)"

text \<open>The two texts are \<^verbatim>\<open>"received response: "\<close> and \<^verbatim>\<open>"received error: "\<close> in Chinese.\<close>

definition response_line :: "bytes \<Rightarrow> bytes" where
  "response_line t = [230, 148, 182, 229, 136, 176, 229, 147, 141, 229, 186, 148] @ go_str '': '' @ t @ [32, 10]"

definition error_line :: "bytes \<Rightarrow> bytes" where
  "error_line t =
     [230, 148, 182, 229, 136, 176, 233, 148, 153, 232, 175, 175, 228, 191, 161, 230, 129, 175] @ go_str '': '' @ t @ [32, 10]"

definition marshaled :: "ex_value dyn \<Rightarrow> bytes" where
  "marshaled x = (case ex_marshal x of Inl e \<Rightarrow> [] | Inr d \<Rightarrow> d)"

definition example_client ::
  "ex_lib \<Rightarrow> ('s, 'c) conn_env \<Rightarrow> (go_map option \<Rightarrow> (go_string \<times> go_string) list) \<Rightarrow> go_error + unit \<Rightarrow> ('s, unit) prog" where
  "example_client lib env ord pool =
     (case NewClient (ex_json lib) pool [] of
        Inl e \<Rightarrow> prog_panic (ExplicitPanic (error_text e))
      | Inr (_, c) \<Rightarrow>
          prog_bind (must_wire (InitService c (PointerTo (ElemStruct user_fields)))) (\<lambda>us.
          prog_bind (call_field env ord c user_text (us ! 0) Background (FindByUserIdReq 12)) (\<lambda>(resp, err).
          prog_bind (panic_if err) (\<lambda>_.
          prog_bind (call_field env ord c user_text (us ! 0) (CtxWithOneway Background) (FindByUserIdReq 12)) (\<lambda>_.
          prog_bind (printf (response_line (marshaled resp))) (\<lambda>_.
          prog_bind (call_field env ord c user_text (us ! 1) Background (FindByUserIdReq 12)) (\<lambda>(_, err).
          prog_bind (text_of err) (\<lambda>t.
          prog_bind (printf (error_line t)) (\<lambda>_.
          prog_bind (unchecked_wire (InitService c (PointerTo (ElemStruct user_proto_fields)))) (\<lambda>usProto.
          prog_bind (call_field env ord c user_proto_text (usProto ! 0) Background (GetByIdReq 0)) (\<lambda>(presp, err).
          prog_bind (panic_if err) (\<lambda>_.
          printf (response_line (marshaled presp))))))))))))))"

definition client_begins :: "'s \<Rightarrow> 's ex_state" where
  "client_begins s = \<lparr>exPrinted = [], exMessageId = 0, exConns = s\<rparr>"

section \<open>The server of the example\<close>

lemma user_text_neq [simp]: "user_text \<noteq> user_proto_text" "user_proto_text \<noteq> user_text"
  by (simp_all add: user_text_def user_proto_text_def)

lemma ex_json_codes [simp]: "sCode (ex_json lib) = 1" "sCode (ex_proto lib) = 2"
  by (simp_all add: ex_json_def json_serializer_def ex_proto_def proto_serializer_def)

lemma MustRegister_total [simp]: "MustRegister svc srv = Inr (RegisterService svc srv)"
  by (simp add: MustRegister_def)

definition example_methods :: "int \<Rightarrow> go_string \<Rightarrow> go_string \<Rightarrow> ex_value rmethod option" where
  "example_methods second svc name =
     (if svc = user_text then map_of (svcMethods (UserService second)) name
      else if svc = user_proto_text then map_of (svcMethods UserServiceProto) name
      else None)"

lemma example_server_facts:
  obtains srv where "example_server lib second = Inr srv" and "server_wf srv"
    and "compressor_of srv 0 = Some DoNothingCompressor" and "serializer_of srv 1 = Some (ex_json lib)"
    and "\<And>req. method_of srv req = example_methods second (reqServiceName req) (reqMethodName req)"
proof -
  obtain s0 where s0: "NewServer (ex_json lib) = Inr s0" "server_wf s0" "compressor_of s0 0 = Some DoNothingCompressor"
      "services s0 = Map.empty"
    using NewServer_total [of "ex_json lib"] by auto
  define s2 where "s2 = RegisterService UserServiceProto (RegisterService (UserService second) s0)"
  have s2: "server_wf s2" "compressor_of s2 0 = Some DoNothingCompressor"
    using s0 by (simp_all add: s2_def RegisterService_def compressor_of_def server_wf_def)
  obtain s3 where s3: "RegisterSerializer (ex_json lib) s2 = Inr s3" using s2 serializer_table.reg_total by blast
  have wf3: "server_wf s3" by (rule serializer_table.reg_wf [OF s2(1) s3])
  obtain s4 where s4: "RegisterSerializer (ex_proto lib) s3 = Inr s4" using wf3 serializer_table.reg_total by blast
  have wf4: "server_wf s4" by (rule serializer_table.reg_wf [OF wf3 s4])
  have same: "services s4 = services s2" "compressors s4 = compressors s2"
    using s3 s4 s2(1) wf3 by (auto simp: RegisterSerializer_wf)
  have names: "distinct (map fst (svcMethods (UserService second)))" "distinct (map fst (svcMethods UserServiceProto))"
    by (simp_all add: UserService_def UserServiceProto_def)
  show thesis
  proof (rule that [of s4])
    show "example_server lib second = Inr s4"
      using s0(1) s3 s4 by (simp add: example_server_def s2_def)
    show "compressor_of s4 0 = Some DoNothingCompressor" using s2(2) same by (simp add: compressor_of_def)
    show "serializer_of s4 1 = Some (ex_json lib)"
      using serializer_table.look_reg [OF wf3 s4, of 1] serializer_table.look_reg [OF s2(1) s3, of 1] by simp
    show "method_of s4 req = example_methods second (reqServiceName req) (reqMethodName req)" for req
      using s0(4) names
      by (simp add: method_of_def same s2_def RegisterService_def method_map_distinct example_methods_def
          UserService_def [of second, THEN arg_cong [of _ _ svcName]] UserServiceProto_def [THEN arg_cong [of _ _ svcName]])
  qed (rule wf4)
qed

lemma example_invoke:
  assumes "server_wf srv" and "compressor_of srv 0 = Some DoNothingCompressor"
    and "serializer_of srv 1 = Some (ex_json lib)" and "method_of srv req = Some m" and "mIn m = [NoElem, HasElem v]"
    and "reqCompresser req = 0" and "reqSerializer req = 1"
  shows "Server_Invoke srv ctx req =
     (case ex_unmarshal lib (reqData req) (DVal v) of
        (Some e, _) \<Rightarrow> Inr ((reply_to req)\<lparr>respError := error_text e\<rparr>)
      | (None, arg) \<Rightarrow> go_bind (mCall m ctx arg) (encode_result (ex_json lib) DoNothingCompressor (reply_to req)))"
proof -
  obtain stub where stub: "services srv (reqServiceName req) = Some stub" "stubMethods stub (reqMethodName req) = Some m"
    using assms(4) by (auto simp: method_of_def split: option.splits)
  have "new_argument m = Inr (DVal v)" by (simp add: new_argument_def index_at_def assms(5))
  moreover have "cUnCompress DoNothingCompressor = Inr" "sDecode (ex_json lib) = ex_unmarshal lib"
    by (simp_all add: DoNothingCompressor_def ex_json_def json_serializer_def)
  ultimately show ?thesis
    using assms(2,3,6,7) by (simp add: Server_Invoke_def stub stub_Invoke_known [OF assms(1) stub(2)])
qed

lemma example_empty_data:
  "ex_unmarshal lib [] x = (Some (TextError (go_str ''unexpected end of JSON input'')), x)"
proof -
  have "parse_json [] = Inl (go_str ''unexpected end of JSON input'')"
    by (simp add: parse_json_def scan_eof_def new_scanner_def scan_step_def begin_value_def GoJson.is_space_def)
  then show ?thesis by (simp add: ex_unmarshal_def)
qed

section \<open>The calls of the client\<close>

lemma call_field_answered:
  assumes "server_wf srv" and "prepare_call cl fld [(Some ctx, DNil), (None, DVal arg)] = Inr (Inr (out, ctx, meta))"
    and "\<not> isOneway ctx" and "exConns s = \<lparr>pipeHeld = 0, pipeUnread = []\<rparr>"
    and "EncodeReq (new_request cl svc ord fld meta (exMessageId s + 1)) (ord meta) = Inr frame"
    and "DecodeReq frame = Inr req" and "Server_Invoke srv Background req = Inr resp" and "sendable_response resp"
  shows "call_field (pipe_env srv) ord cl svc fld ctx arg s =
     (go_bind (make_func (length (ffOut fld)) (Inr (finish_call cl out (Inr (sized_response resp))))) (\<lambda>vs. Inr (vs ! 0, vs ! 1)),
      s\<lparr>exMessageId := exMessageId s + 1\<rparr>)"
proof -
  obtain w where w: "handleConn srv [Inr (frame, None)] = ([w], Reading)" "DecodeResp w = Inr (sized_response resp)"
    using served_frame [OF assms(6-8)] .
  have meta: "reqMeta (new_request cl svc ord fld meta mid) = meta" for mid
    by (simp add: new_request_def CalculateBodyLength_req_def CalculateHeaderLength_req_def)
  have "invoke_goroutine (pipe_env srv) ord ctx (new_request cl svc ord fld meta (exMessageId s + 1)) (exConns s) =
      (Inr (Inr (sized_response resp)), exConns s)"
    using assms(3-5) w
    by (simp add: invoke_goroutine_def meta doInvoke_def pipe_env_def pipe_write_def pipe_read_def exchange_def)
  then show ?thesis
    using assms(2) by (simp add: call_field_def Let_def service_call_def call_fn_def)
qed

lemma finish_error:
  "respData resp = [] \<Longrightarrow> respError resp \<noteq> [] \<Longrightarrow>
     finish_call cl out (Inr (sized_response resp)) = [RVal out, RVal (DErr (TextError (respError resp)))]"
  by (simp add: finish_call_def sized_response_def CalculateBodyLength_resp_def CalculateHeaderLength_resp_def)

lemma client_made:
  "NewClient (ex_json lib) (Inr ()) [] = Inr ((), \<lparr>clSerializer = ex_json lib, clCompressor = DoNothingCompressor\<rparr>)"
  by (simp add: NewClient_def)

lemma fields_wired:
  "must_wire (InitService c (PointerTo (ElemStruct user_fields))) = prog_ret user_fields"
  by (simp add: must_wire_def InitService_def setFuncField_def user_fields_def)

text \<open>The call of a field, with the server of the example at the other end: the request has no data.\<close>

lemma example_call:
  assumes "range_order None (ord None)" and "example_server lib second = Inr srv"
    and "exConns s = \<lparr>pipeHeld = 0, pipeUnread = []\<rparr>" and "ffOut fld = [HasElem out, NoElem]"
    and "ffName fld \<in> {go_str ''GetById'', go_str ''AlwaysError''}"
  shows "call_field (pipe_env srv) ord \<lparr>clSerializer = ex_json lib, clCompressor = DoNothingCompressor\<rparr> user_text fld
      Background arg s =
     (Inr (DVal out, DErr (TextError (go_str ''unexpected end of JSON input''))), s\<lparr>exMessageId := exMessageId s + 1\<rparr>)"
proof -
  let ?cl = "\<lparr>clSerializer = ex_json lib, clCompressor = DoNothingCompressor\<rparr>"
  let ?req = "new_request ?cl user_text ord fld None (exMessageId s + 1)"
  obtain srv' where srv': "example_server lib second = Inr srv'" "server_wf srv'"
      "compressor_of srv' 0 = Some DoNothingCompressor" "serializer_of srv' 1 = Some (ex_json lib)"
      "\<And>req. method_of srv' req = example_methods second (reqServiceName req) (reqMethodName req)"
    using example_server_facts by blast
  then have srv: "srv' = srv" using assms(2) by simp
  have ord: "ord None = []" using assms(1) by (simp add: range_order_def)
  have names: "splitter \<notin> set user_text" "splitter \<notin> set (ffName fld)" "length user_text + length (ffName fld) < 2 ^ 31"
    using assms(5) by (auto simp: user_text_def splitter_def)
  have meta: "call_meta Background = Inr None" by (simp add: call_meta_def Background_def isOneway_def)
  obtain frame req where frame: "EncodeReq ?req (ord None) = Inr frame" "DecodeReq frame = Inr req"
      "reqServiceName req = user_text" "reqMethodName req = ffName fld" "reqCompresser req = 0" "reqSerializer req = 1"
      "reqData req = []"
    using client_request_of [where ord = ord and cl = ?cl and mid = "exMessageId s + 1", OF meta _ _ names] assms(1)
    by (auto simp: Background_def DoNothingCompressor_def)
  obtain m where m: "method_of srv req = Some m" "mIn m = [NoElem, HasElem (FindByUserIdReq 0)]"
    using srv'(5) [of req] assms(5) frame(3,4) by (auto simp: srv example_methods_def UserService_def)
  let ?resp = "(reply_to req)\<lparr>respError := go_str ''unexpected end of JSON input''\<rparr>"
  have inv: "Server_Invoke srv Background req = Inr ?resp"
    using example_invoke [OF srv'(2-4) [unfolded srv] m frame(5,6)] by (simp add: frame(7) example_empty_data)
  have prep: "prepare_call ?cl fld [(Some Background, DNil), (None, DVal arg)] = Inr (Inr (DVal out, Background, None))"
    using assms(4) meta
    by (simp add: prepare_call_def index_at_def new_result_def ex_json_def json_serializer_def ex_marshal_def
        DoNothingCompressor_def)
  have "sendable_response ?resp" by (simp add: sendable_response_def length_resp_header reply_to_def)
  from call_field_answered [OF srv'(2) [unfolded srv] prep _ assms(3) frame(1,2) inv this]
  show ?thesis using assms(4) by (simp add: Background_def isOneway_def finish_error reply_to_def make_func_def)
qed

section \<open>Properties\<close>


lemma length_digits: "length (digits n) \<le> Suc n"
proof (induction n rule: digits.induct)
  case (1 n)
  show ?case
  proof (cases "n < 10")
    case False
    then have "length (digits (n div 10)) \<le> Suc (n div 10)" using 1 by simp
    then show ?thesis using False by (subst digits.simps) simp
  qed (simp add: digits.simps)
qed

lemma quote_plain:
  assumes "list_all (\<lambda>b. html_safe b \<and> b < 0x80) s"
  shows "quote_string s = 34 # s @ [34]"
proof -
  have "quote_body s = s"
    using assms
    by (induction s) (simp_all add: quote_body_def utf8_head_def quote_byte_def)
  then show ?thesis by (simp add: quote_string_def)
qed

lemma tom_length:
  assumes "0 \<le> second" and "second < 60"
  shows "length (json_of (FindByUserIdResp (Some (tom second)))) < 1000"
proof -
  have "length (int_text second) \<le> 61" using assms length_digits [of "nat second"] by (simp add: int_text_def)
  moreover have "length (digits 12) \<le> 13" using length_digits [of 12] by simp
  moreover have "unat (12 :: u64) = 12" by simp
  ultimately show ?thesis
    by (simp add: json_object_def json_member_def user_json_def tom_def quote_plain html_safe_def)
qed

lemma served_frame_sized:
  assumes "DecodeReq bs = Inr req" and "Server_Invoke srv Background req = Inr resp" and "sendable_response resp"
  shows "\<exists>w r. handleConn srv [Inr (bs, None)] = ([w], Reading) \<and> DecodeResp w = Inr r
    \<and> respError r = respError resp \<and> respData r = respData resp \<and> respMessageId r = respMessageId resp"
  using served_frame [OF assms]
  by (metis (no_types, lifting) sized_response_id CalculateBodyLength_resp_def CalculateHeaderLength_resp_def
      response.select_convs(7,8) response.surjective response.update_convs(1,2) sized_response_def)

text \<open>
  The server of the example does what it says for a client that sends its argument: a frame for GetById that
  decodes is answered with the JSON text of the user, one for AlwaysError with its error. A frame for Name,
  which reflection registers as well, ends the server.
\<close>

theorem example_server_answers:
  assumes "0 \<le> second" and "second < 60" and "DecodeReq frame = Inr req" and "reqServiceName req = user_text"
    and "reqCompresser req = 0" and "reqSerializer req = 1"
    and "ex_unmarshal lib (reqData req) (DVal (FindByUserIdReq 0)) = (None, arg)"
    and "reqMethodName req \<in> {go_str ''GetById'', go_str ''AlwaysError'', go_str ''Name''}"
  shows "\<exists>srv. example_server lib second = Inr srv
    \<and> (if reqMethodName req = go_str ''Name'' then handleConn srv [Inr (frame, None)] = ([], Panicked IndexOutOfRange)
        else \<exists>w r. handleConn srv [Inr (frame, None)] = ([w], Reading) \<and> DecodeResp w = Inr r
          \<and> respMessageId r = reqMessageId req
          \<and> (if reqMethodName req = go_str ''GetById''
              then respError r = [] \<and> respData r = json_of (FindByUserIdResp (Some (tom second)))
              else respError r = go_str ''this is an error'' \<and> respData r = []))"
proof -
  obtain srv where srv: "example_server lib second = Inr srv" "server_wf srv"
      "compressor_of srv 0 = Some DoNothingCompressor" "serializer_of srv 1 = Some (ex_json lib)"
      "\<And>req. method_of srv req = example_methods second (reqServiceName req) (reqMethodName req)"
    using example_server_facts by blast
  note call = example_invoke [OF srv(2-4) _ _ assms(5,6), of _ "FindByUserIdReq 0" Background]
  have methods: "method_of srv req = map_of (svcMethods (UserService second)) (reqMethodName req)"
    using srv(5) [of req] assms(4) by (simp add: example_methods_def)
  have marshal: "sEncode (ex_json lib) (DVal v) = Inr (json_of v)" for v
    by (simp add: ex_json_def json_serializer_def ex_marshal_def)
  consider (get) "reqMethodName req = go_str ''GetById''" | (err) "reqMethodName req = go_str ''AlwaysError''"
    | (name) "reqMethodName req = go_str ''Name''"
    using assms(8) by blast
  then show ?thesis
  proof cases
    case get
    let ?resp = "(reply_to req)\<lparr>respData := json_of (FindByUserIdResp (Some (tom second)))\<rparr>"
    have "Server_Invoke srv Background req = Inr ?resp"
      using call methods assms(7) get marshal
      by (simp add: UserService_def user_GetById_def encode_result_def index_at_def DoNothingCompressor_def)
    moreover have "sendable_response ?resp"
      using tom_length [OF assms(1,2)] by (simp add: sendable_response_def length_resp_header reply_to_def)
    ultimately show ?thesis using served_frame_sized [OF assms(3)] srv(1) get by (fastforce simp: reply_to_def)
  next
    case err
    let ?resp = "(reply_to req)\<lparr>respError := go_str ''this is an error''\<rparr>"
    have "Server_Invoke srv Background req = Inr ?resp"
      using call methods assms(7) err
      by (simp add: UserService_def user_AlwaysError_def encode_result_def this_is_an_error_def)
    moreover have "sendable_response ?resp" by (simp add: sendable_response_def length_resp_header reply_to_def)
    ultimately show ?thesis using served_frame_sized [OF assms(3)] srv(1) err by (fastforce simp: reply_to_def)
  next
    case name
    have "Server_Invoke srv Background req = Inl IndexOutOfRange"
      using methods name
      by (intro short_signature_panics [OF srv(2), where m = "name_method user_text"])
        (simp_all add: UserService_def name_method_def)
    then show ?thesis using srv(1) name by (simp add: serve_frame_eq assms(3))
  qed
qed

section \<open>A run\<close>

definition no_store :: ex_lib where
  "no_store = \<lparr>exStore = (\<lambda>v x. (None, x)), exProtoMarshal = (\<lambda>v. Inr []), exProtoUnmarshal = (\<lambda>d v. (None, v))\<rparr>"


definition get_request :: request where
  "get_request =
     \<lparr>reqHeadLength = 0, reqBodyLength = 0, reqMessageId = 9, reqVersion = 0, reqCompresser = 0, reqSerializer = 1,
      reqServiceName = user_text, reqMethodName = go_str ''GetById'', reqMeta = None, reqData = go_str ''{}''\<rparr>"

lemma empty_object: "ex_unmarshal no_store (go_str ''{}'') x = (None, x)"
  by (simp add: ex_unmarshal_def parse_json_def no_store_def scan_step_def begin_value_def begin_string_def new_scanner_def
      push_frame_def max_depth_def GoJson.is_space_def pop_frame_def end_value_def emit_def scan_eof_def)

theorem example_server_answers_witness:
  "\<exists>srv w r. example_server no_store 7 = Inr srv
    \<and> handleConn srv [Inr (req_header (sized_request get_request []) [] @ go_str ''{}'', None)] = ([w], Reading)
    \<and> DecodeResp w = Inr r \<and> respMessageId r = 9 \<and> respData r = json_of (FindByUserIdResp (Some (tom 7)))"
proof -
  let ?req = "(sized_request get_request [])\<lparr>reqMeta := None\<rparr>"
  have data: "reqData get_request = go_str ''{}''" by (simp add: get_request_def)
  have frame: "DecodeReq (req_header (sized_request get_request []) [] @ go_str ''{}'') = Inr ?req"
    using DecodeReq_sized [of get_request "[]"] unfolding data
    by (simp add: length_req_header clean_request_def clean_pairs_def get_request_def user_text_def splitter_def)
  have fields: "reqServiceName ?req = user_text" "reqCompresser ?req = 0" "reqSerializer ?req = 1"
      "reqMethodName ?req = go_str ''GetById''" "reqMessageId ?req = 9" "reqData ?req = go_str ''{}''"
    by (simp_all add: sized_request_def CalculateBodyLength_req_def CalculateHeaderLength_req_def get_request_def)
  have "ex_unmarshal no_store (reqData ?req) (DVal (FindByUserIdReq 0)) = (None, DVal (FindByUserIdReq 0))"
    unfolding fields by (rule empty_object)
  from example_server_answers [OF _ _ frame fields(1-3) this, of 7] show ?thesis
    unfolding fields by auto
qed

end
