(* ===== verification/ExampleFleet.thy ===== *)
theory ExampleFleet
  imports Micro
begin

text \<open>
  The examples on top of the framework: the three servers of \<^verbatim>\<open>example/broadcast/server\<close> and
  \<^verbatim>\<open>example/group/server\<close>, which a loop starts in goroutines of an errgroup.

  \<^item> The language is that of \<^verbatim>\<open>go 1.18\<close>: a goroutine shares the variable of the loop. \<open>fleet_step\<close> interleaves
    the loop with the goroutines, each of which builds its server, starts it and closes it when it has
    stopped serving.
  \<^item> A port that is free gives the listener of the wildcard address; otherwise listening fails.
  \<^item> Making the etcd client and its session are inputs.
\<close>

section \<open>The servers\<close>

definition fleet_name :: go_string where
  "fleet_name = go_str ''user-service''"

definition broadcast_server :: "'d etcd \<Rightarrow> nat \<Rightarrow> nat \<Rightarrow> 'd micro_server" where
  "broadcast_server r idx i =
     (let grp = (if idx mod 2 = 0 then go_str ''b'' else go_str ''a'') in
        NewMicroServer fleet_name [ServerWithGroup grp, ServerWithRegistry r, ServerWithWeight (of_nat (1 + i))])"

definition group_server :: "'d etcd \<Rightarrow> nat \<Rightarrow> nat \<Rightarrow> 'd micro_server" where
  "group_server r idx i = NewMicroServer fleet_name [ServerWithRegistry r, ServerWithTimeout (3 * 1000000000)]"

text \<open>The etcd client and the registry of a \<^verbatim>\<open>main\<close>, which panics with an error of either.\<close>

definition main_registry :: "go_error + unit \<Rightarrow> go_error + unit \<Rightarrow> registry_object go" where
  "main_registry new_client new_session =
     (case new_client of
        Inl err \<Rightarrow> Inl (ExplicitPanic (error_text err))
      | Inr _ \<Rightarrow> (case NewRegistry new_session of Inl err \<Rightarrow> Inl (ExplicitPanic (error_text err)) | Inr r \<Rightarrow> Inr r))"

definition fleet_addr :: "nat \<Rightarrow> go_string" where
  "fleet_addr idx = go_str ''[::]:'' @ digits (8081 + idx)"

definition fleet_listen :: "nat \<Rightarrow> go_error + unit \<Rightarrow> go_error + go_string" where
  "fleet_listen idx l = (case l of Inl err \<Rightarrow> Inl err | Inr _ \<Rightarrow> Inr (fleet_addr idx))"

datatype 'd goroutine =
    GoNew
  | GoBuilt "'d micro_server"
  | GoServing "'d micro_server"
  | GoReturned "go_error option" "'d micro_server"
  | GoDone "go_error option"

record 'd fleet =
  flI :: nat
  flRun :: "'d goroutine list"
  flStore :: 'd

datatype fleet_event =
    Launches
  | Increments
  | Builds nat
  | Starts nat "go_error + unit" "go_error option"
  | ServeEnds nat "go_error option"
  | ClosesServer nat "go_error option"

inductive fleet_step :: "(nat \<Rightarrow> nat \<Rightarrow> 'd micro_server) \<Rightarrow> 'd fleet \<Rightarrow> fleet_event \<Rightarrow> 'd fleet \<Rightarrow> bool" for mk where
  fl_launches: "length (flRun s) = flI s \<Longrightarrow> flI s < 3 \<Longrightarrow>
    fleet_step mk s Launches (s\<lparr>flRun := flRun s @ [GoNew]\<rparr>)"
| fl_increments: "length (flRun s) = Suc (flI s) \<Longrightarrow>
    fleet_step mk s Increments (s\<lparr>flI := Suc (flI s)\<rparr>)"
| fl_builds: "k < length (flRun s) \<Longrightarrow> flRun s ! k = GoNew \<Longrightarrow>
    fleet_step mk s (Builds k) (s\<lparr>flRun := (flRun s)[k := GoBuilt (mk k (flI s))]\<rparr>)"
| fl_starts: "k < length (flRun s) \<Longrightarrow> flRun s ! k = GoBuilt sv \<Longrightarrow>
    MicroStart (fleet_listen k l) None sv (flStore s) = (err, sv', d) \<Longrightarrow>
    fleet_step mk s (Starts k l err)
      (s\<lparr>flRun := (flRun s)[k := (if err = None then GoServing sv' else GoReturned err sv')], flStore := d\<rparr>)"
| fl_serve_ends: "k < length (flRun s) \<Longrightarrow> flRun s ! k = GoServing sv \<Longrightarrow>
    fleet_step mk s (ServeEnds k err) (s\<lparr>flRun := (flRun s)[k := GoReturned err sv]\<rparr>)"
| fl_closes: "k < length (flRun s) \<Longrightarrow> flRun s ! k = GoReturned err sv \<Longrightarrow>
    MicroClose sv (flStore s) = Inr (cerr, sv', d) \<Longrightarrow>
    fleet_step mk s (ClosesServer k cerr) (s\<lparr>flRun := (flRun s)[k := GoDone err], flStore := d\<rparr>)"

definition fleet_start :: "'d \<Rightarrow> 'd fleet" where
  "fleet_start d = \<lparr>flI = 0, flRun = [], flStore = d\<rparr>"

text \<open>The client of the groups.\<close>

definition group_client :: "'d etcd \<Rightarrow> go_string \<Rightarrow> 'd micro_client" where
  "group_client r pname =
     NewMicroClient [ClientWithInsecure, ClientWithRegistry r (3 * 1000000000), ClientWithPickerBuilder pname]"

section \<open>What is registered\<close>

text \<open>The instance that a goroutine keeps in the registry.\<close>

fun held :: "'d goroutine \<Rightarrow> service_instance option" where
  "held (GoServing sv) = Some (msInstance sv)"
| "held (GoReturned err sv) = (if msInstance sv = zero_instance then None else Some (msInstance sv))"
| "held _ = None"

definition fleet_key :: "nat \<Rightarrow> go_string" where
  "fleet_key k = root_key @ fleet_name @ [47] @ fleet_addr k"

lemma fleet_key_inj: "fleet_key j = fleet_key k \<longleftrightarrow> j = k"
proof
  assume "fleet_key j = fleet_key k"
  then have "GoJson.digits_value (digits (8081 + j)) = GoJson.digits_value (digits (8081 + k))"
    by (simp add: fleet_key_def fleet_addr_def)
  then show "j = k" by (simp add: digits_value_digits)
qed simp

lemma zero_key: "instanceKey zero_instance \<noteq> fleet_key k"
  by (simp add: instanceKey_def zero_instance_def fleet_key_def fleet_name_def)

definition holds :: "entries \<Rightarrow> 'd goroutine list \<Rightarrow> bool" where
  "holds m run \<longleftrightarrow> (\<forall>key i. m key = Some i \<longleftrightarrow> (\<exists>k<length run. held (run ! k) = Some i \<and> key = instanceKey i))"

definition keyed :: "'d goroutine list \<Rightarrow> bool" where
  "keyed run \<longleftrightarrow> (\<forall>k<length run. \<forall>i. held (run ! k) = Some i \<longrightarrow> instanceKey i = fleet_key k)"

lemma holds_same:
  "holds m run \<Longrightarrow> k < length run \<Longrightarrow> held g = held (run ! k) \<Longrightarrow> holds m (run[k := g])"
  by (auto simp: holds_def nth_list_update)

lemma holds_append: "holds m run \<Longrightarrow> holds m (run @ [GoNew])"
  by (auto simp: holds_def nth_append less_Suc_eq)

lemma holder_update:
  "k < length run \<Longrightarrow>
     (\<exists>n<length (run[k := g]). held (run[k := g] ! n) = Some i \<and> P) \<longleftrightarrow>
     held g = Some i \<and> P \<or> (\<exists>n<length run. n \<noteq> k \<and> held (run ! n) = Some i \<and> P)"
  by (auto simp: nth_list_update)

lemma holds_put:
  assumes "holds m run" and "keyed run" and "k < length run" and "held (run ! k) = None" and "held g = Some j"
    and "instanceKey j = fleet_key k"
  shows "holds (m(instanceKey j \<mapsto> j)) (run[k := g])"
  unfolding holds_def
proof (intro allI)
  fix key i
  have other: "instanceKey i \<noteq> fleet_key k" if "n < length run" "held (run ! n) = Some i" for n
    using that assms(2,4) fleet_key_inj [of n k] by (metis keyed_def option.distinct(1))
  show "(m(instanceKey j \<mapsto> j)) key = Some i \<longleftrightarrow>
      (\<exists>n<length (run[k := g]). held (run[k := g] ! n) = Some i \<and> key = instanceKey i)"
    unfolding holder_update [OF assms(3)]
  proof (cases "key = instanceKey j")
    case True
    then show "(m(instanceKey j \<mapsto> j)) key = Some i \<longleftrightarrow>
        held g = Some i \<and> key = instanceKey i \<or> (\<exists>n<length run. n \<noteq> k \<and> held (run ! n) = Some i \<and> key = instanceKey i)"
      using assms(5,6) by (auto dest: other)
  next
    case False
    then show "(m(instanceKey j \<mapsto> j)) key = Some i \<longleftrightarrow>
        held g = Some i \<and> key = instanceKey i \<or> (\<exists>n<length run. n \<noteq> k \<and> held (run ! n) = Some i \<and> key = instanceKey i)"
      using assms(1,4,5) by (auto simp: holds_def) 
  qed
qed

lemma holds_delete:
  assumes "holds m run" and "keyed run" and "k < length run" and "held g = None"
    and "held (run ! k) = Some j \<and> key = instanceKey j \<or> held (run ! k) = None \<and> key \<notin> range fleet_key"
  shows "holds (m(key := None)) (run[k := g])"
  unfolding holds_def
proof (intro allI)
  fix key' i
  have other: "key \<noteq> instanceKey i" if "n < length run" "held (run ! n) = Some i" "n \<noteq> k" for n
  proof -
    have "instanceKey i = fleet_key n" using that(1,2) assms(2) by (simp add: keyed_def)
    moreover have "key = fleet_key k \<or> key \<notin> range fleet_key" using assms(2,3,5) by (auto simp: keyed_def)
    ultimately show ?thesis using that(3) fleet_key_inj by auto
  qed
  show "(m(key := None)) key' = Some i \<longleftrightarrow>
      (\<exists>n<length (run[k := g]). held (run[k := g] ! n) = Some i \<and> key' = instanceKey i)"
    unfolding holder_update [OF assms(3)]
  proof (cases "key' = key")
    case True
    then show "(m(key := None)) key' = Some i \<longleftrightarrow>
        held g = Some i \<and> key' = instanceKey i \<or> (\<exists>n<length run. n \<noteq> k \<and> held (run ! n) = Some i \<and> key' = instanceKey i)"
      using assms(4) other by auto
  next
    case False
    then have "n \<noteq> k" if "held (run ! n) = Some i" "key' = instanceKey i" for n using that assms(5) by auto
    then show "(m(key := None)) key' = Some i \<longleftrightarrow>
        held g = Some i \<and> key' = instanceKey i \<or> (\<exists>n<length run. n \<noteq> k \<and> held (run ! n) = Some i \<and> key' = instanceKey i)"
      using assms(1,4) False unfolding holds_def by auto
  qed
qed

section \<open>Invariant\<close>

fun fleet_ok :: "fleet_event \<Rightarrow> bool" where
  "fleet_ok (Starts k (Inr _) (Some err)) = False"
| "fleet_ok (ClosesServer k (Some err)) = False"
| "fleet_ok _ = True"

lemma ascii_valid: "list_all (\<lambda>b. b < 0x80) s \<Longrightarrow> valid_utf8 s"
  by (induction s) (simp_all add: valid_utf8_def utf8_head_def)

lemma valid_addr: "valid_utf8 fleet_name \<and> valid_utf8 (fleet_addr k)"
proof -
  have "list_all (\<lambda>b. b < 0x80) (digits n)" for n
    using digits_digits [of n] by (auto simp: list_all_iff GoJson.is_digit_def intro: order.strict_trans1 [of _ 57])
  then show ?thesis by (intro conjI ascii_valid) (simp_all add: fleet_name_def fleet_addr_def)
qed

locale fleet =
  fixes e :: "'d etcd" and content :: "'d \<Rightarrow> go_string \<rightharpoonup> bytes" and mk :: "nat \<Rightarrow> nat \<Rightarrow> 'd micro_server"
  assumes laws: "etcd_laws e content"
    and mk_server: "msName (mk k i) = fleet_name" "msRegistry (mk k i) = Some e" "msInstance (mk k i) = zero_instance"
      "valid_utf8 (msGroup (mk k i))"
begin

definition made :: "nat \<Rightarrow> nat \<Rightarrow> 'd micro_server \<Rightarrow> bool" where
  "made n k sv \<longleftrightarrow> (\<exists>i. k \<le> i \<and> i \<le> n \<and> msName sv = fleet_name \<and> msRegistry sv = Some e
     \<and> msGroup sv = msGroup (mk k i) \<and> msWeight sv = msWeight (mk k i))"

definition goroutine_ok :: "nat \<Rightarrow> nat \<Rightarrow> 'd goroutine \<Rightarrow> bool" where
  "goroutine_ok n k g \<longleftrightarrow>
     (case g of
        GoBuilt sv \<Rightarrow> made n k sv \<and> msInstance sv = zero_instance
      | GoServing sv \<Rightarrow> made n k sv \<and> msInstance sv = instance_of sv (fleet_addr k)
      | GoReturned err sv \<Rightarrow> made n k sv \<and> msInstance sv \<in> {zero_instance, instance_of sv (fleet_addr k)}
      | _ \<Rightarrow> True)"

definition fleet_inv :: "'d fleet \<Rightarrow> bool" where
  "fleet_inv s \<longleftrightarrow>
     flI s \<le> length (flRun s) \<and> length (flRun s) \<le> Suc (flI s) \<and> length (flRun s) \<le> 3
     \<and> (\<forall>k<length (flRun s). goroutine_ok (flI s) k (flRun s ! k))
     \<and> holds (etcd_map (e, content) (flStore s)) (flRun s)"

lemma made_mono: "made n k sv \<Longrightarrow> n \<le> n' \<Longrightarrow> made n' k sv"
  by (auto simp: made_def intro: order.trans)

lemma goroutine_ok_mono: "goroutine_ok n k g \<Longrightarrow> n \<le> n' \<Longrightarrow> goroutine_ok n' k g"
  by (auto simp: goroutine_ok_def made_mono split: goroutine.splits)

lemma made_key: "made n k sv \<Longrightarrow> instanceKey (instance_of sv (fleet_addr k)) = fleet_key k"
  by (auto simp: made_def instanceKey_def instance_of_def fleet_key_def)

lemma held_key: "goroutine_ok n k g \<Longrightarrow> held g = Some i \<Longrightarrow> instanceKey i = fleet_key k"
  using made_key by (cases g) (fastforce simp: goroutine_ok_def split: if_splits)+

lemma inv_keyed: "fleet_inv s \<Longrightarrow> keyed (flRun s)"
  unfolding keyed_def fleet_inv_def using held_key by blast

lemma inv_update:
  assumes "fleet_inv s" and "k < length (flRun s)" and "goroutine_ok (flI s) k g"
    and "holds (etcd_map (e, content) d) ((flRun s)[k := g])"
  shows "fleet_inv (s\<lparr>flRun := (flRun s)[k := g], flStore := d\<rparr>)"
  using assms by (auto simp: fleet_inv_def nth_list_update)

lemma made_plain: "made n k sv \<Longrightarrow> plain_instance (instance_of sv (fleet_addr k))"
  using mk_server(4) valid_addr by (auto simp: made_def plain_instance_def instance_of_def)

lemma fleet_inv_step:
  assumes inv: "fleet_inv s" and "fleet_step mk s ev s'" and "fleet_ok ev"
  shows "fleet_inv s'"
  using assms(2)
proof cases
  case fl_launches
  then show ?thesis using inv
    by (auto simp: fleet_inv_def nth_append less_Suc_eq goroutine_ok_def intro: holds_append)
next
  case fl_increments
  then show ?thesis using inv goroutine_ok_mono [of "flI s" _ _ "Suc (flI s)"] by (auto simp: fleet_inv_def)
next
  case (fl_builds k)
  have "made (flI s) k (mk k (flI s))"
    using inv fl_builds(3) by (auto simp: made_def fleet_inv_def mk_server(1,2) intro!: exI [of _ "flI s"])
  then have "fleet_inv (s\<lparr>flRun := (flRun s)[k := GoBuilt (mk k (flI s))], flStore := flStore s\<rparr>)"
    using inv fl_builds mk_server(3)
    by (intro inv_update) (auto simp: goroutine_ok_def fleet_inv_def intro: holds_same)
  then show ?thesis using fl_builds by simp
next
  case (fl_starts k sv l err sv' d)
  have sv: "made (flI s) k sv" "msInstance sv = zero_instance" "msRegistry sv = Some e"
    using inv fl_starts(3,4) by (auto simp: fleet_inv_def goroutine_ok_def made_def)
  show ?thesis
  proof (cases l)
    case (Inl e1)
    then have r: "err = Some e1" "sv' = sv" "d = flStore s"
      using fl_starts(5) by (auto simp: MicroStart_def fleet_listen_def)
    have "fleet_inv (s\<lparr>flRun := (flRun s)[k := GoReturned err sv], flStore := flStore s\<rparr>)"
      using inv fl_starts(3,4) sv
      by (intro inv_update) (auto simp: goroutine_ok_def fleet_inv_def intro: holds_same)
    then show ?thesis using fl_starts(2) r by simp
  next
    case (Inr u)
    then have "err = None" using assms(3) fl_starts(1) by (cases err) auto
    obtain oe d1 where reg: "Register e (instance_of sv (fleet_addr k)) (flStore s) = (oe, d1)" by force
    then have r: "oe = None" "d = d1" "sv' = sv\<lparr>msListener := Some (fleet_addr k), msInstance := instance_of sv (fleet_addr k)\<rparr>"
      using fl_starts(5) Inr \<open>err = None\<close> sv(3)
      by (auto simp: MicroStart_def fleet_listen_def Let_def instance_of_def split: option.splits)
    have inst: "instance_of sv' (fleet_addr k) = instance_of sv (fleet_addr k)" "made (flI s) k sv'"
      using sv(1) by (auto simp: r(3) instance_of_def made_def)
    have map: "etcd_map (e, content) d = (etcd_map (e, content) (flStore s))(instanceKey (instance_of sv (fleet_addr k)) \<mapsto> instance_of sv (fleet_addr k))"
      using etcd_register_map [of "(e, content)"] made_plain [OF sv(1)] reg r laws by (simp add: etcd_ok_def)
    have "holds (etcd_map (e, content) d) ((flRun s)[k := GoServing sv'])"
      unfolding map using inv fl_starts(3,4) made_key [OF sv(1)]
      by (intro holds_put inv_keyed) (auto simp: fleet_inv_def r(3))
    then have "fleet_inv (s\<lparr>flRun := (flRun s)[k := GoServing sv'], flStore := d\<rparr>)"
      using inv fl_starts(3) inst r(3) by (intro inv_update) (auto simp: goroutine_ok_def)
    then show ?thesis using fl_starts(2) \<open>err = None\<close> by simp
  qed
next
  case (fl_serve_ends k sv err)
  have g: "made (flI s) k sv" "msInstance sv = instance_of sv (fleet_addr k)"
    using inv fl_serve_ends(3,4) by (auto simp: fleet_inv_def goroutine_ok_def)
  then have "msInstance sv \<noteq> zero_instance" using made_key [OF g(1)] zero_key [of k] by metis
  then have "fleet_inv (s\<lparr>flRun := (flRun s)[k := GoReturned err sv], flStore := flStore s\<rparr>)"
    using inv fl_serve_ends g
    by (intro inv_update) (auto simp: goroutine_ok_def fleet_inv_def intro: holds_same)
  then show ?thesis using fl_serve_ends by simp
next
  case (fl_closes k err sv cerr sv' d)
  have g: "made (flI s) k sv" "msInstance sv \<in> {zero_instance, instance_of sv (fleet_addr k)}"
    using inv fl_closes(3,4) by (auto simp: fleet_inv_def goroutine_ok_def)
  then have un: "Unregister e (msInstance sv) (flStore s) = (None, d)"
    using fl_closes(1,5) assms(3)
    by (cases cerr) (auto simp: MicroClose_def made_def split: option.splits prod.splits)
  have map: "etcd_map (e, content) d = (etcd_map (e, content) (flStore s))(instanceKey (msInstance sv) := None)"
    using etcd_unregister_map [of "(e, content)", OF _ ] un laws by (simp add: etcd_ok_def)
  have "holds (etcd_map (e, content) d) ((flRun s)[k := GoDone err])"
    unfolding map using inv fl_closes(3,4) zero_key
    by (intro holds_delete inv_keyed) (auto simp: fleet_inv_def split: if_splits)
  then have "fleet_inv (s\<lparr>flRun := (flRun s)[k := GoDone err], flStore := d\<rparr>)"
    using inv fl_closes(3) by (intro inv_update) (auto simp: goroutine_ok_def)
  then show ?thesis using fl_closes by simp
qed

lemma fleet_inv_start: "content d = Map.empty \<Longrightarrow> fleet_inv (fleet_start d)"
  by (simp add: fleet_inv_def fleet_start_def holds_def etcd_map_def)

lemma fleet_run_inv:
  assumes "trace (fleet_step mk) (fleet_start d) ls s" and "content d = Map.empty"
  shows "list_all fleet_ok ls \<longrightarrow> fleet_inv s"
  using assms(1)
  by (rule trace_invariant [where P = "\<lambda>ls s. list_all fleet_ok ls \<longrightarrow> fleet_inv s"])
    (use assms(2) fleet_inv_start fleet_inv_step in auto)

lemma held_made:
  assumes "fleet_inv s" and "k < length (flRun s)" and "held (flRun s ! k) = Some j"
  shows "k < 3 \<and> (\<exists>i. k \<le> i \<and> i \<le> 3 \<and> j = instance_of (mk k i) (fleet_addr k))"
proof -
  have bounds: "k < 3" "flI s \<le> 3" using assms(1,2) by (simp_all add: fleet_inv_def)
  have "goroutine_ok (flI s) k (flRun s ! k)" using assms(1,2) by (simp add: fleet_inv_def)
  then obtain sv where sv: "made (flI s) k sv" "j = instance_of sv (fleet_addr k)"
    using assms(3) by (cases "flRun s ! k") (auto simp: goroutine_ok_def split: if_splits)
  then obtain i where "k \<le> i" "i \<le> flI s" "j = instance_of (mk k i) (fleet_addr k)"
    by (auto simp: made_def instance_of_def mk_server(1))
  then show ?thesis using bounds by (intro conjI exI [of _ i]) simp_all
qed

lemma found_held:
  assumes "fleet_inv s" and "ListServices e fleet_name (flStore s) = Inr is"
  shows "set is = {j. \<exists>k<length (flRun s). held (flRun s ! k) = Some j}"
proof -
  have "set is = listed (etcd_map (e, content) (flStore s)) fleet_name"
    using etcd_list_map [of "(e, content)"] assms(2) laws by (simp add: etcd_ok_def)
  moreover have "prefix (serviceKey fleet_name) (fleet_key k)" for k
    by (simp add: serviceKey_def fleet_key_def)
  then have "prefix (serviceKey fleet_name) (instanceKey j)" if "k < length (flRun s)" "held (flRun s ! k) = Some j" for k j
    using inv_keyed [OF assms(1)] that by (simp add: keyed_def)
  moreover have "holds (etcd_map (e, content) (flStore s)) (flRun s)" using assms(1) by (simp add: fleet_inv_def)
  ultimately show ?thesis unfolding listed_def holds_def by (simp add: set_eq_iff) blast
qed

end

lemma broadcast_server_fields:
  "msName (broadcast_server e k i) = fleet_name" "msRegistry (broadcast_server e k i) = Some e"
  "msInstance (broadcast_server e k i) = zero_instance" "msWeight (broadcast_server e k i) = of_nat (1 + i)"
  "msGroup (broadcast_server e k i) = (if k mod 2 = 0 then go_str ''b'' else go_str ''a'')"
  by (simp_all add: broadcast_server_def NewMicroServer_def ServerWithGroup_def ServerWithRegistry_def
      ServerWithWeight_def Let_def)

lemma group_server_fields:
  "msName (group_server e k i) = fleet_name" "msRegistry (group_server e k i) = Some e"
  "msInstance (group_server e k i) = zero_instance" "msWeight (group_server e k i) = 0" "msGroup (group_server e k i) = []"
  by (simp_all add: group_server_def NewMicroServer_def ServerWithTimeout_def ServerWithRegistry_def)

interpretation broadcast_fleet: fleet memory_etcd map_of "broadcast_server memory_etcd"
  by unfold_locales (simp_all add: memory_etcd_laws broadcast_server_fields ascii_valid)

interpretation group_fleet: fleet memory_etcd map_of "group_server memory_etcd"
  by unfold_locales (simp_all add: memory_etcd_laws group_server_fields valid_utf8_def)

lemma broadcast_fleet_any: "etcd_laws e content \<Longrightarrow> fleet e content (broadcast_server e)"
  by unfold_locales (simp_all add: broadcast_server_fields ascii_valid)

lemma group_fleet_any: "etcd_laws e content \<Longrightarrow> fleet e content (group_server e)"
  by unfold_locales (simp_all add: group_server_fields valid_utf8_def)

section \<open>Properties\<close>

text \<open>
  However the loop and the goroutines of the example interleave, when the registry does not fail a lookup of
  the service finds exactly the servers that were started and not yet closed, each with its own address and
  group; but the weight of a server may be any from its own to 4, since it is read from the variable of the loop.
\<close>

theorem fleet_found:
  assumes "etcd_laws e content" and "content d = Map.empty"
    and "trace (fleet_step (broadcast_server e)) (fleet_start d) ls s" and "list_all fleet_ok ls"
    and "ListServices e fleet_name (flStore s) = Inr is"
  shows "set is = {j. \<exists>k<length (flRun s). held (flRun s ! k) = Some j}
    \<and> (\<forall>j\<in>set is. \<exists>k i. k < 3 \<and> k \<le> i \<and> i \<le> 3 \<and> j =
         \<lparr>siName = fleet_name, siAddress = fleet_addr k, siWeight = of_nat (1 + i),
          siGroup = (if k mod 2 = 0 then go_str ''b'' else go_str ''a'')\<rparr>)"
proof -
  note fl = broadcast_fleet_any [OF assms(1)]
  have inv: "fleet.fleet_inv e content (broadcast_server e) s"
    using fleet.fleet_run_inv [OF fl assms(3,2)] assms(4) by blast
  note found = fleet.found_held [OF fl inv assms(5)]
  moreover have "\<exists>k i. k < 3 \<and> k \<le> i \<and> i \<le> 3 \<and> j =
      \<lparr>siName = fleet_name, siAddress = fleet_addr k, siWeight = of_nat (1 + i),
       siGroup = (if k mod 2 = 0 then go_str ''b'' else go_str ''a'')\<rparr>" if "j \<in> set is" for j
    using that fleet.held_made [OF fl inv, of _ j] unfolding found
    by (auto simp only: mem_Collect_eq instance_of_def broadcast_server_fields) blast
  ultimately show ?thesis by blast
qed

section \<open>A run on the cluster in memory\<close>

text \<open>The server \<open>k\<close> that read the variable after the loop, the same started, and its entry.\<close>

definition late_server :: "nat \<Rightarrow> (go_string \<times> bytes) list micro_server" where
  "late_server k = broadcast_server memory_etcd k 3"

definition late_instance :: "nat \<Rightarrow> service_instance" where
  "late_instance k = instance_of (late_server k) (fleet_addr k)"

definition late_started :: "nat \<Rightarrow> (go_string \<times> bytes) list micro_server" where
  "late_started k = (late_server k)\<lparr>msListener := Some (fleet_addr k), msInstance := late_instance k\<rparr>"

definition late_entry :: "nat \<Rightarrow> go_string \<times> bytes" where
  "late_entry k = (instanceKey (late_instance k), marshal_struct (instance_fields (late_instance k)))"

lemma late_start:
  "MicroStart (fleet_listen k (Inr ())) None (late_server k) d = (None, late_started k, late_entry k # d)"
  using MicroStart_registers [of "late_server k" memory_etcd "fleet_addr k" d "late_entry k # d" None]
  by (simp add: fleet_listen_def late_server_def broadcast_server_fields memory_register late_entry_def late_instance_def
      late_started_def)

definition late_events :: "fleet_event list" where
  "late_events =
     [Launches, Increments, Launches, Increments, Launches, Increments, Builds 0, Builds 1, Builds 2,
      Starts 0 (Inr ()) None, Starts 1 (Inr ()) None, Starts 2 (Inr ()) None]"

abbreviation late_step :: "(go_string \<times> bytes) list fleet \<Rightarrow> fleet_event \<Rightarrow> (go_string \<times> bytes) list fleet \<Rightarrow> bool" where
  "late_step \<equiv> fleet_step (broadcast_server memory_etcd)"

lemma late_launches: "late_step \<lparr>flI = n, flRun = gs, flStore = d\<rparr> Launches \<lparr>flI = n, flRun = gs @ [GoNew], flStore = d\<rparr>"
  if "length gs = n" and "n < 3"
  using fl_launches [of "\<lparr>flI = n, flRun = gs, flStore = d\<rparr>" "broadcast_server memory_etcd"] that by simp

lemma late_increments: "late_step \<lparr>flI = n, flRun = gs, flStore = d\<rparr> Increments \<lparr>flI = Suc n, flRun = gs, flStore = d\<rparr>"
  if "length gs = Suc n"
  using fl_increments [of "\<lparr>flI = n, flRun = gs, flStore = d\<rparr>" "broadcast_server memory_etcd"] that by simp

lemma late_builds:
  "late_step \<lparr>flI = 3, flRun = gs, flStore = d\<rparr> (Builds k) \<lparr>flI = 3, flRun = gs[k := GoBuilt (late_server k)], flStore = d\<rparr>"
  if "k < length gs" and "gs ! k = GoNew"
  using fl_builds [of k "\<lparr>flI = 3, flRun = gs, flStore = d\<rparr>" "broadcast_server memory_etcd"] that
  by (simp add: late_server_def)

lemma late_starts:
  "late_step \<lparr>flI = 3, flRun = gs, flStore = d\<rparr> (Starts k (Inr ()) None)
     \<lparr>flI = 3, flRun = gs[k := GoServing (late_started k)], flStore = late_entry k # d\<rparr>"
  if "k < length gs" and "gs ! k = GoBuilt (late_server k)"
  using fl_starts [of k "\<lparr>flI = 3, flRun = gs, flStore = d\<rparr>" "late_server k" "Inr ()" None "late_started k" "late_entry k # d"
      "broadcast_server memory_etcd"] that late_start [of k d] by simp

definition late_fleet :: "(go_string \<times> bytes) list fleet" where
  "late_fleet = \<lparr>flI = 3, flRun = [GoServing (late_started 0), GoServing (late_started 1), GoServing (late_started 2)],
     flStore = [late_entry 2, late_entry 1, late_entry 0]\<rparr>"

lemma late_run: "trace late_step (fleet_start []) late_events late_fleet"
proof -
  note go = trace_Cons [where step = late_step]
  have b: "trace late_step \<lparr>flI = 3, flRun = [GoNew, GoNew, GoNew], flStore = []\<rparr>
      [Builds 0, Builds 1, Builds 2, Starts 0 (Inr ()) None, Starts 1 (Inr ()) None, Starts 2 (Inr ()) None] late_fleet"
    using late_builds [of 0 "[GoNew, GoNew, GoNew]" "[]"] late_builds [of 1 "[GoBuilt (late_server 0), GoNew, GoNew]" "[]"]
      late_builds [of 2 "[GoBuilt (late_server 0), GoBuilt (late_server 1), GoNew]" "[]"]
      late_starts [of 0 "[GoBuilt (late_server 0), GoBuilt (late_server 1), GoBuilt (late_server 2)]" "[]"]
      late_starts [of 1 "[GoServing (late_started 0), GoBuilt (late_server 1), GoBuilt (late_server 2)]" "[late_entry 0]"]
      late_starts [of 2 "[GoServing (late_started 0), GoServing (late_started 1), GoBuilt (late_server 2)]" "[late_entry 1, late_entry 0]"]
    unfolding late_fleet_def by (intro go trace_one [where step = late_step]) simp_all
  have "trace late_step (fleet_start [])
      [Launches, Increments, Launches, Increments, Launches, Increments] \<lparr>flI = 3, flRun = [GoNew, GoNew, GoNew], flStore = []\<rparr>"
    using late_launches [of "[]" 0 "[]"] late_increments [of "[GoNew]" 0 "[]"]
      late_launches [of "[GoNew]" 1 "[]"] late_increments [of "[GoNew, GoNew]" 1 "[]"]
      late_launches [of "[GoNew, GoNew]" 2 "[]"] late_increments [of "[GoNew, GoNew, GoNew]" 2 "[]"]
    unfolding fleet_start_def by (intro go trace_one [where step = late_step]) (simp_all add: numeral_3_eq_3 numeral_2_eq_2)
  from trace_append [where step = late_step, OF b this] show ?thesis by (simp add: late_events_def)
qed

text \<open>
  The weights that the example means to give its three servers, 1, 2 and 3, are not those they need to have: when
  the goroutines run after the loop all three register with weight 4, so that weighted balancing is plain.
\<close>

theorem fleet_weights_race:
  "\<exists>ls s. trace (fleet_step (broadcast_server memory_etcd)) (fleet_start []) ls s \<and> list_all fleet_ok ls
     \<and> map (map_option siWeight \<circ> held) (flRun s) = [Some 4, Some 4, Some 4]"
proof (intro exI conjI)
  show "trace late_step (fleet_start []) late_events late_fleet" by (rule late_run)
  show "list_all fleet_ok late_events" by (simp add: late_events_def)
  show "map (map_option siWeight \<circ> held) (flRun late_fleet) = [Some 4, Some 4, Some 4]"
    by (simp add: late_fleet_def late_started_def late_instance_def late_server_def instance_of_def broadcast_server_fields)
qed

lemma late_listed:
  "ListServices memory_etcd fleet_name (flStore late_fleet) = Inr [late_instance 2, late_instance 1, late_instance 0]"
proof -
  have key: "fst (late_entry k) = fleet_key k" for k
    by (simp add: late_entry_def late_instance_def instance_of_def late_server_def broadcast_server_fields instanceKey_def
        fleet_key_def)
  have "plain_instance (late_instance k)" for k
    using valid_addr
    by (simp add: late_instance_def instance_of_def late_server_def broadcast_server_fields plain_instance_def ascii_valid)
  then have val: "unmarshal_instance (snd (late_entry k)) = Inr (late_instance k)" for k
    using plain_roundtrip [of "late_instance k"] by (simp add: late_entry_def marshal_instance_def)
  have pre: "prefix (serviceKey fleet_name) (fleet_key k)" for k by (simp add: serviceKey_def fleet_key_def)
  have all: "unmarshal_all (map late_entry ks) = Inr (map late_instance ks)" for ks
  proof (induction ks)
    case (Cons k ks)
    then show ?case using val [of k] by (cases "late_entry k") simp
  qed simp
  have "etGetPrefix memory_etcd (serviceKey fleet_name) (flStore late_fleet) = Inr (map late_entry [2, 1, 0])"
    using key [of 0] key [of 1] key [of 2]
    by (simp add: memory_etcd_def late_fleet_def pre fleet_key_inj prod_eq_iff)
  then show ?thesis using all [of "[2, 1, 0]"] by (simp add: ListServices_def)
qed

theorem fleet_found_witness:
  "set [late_instance 2, late_instance 1, late_instance 0] = {j. \<exists>k<3. held (flRun late_fleet ! k) = Some j}"
proof -
  have "length (flRun late_fleet) = 3" by (simp add: late_fleet_def)
  moreover have "list_all fleet_ok late_events" by (simp add: late_events_def)
  ultimately show ?thesis using fleet_found [OF memory_etcd_laws _ late_run _ late_listed] by simp
qed

text \<open>
  The client of the groups dials without a service configuration, which would name the picker: its picker
  builder has no part in what gRPC is given.
\<close>

lemma group_client_dials:
  "Dial_args (group_client r pname) fleet_name [] =
     (go_str ''registry:///user-service'', [WithResolvers resolver_scheme (3 * 1000000000), WithInsecure])"
  by (simp add: Dial_args_def group_client_def NewMicroClient_def ClientWithInsecure_def ClientWithRegistry_def
      ClientWithPickerBuilder_def fleet_name_def)

end
