(* ===== verification/PickerNames.thy ===== *)
theory PickerNames
  imports GoJson
begin

text \<open>
  The names under which the pickers of \<^verbatim>\<open>loadbalance\<close> are registered with gRPC and asked for.

  \<^item> The registry of gRPC is a parameter: \<open>reg\<close> registers a builder and \<open>get\<close> looks one up. Its documentation
    says that a name is registered in lower case and compared without regard to case: \<open>balancer_laws\<close>.
  \<^item> A client asks for a policy in a service configuration, which is JSON text.
\<close>

section \<open>The names\<close>

definition RoundRobin_Name :: go_string where "RoundRobin_Name = go_str ''ROUND_ROBIN''"

definition WeightRoundRobin_Name :: go_string where "WeightRoundRobin_Name = go_str ''WEIGHT_ROUND_ROBIN''"

definition Random_Name :: go_string where "Random_Name = go_str ''RANDOM''"

definition WeightRandom_Name :: go_string where "WeightRandom_Name = go_str ''WEIGHT_RANDOM''"

definition LeastActive_Name :: go_string where "LeastActive_Name = go_str ''LEAST_ACTIVE''"

definition Hash_Name :: go_string where "Hash_Name = go_str ''HASH''"

definition ConsistentHash_Name :: go_string where "ConsistentHash_Name = go_str ''CONSISTENT_HASH''"

definition Fastest_Name :: go_string where "Fastest_Name = go_str ''FASTEST''"

definition P2C_Name :: go_string where "P2C_Name = go_str ''p2c_ewma''"

lemmas Name_defs = RoundRobin_Name_def WeightRoundRobin_Name_def Random_Name_def WeightRandom_Name_def
  LeastActive_Name_def Hash_Name_def ConsistentHash_Name_def Fastest_Name_def P2C_Name_def

definition picker_names :: "go_string list" where
  "picker_names =
     [RoundRobin_Name, WeightRoundRobin_Name, Random_Name, WeightRandom_Name, LeastActive_Name, Hash_Name,
      ConsistentHash_Name, Fastest_Name, P2C_Name]"

text \<open>The service configuration that names a policy.\<close>

definition lb_config :: "go_string \<Rightarrow> bytes" where
  "lb_config pname = go_str ''{\"LoadBalancingPolicy\": \"'' @ pname @ go_str ''\"}''"

section \<open>Facts\<close>

definition to_lower :: "go_string \<Rightarrow> go_string" where
  "to_lower s = map (\<lambda>b. if 65 \<le> b \<and> b \<le> 90 then b + 32 else b) s"

definition balancer_laws :: "(go_string \<Rightarrow> 'b \<Rightarrow> 'm \<Rightarrow> 'm) \<Rightarrow> (go_string \<Rightarrow> 'm \<Rightarrow> 'b option) \<Rightarrow> bool" where
  "balancer_laws reg get \<longleftrightarrow>
     (\<forall>n b m n'. get n' (reg n b m) = (if to_lower n' = to_lower n then Some b else get n' m))
     \<and> (\<forall>n n' m. to_lower n = to_lower n' \<longrightarrow> get n m = get n' m)"

lemma lower_names_distinct: "distinct (map to_lower picker_names)"
  by (simp add: picker_names_def to_lower_def Name_defs)

lemma get_reg:
  assumes "balancer_laws reg get"
  shows "get n' (reg n b m) = (if to_lower n' = to_lower n then Some b else get n' m)"
  using assms by (simp add: balancer_laws_def)

lemma found_once:
  assumes "balancer_laws reg get"
  shows "distinct (map (to_lower \<circ> fst) ps) \<Longrightarrow> (n, b) \<in> set ps \<Longrightarrow> get n (fold (\<lambda>(n, b). reg n b) ps m) = Some b"
proof (induction ps rule: rev_induct)
  case (snoc p ps)
  show ?case
  proof (cases "p = (n, b)")
    case False
    then have in_ps: "(n, b) \<in> set ps" using snoc.prems(2) by simp
    then have "to_lower n \<in> set (map (to_lower \<circ> fst) ps)" by force
    moreover have "to_lower (fst p) \<notin> set (map (to_lower \<circ> fst) ps)" using snoc.prems(1) by simp
    ultimately have "to_lower n \<noteq> to_lower (fst p)" by metis
    then show ?thesis using snoc in_ps by (simp add: get_reg [OF assms] split_beta)
  qed (simp add: get_reg [OF assms])
qed simp

lemma found_builtin:
  assumes "balancer_laws reg get"
  shows "to_lower n \<notin> set (map (to_lower \<circ> fst) ps) \<Longrightarrow> get n (fold (\<lambda>(n, b). reg n b) ps m) = get n m"
  by (induction ps arbitrary: m) (auto simp: get_reg [OF assms])

lemma get_same: "balancer_laws reg get \<Longrightarrow> to_lower n = to_lower n' \<Longrightarrow> get n m = get n' m"
  unfolding balancer_laws_def by blast

lemma inj_not_image: "inj_on f A \<Longrightarrow> B \<subseteq> A \<Longrightarrow> x \<in> A \<Longrightarrow> x \<notin> B \<Longrightarrow> f x \<notin> f ` B"
  by (auto dest: inj_onD)

text \<open>What reading the configuration of the round-robin picker gives for the field that gRPC documents.\<close>

lemma lb_config_read:
  "unmarshal_struct (go_str ''grpc'') (go_str ''jsonSC'') [(go_str ''LoadBalancingPolicy'', FvString [])] (lb_config RoundRobin_Name) =
     Inr [(go_str ''LoadBalancingPolicy'', FvString RoundRobin_Name)]"
  by code_simp

section \<open>Properties\<close>

text \<open>
  The pickers do not get in one another's way: whichever of them are registered, in whatever order, asking for the
  name of one gives its builder. But the name of the round-robin picker is that of the policy \<^verbatim>\<open>round_robin\<close> of gRPC:
  registering it replaces that policy, and asking for it when it is not registered gives that policy.
\<close>

theorem picker_names_found:
  assumes "balancer_laws reg get" and "set (map fst ps) \<subseteq> set picker_names" and "distinct (map fst ps)"
  shows "(\<forall>(n, b)\<in>set ps. get n (fold (\<lambda>(n, b). reg n b) ps m) = Some b)
    \<and> get (go_str ''round_robin'') (fold (\<lambda>(n, b). reg n b) ps m) =
        (case map_of ps RoundRobin_Name of Some b \<Rightarrow> Some b | None \<Rightarrow> get RoundRobin_Name m)"
proof -
  let ?m = "fold (\<lambda>(n, b). reg n b) ps m"
  have inj: "inj_on to_lower (set picker_names)" using lower_names_distinct by (simp add: distinct_map)
  then have "inj_on to_lower (set (map fst ps))" using assms(2) by (rule inj_on_subset)
  then have "distinct (map to_lower (map fst ps))" using assms(3) by (simp only: distinct_map)
  then have d: "distinct (map (to_lower \<circ> fst) ps)" by (simp only: map_map)
  note found = found_once [OF assms(1) d]
  have low: "to_lower (go_str ''round_robin'') = to_lower RoundRobin_Name" by (simp add: to_lower_def RoundRobin_Name_def)
  have same: "get (go_str ''round_robin'') x = get RoundRobin_Name x" for x
    by (rule get_same [OF assms(1) low])
  have "get RoundRobin_Name ?m = (case map_of ps RoundRobin_Name of Some b \<Rightarrow> Some b | None \<Rightarrow> get RoundRobin_Name m)"
  proof (cases "map_of ps RoundRobin_Name")
    case None
    then have "RoundRobin_Name \<notin> set (map fst ps)" by (simp add: map_of_eq_None_iff)
    moreover have "RoundRobin_Name \<in> set picker_names" by (simp add: picker_names_def)
    ultimately have "to_lower RoundRobin_Name \<notin> to_lower ` set (map fst ps)"
      using inj_not_image [OF inj assms(2)] by blast
    then have "to_lower RoundRobin_Name \<notin> set (map (to_lower \<circ> fst) ps)" by (simp only: image_comp set_map simp_thms)
    from found_builtin [OF assms(1) this] show ?thesis using None by simp
  next
    case (Some b)
    then show ?thesis using found [OF map_of_SomeD [OF Some]] by simp
  qed
  then show ?thesis unfolding same using found by blast
qed

text \<open>A registry that is a map of names in lower case.\<close>

theorem picker_names_found_witness:
  "(let m = fold (\<lambda>(n, b). (\<lambda>f. f(to_lower n \<mapsto> b))) [(RoundRobin_Name, 1), (P2C_Name, 2)] [go_str ''round_robin'' \<mapsto> (0 :: nat)]
    in m (to_lower P2C_Name) = Some 2 \<and> m (go_str ''round_robin'') = Some 1)"
proof -
  let ?reg = "\<lambda>n b f. f(to_lower n \<mapsto> b) :: go_string \<rightharpoonup> nat" and ?get = "\<lambda>n f. f (to_lower n)"
  have "balancer_laws ?reg ?get" by (simp add: balancer_laws_def)
  from picker_names_found [OF this, of "[(RoundRobin_Name, 1), (P2C_Name, 2)]"] show ?thesis
    by (simp add: picker_names_def Let_def) (simp add: to_lower_def Name_defs)
qed

end
