(* ===== verification/ExampleCalls.thy ===== *)
theory ExampleCalls
  imports ExampleFleet Cluster PickerNames
begin

text \<open>
  The calls of the examples on the gRPC side: the handlers of the servers, the clients of
  \<^verbatim>\<open>example/broadcast/client\<close> and \<^verbatim>\<open>example/group/client\<close>, and a client of the first against the servers of
  \<open>ExampleFleet\<close> through the broadcast interceptor of \<open>Cluster\<close>.

  \<^item> What the generated client returns for the \<open>i\<close>-th call is the argument \<open>call i\<close>: the error or the user of
    the response. Making the etcd client and its session, dialing and the text of a user are arguments too.
  \<^item> The client of the broadcast names the interceptor by \<^verbatim>\<open>BuildUnary\<close>, which the builder does not have; it is
    read as \<^verbatim>\<open>BuildUnaryClientInterceptor\<close>.
\<close>

section \<open>The handlers\<close>

record gen_user =
  guId :: u64
  guStatus :: u32

definition fleet_user :: "nat \<Rightarrow> go_string" where
  "fleet_user idx = go_str ''server-'' @ digits idx"

text \<open>The line that a handler prints, and its response.\<close>

definition broadcast_GetById :: "go_string \<Rightarrow> u64 \<Rightarrow> go_string \<times> gen_user option" where
  "broadcast_GetById name req =
     (go_str ''server '' @ name @ go_str '', get user id: '' @ digits (unat req) @ [32, 10],
      Some \<lparr>guId = req, guStatus = 123\<rparr>)"

definition group_GetById :: "go_string \<Rightarrow> u64 \<Rightarrow> go_string \<times> gen_user option" where
  "group_GetById name req =
     (go_str ''server '' @ name @ go_str '', get user id: '' @ digits (unat req) @ [32, 10],
      Some \<lparr>guId = req, guStatus = 123\<rparr>)"

definition loadbalance_GetById :: "go_string \<Rightarrow> go_string \<Rightarrow> u64 \<Rightarrow> go_string \<times> gen_user option" where
  "loadbalance_GetById name grp req =
     (go_str ''server '' @ name @ go_str '', group '' @ grp @ go_str '', get user id: '' @ digits (unat req) @ [32, 10],
      Some \<lparr>guId = req, guStatus = 123\<rparr>)"

section \<open>The clients\<close>

text \<open>A loop of calls: the lines that it prints, and whether it panics; \<open>show_user\<close> gives the line of a user.\<close>

fun calls_loop :: "('u \<Rightarrow> go_error + bytes) \<Rightarrow> (go_error + 'u) list \<Rightarrow> bytes list \<times> unit go" where
  "calls_loop show_user [] = ([], Inr ())"
| "calls_loop show_user (Inl err # rs) = ([], Inl (ExplicitPanic (error_text err)))"
| "calls_loop show_user (Inr u # rs) =
     (case show_user u of
        Inl err \<Rightarrow> ([], Inl (ExplicitPanic (error_text err)))
      | Inr line \<Rightarrow> (case calls_loop show_user rs of (lines, r) \<Rightarrow> (line # lines, r)))"

definition broadcast_client ::
  "go_error + unit \<Rightarrow> go_error + unit \<Rightarrow> go_error + unit \<Rightarrow> ('u \<Rightarrow> bytes) \<Rightarrow> (nat \<Rightarrow> go_error + 'u) \<Rightarrow> bytes list \<times> unit go" where
  "broadcast_client new_client new_session dial text_of_user call =
     (case main_registry new_client new_session of
        Inl p \<Rightarrow> ([], Inl p)
      | Inr r \<Rightarrow>
          (case dial of
             Inl err \<Rightarrow> ([], Inl (ExplicitPanic (error_text err)))
           | Inr cc \<Rightarrow> calls_loop (\<lambda>u. Inr (text_of_user u)) (map call [0..<100])))"

definition group_client_main ::
  "go_error + unit \<Rightarrow> go_error + unit \<Rightarrow> go_error + unit \<Rightarrow> ('u \<Rightarrow> go_error + bytes) \<Rightarrow> (nat \<Rightarrow> go_error + 'u) \<Rightarrow> bytes list \<times> unit go" where
  "group_client_main new_client new_session dial marshal call =
     (case main_registry new_client new_session of
        Inl p \<Rightarrow> ([], Inl p)
      | Inr r \<Rightarrow>
          (case dial of
             Inl err \<Rightarrow> ([], Inl (ExplicitPanic (error_text err)))
           | Inr conn \<Rightarrow> calls_loop marshal (map call [0..<10])))"

text \<open>What the client of the broadcast gives to \<^verbatim>\<open>grpc.Dial\<close>.\<close>

datatype example_option =
    PlainOption dial_option
  | WithUnaryInterceptor
  | WithDefaultServiceConfig bytes

definition broadcast_dial :: "go_string \<times> example_option list" where
  "broadcast_dial =
     (go_str ''registry:///'' @ fleet_name,
      [PlainOption WithInsecure, WithUnaryInterceptor, PlainOption (WithResolvers resolver_scheme (3 * 1000000000)),
       WithDefaultServiceConfig (lb_config RoundRobin_Name)])"

text \<open>What the generated client returns after the interceptor: the error, or the reply, whose user may be nil.\<close>

definition call_answer :: "go_error option \<Rightarrow> gen_user option bc_run \<Rightarrow> go_error + gen_user option" where
  "call_answer res r =
     (case res of
        Some err \<Rightarrow> Inl err
      | None \<Rightarrow> Inr (case bcReply r of None \<Rightarrow> None | Some user \<Rightarrow> user))"

section \<open>Facts\<close>

lemma calls_loop_returns:
  "calls_loop show_user rs = (lines, Inr ()) \<longleftrightarrow>
     length lines = length rs \<and> (\<forall>i<length rs. \<exists>u. rs ! i = Inr u \<and> show_user u = Inr (lines ! i))"
proof (induction show_user rs arbitrary: lines rule: calls_loop.induct)
  case (3 show_user u rs)
  show ?case
  proof (cases "show_user u")
    case (Inr line)
    then have "calls_loop show_user (Inr u # rs) = (lines, Inr ()) \<longleftrightarrow>
        (\<exists>ls. lines = line # ls \<and> calls_loop show_user rs = (ls, Inr ()))"
      by (auto split: prod.splits)
    also have "\<dots> \<longleftrightarrow> (\<exists>ls. lines = line # ls \<and> length ls = length rs
        \<and> (\<forall>i<length rs. \<exists>u. rs ! i = Inr u \<and> show_user u = Inr (ls ! i)))"
      using 3 [OF Inr] by simp
    also have "\<dots> \<longleftrightarrow> length lines = length (Inr u # rs)
        \<and> (\<forall>i<length (Inr u # rs). \<exists>v. (Inr u # rs) ! i = Inr v \<and> show_user v = Inr (lines ! i))"
      using Inr by (cases lines) (auto simp: All_less_Suc2)
    finally show ?thesis .
  qed (auto intro!: exI [of _ 0])
qed (auto intro!: exI [of _ 0])

text \<open>A registry whose keys are those of the instances under them lists none twice.\<close>

lemma ListServices_distinct:
  assumes "etcd_laws e content" and "ListServices e name d = Inr is"
    and "\<And>k i. etcd_map (e, content) d k = Some i \<Longrightarrow> k = instanceKey i"
  shows "distinct is"
proof -
  obtain kvs where kvs: "etGetPrefix e (serviceKey name) d = Inr kvs" "unmarshal_all kvs = Inr is"
    using assms(2) by (auto simp: ListServices_def split: sum.splits)
  have m: "distinct (map fst kvs)" "map_of kvs = (\<lambda>k. if prefix (serviceKey name) k then content d k else None)"
    using assms(1) kvs(1) by (auto simp: etcd_laws_def)
  have read: "map (read_instance \<circ> snd) kvs = map Some is" by (rule unmarshal_all_read [OF kvs(2)])
  have "map fst kvs = map instanceKey is"
  proof (rule nth_equalityI)
    show len: "length (map fst kvs) = length (map instanceKey is)" using read by (metis length_map)
    fix i assume i: "i < length (map fst kvs)"
    obtain k v where kv: "kvs ! i = (k, v)" by force
    then have "(k, v) \<in> set kvs" using i by (metis length_map nth_mem)
    then have "map_of kvs k = Some v" using m(1) by simp
    then have "content d k = Some v" using m(2) by (auto split: if_splits)
    moreover have "read_instance v = Some (is ! i)"
      using arg_cong [OF read, of "\<lambda>xs. xs ! i"] i len kv by simp
    ultimately have "k = instanceKey (is ! i)" by (intro assms(3)) (simp add: etcd_map_def)
    then show "map fst kvs ! i = map instanceKey is ! i" using kv i len by simp
  qed
  then show ?thesis using m(1) by (metis distinct_map)
qed

text \<open>A broadcast that returns did not fail in the lookup.\<close>

lemma bc_failed_lookup:
  assumes "trace (bc_step wait) (bc_start (Inl err)) ls r"
  shows "bcReturned r \<noteq> None"
  using assms
proof (rule trace_invariant [where P = "\<lambda>ls r. bcReturned r \<noteq> None"])
  show "bcReturned (bc_start (Inl err)) \<noteq> None" by (simp add: bc_start_def)
next
  fix ls s e t assume "bcReturned s \<noteq> None" and "bc_step wait s e t"
  from this(2,1) show "bcReturned t \<noteq> None" by cases auto
qed

lemma bc_returns_found:
  assumes "trace (bc_step wait) (bc_start found) (ls @ [BcReturns res]) r"
  obtains instances where "found = Inr instances"
proof (cases found)
  case (Inl err)
  obtain t where "trace (bc_step wait) (bc_start found) ls t" "bc_step wait t (BcReturns res) r"
    using assms by (rule trace_lastE)
  then have "bcReturned t \<noteq> None" "bcReturned t = None" using bc_failed_lookup Inl by (auto elim: bc_step.cases)
  then show ?thesis by simp
qed

text \<open>The shared reply holds what one of the calls left there, once one has.\<close>

lemma bc_reply:
  assumes "trace (bc_step wait) (bc_start found) ls r"
  shows "(bcReply r = None \<longleftrightarrow> (\<forall>k err v. BcInvoked k err (Some v) \<notin> set ls))
    \<and> (\<forall>v. bcReply r = Some v \<longrightarrow> (\<exists>k err. BcInvoked k err (Some v) \<in> set ls))"
  using assms
proof (rule trace_invariant [where P = "\<lambda>ls r. (bcReply r = None \<longleftrightarrow> (\<forall>k err v. BcInvoked k err (Some v) \<notin> set ls))
    \<and> (\<forall>v. bcReply r = Some v \<longrightarrow> (\<exists>k err. BcInvoked k err (Some v) \<in> set ls))"])
  fix ls s e t
  assume "(bcReply s = None \<longleftrightarrow> (\<forall>k err v. BcInvoked k err (Some v) \<notin> set ls))
    \<and> (\<forall>v. bcReply s = Some v \<longrightarrow> (\<exists>k err. BcInvoked k err (Some v) \<in> set ls))" and "bc_step wait s e t"
  from this(2,1) show "(bcReply t = None \<longleftrightarrow> (\<forall>k err v. BcInvoked k err (Some v) \<notin> set (ls @ [e])))
    \<and> (\<forall>v. bcReply t = Some v \<longrightarrow> (\<exists>k err. BcInvoked k err (Some v) \<in> set (ls @ [e])))"
    by cases (auto split: option.splits)
qed (auto simp: bc_start_def split: sum.splits)

lemma bc_no_errors:
  assumes "bc_errors ls = []"
  shows "BcDialFails k er \<notin> set ls" and "BcInvoked k (Some er) v \<notin> set ls"
  using assms by (auto simp: bc_errors_def concat_eq_Nil_conv)

lemma bc_called_in: "k \<in> set (bc_called ls) \<Longrightarrow> (\<exists>er. BcDialFails k er \<in> set ls) \<or> (\<exists>err v. BcInvoked k err v \<in> set ls)"
proof -
  assume "k \<in> set (bc_called ls)"
  then obtain ev where "ev \<in> set ls" "k \<in> set (called_of ev)" by (auto simp: bc_called_def)
  then show ?thesis by (cases ev rule: called_of.cases) auto
qed

text \<open>The client of the groups, when it ends without a panic, has printed ten users.\<close>

lemma group_client_lines:
  assumes "group_client_main new_client new_session dial marshal call = (lines, Inr ())"
    and "\<And>i. i < 10 \<Longrightarrow> \<exists>err. call i = Inl err \<or> (\<exists>idx. call i = Inr (snd (group_GetById (fleet_user idx) 12)))"
  shows "length lines = 10 \<and> (\<forall>i<10. marshal (Some \<lparr>guId = 12, guStatus = 123\<rparr>) = Inr (lines ! i))"
proof -
  have loop: "calls_loop marshal (map call [0..<10]) = (lines, Inr ())"
    using assms(1) by (auto simp: group_client_main_def split: sum.splits)
  have "marshal (Some \<lparr>guId = 12, guStatus = 123\<rparr>) = Inr (lines ! i)" if "i < 10" for i
  proof -
    have "\<exists>u. call i = Inr u \<and> marshal u = Inr (lines ! i)" using loop that unfolding calls_loop_returns by simp
    then show ?thesis using assms(2) [OF that] by (auto simp: group_GetById_def)
  qed
  then show ?thesis using loop unfolding calls_loop_returns by simp
qed

definition serving :: "'d fleet \<Rightarrow> service_instance set" where
  "serving s = {j. \<exists>k<length (flRun s). held (flRun s ! k) = Some j}"

lemma broadcast_over_fleet:
  assumes laws: "etcd_laws e content" "errgroup_laws wait" and "content d = Map.empty"
    and fleet: "trace (fleet_step (broadcast_server e)) (fleet_start d) evs s" "list_all fleet_ok evs"
    and spread: "bc_intercept (NewClusterBuilder e fleet_name opts) UsingBroadCast (flStore s) = Spread r0"
      "trace (bc_step wait) r0 (ls @ [BcReturns res]) r"
  shows "(\<exists>is. distinct is \<and> set is = serving s \<and> distinct (bc_called ls) \<and> set (bc_called ls) = {..<length is})
    \<and> (res = None \<longleftrightarrow> bc_errors ls = []) \<and> (serving s = {} \<longleftrightarrow> bc_called ls = [])
    \<and> (\<exists>found. r0 = bc_start found)"
proof -
  let ?found = "ListServices e fleet_name (flStore s)"
  have r0: "r0 = bc_start ?found"
    using spread(1) by (simp add: bc_intercept_def UsingBroadCast_def lookup_of_def NewClusterBuilder_def)
  then obtain "is" where found: "?found = Inr is" using spread(2) bc_returns_found by blast
  note fl = broadcast_fleet_any [OF laws(1)]
  have inv: "fleet.fleet_inv e content (broadcast_server e) s"
    using fleet.fleet_run_inv [OF fl fleet(1) assms(3)] fleet(2) by blast
  then have "k = instanceKey i" if "etcd_map (e, content) (flStore s) k = Some i" for k i
    using that by (auto simp: fleet.fleet_inv_def [OF fl] holds_def)
  then have "distinct is" by (rule ListServices_distinct [OF laws(1) found])
  moreover have "set is = serving s" unfolding serving_def by (rule fleet.found_held [OF fl inv found])
  moreover note bc_returned [OF laws(2) spread(2) [unfolded r0 found]]
  moreover have "serving s = {} \<longleftrightarrow> bc_called ls = []"
  proof -
    have "set (bc_called ls) = {} \<longleftrightarrow> is = []" using calculation by auto
    then show ?thesis using calculation by auto
  qed
  ultimately show ?thesis using r0 by blast
qed

section \<open>Properties\<close>



section \<open>A run\<close>

text \<open>A broadcast over the three servers of \<open>late_fleet\<close>, which answer one after another.\<close>

definition zero_user :: gen_user where
  "zero_user = \<lparr>guId = 0, guStatus = 123\<rparr>"

definition calm_events :: "gen_user option bc_event list" where
  "calm_events = [BcInvoked 0 None (Some (Some zero_user)), BcInvoked 1 None (Some (Some zero_user)),
     BcInvoked 2 None (Some (Some zero_user)), BcFinishes 0 None, BcFinishes 1 None, BcFinishes 2 None]"

definition calm_run :: "bc_pc list \<Rightarrow> go_error option list \<Rightarrow> gen_user option bc_run" where
  "calm_run ts rs = \<lparr>bcThreads = ts, bcReply = Some (Some zero_user), bcResults = rs, bcReturned = None\<rparr>"

lemma calm_invoked:
  "i < length ts \<Longrightarrow> ts ! i = BcStart \<Longrightarrow>
     bc_step first_error (calm_run ts rs) (BcInvoked i None (Some (Some zero_user))) (calm_run (ts[i := BcCalled None]) rs)"
  using bc_invoked [of i "calm_run ts rs" first_error None "Some (Some zero_user)"] by (simp add: calm_run_def)

lemma calm_finishes:
  "i < length ts \<Longrightarrow> ts ! i = BcCalled None \<Longrightarrow>
     bc_step first_error (calm_run ts rs) (BcFinishes i None) (calm_run (ts[i := BcDone]) (rs @ [None]))"
  using bc_finishes [of i "calm_run ts rs" None first_error] by (simp add: calm_run_def)

lemma calm_trace:
  "trace (bc_step first_error) (bc_start (Inr [late_instance 2, late_instance 1, late_instance 0]))
     (calm_events @ [BcReturns None]) ((calm_run [BcDone, BcDone, BcDone] [None, None, None])\<lparr>bcReturned := Some None\<rparr>)"
proof -
  let ?s = "bc_start (Inr [late_instance 2, late_instance 1, late_instance 0]) :: gen_user option bc_run"
  note go = trace_Cons [where step = "bc_step first_error"]
  have a: "bc_step first_error ?s (BcInvoked 0 None (Some (Some zero_user))) (calm_run [BcCalled None, BcStart, BcStart] [])"
    using bc_invoked [of 0 ?s first_error None "Some (Some zero_user)"] by (simp add: bc_start_def calm_run_def)
  have z: "bc_step first_error (calm_run [BcDone, BcDone, BcDone] [None, None, None]) (BcReturns None)
      ((calm_run [BcDone, BcDone, BcDone] [None, None, None])\<lparr>bcReturned := Some None\<rparr>)"
    using bc_returns [of "calm_run [BcDone, BcDone, BcDone] [None, None, None]" first_error] by (simp add: calm_run_def)
  show ?thesis
    using a z calm_invoked [of 1 "[BcCalled None, BcStart, BcStart]" "[]"]
      calm_invoked [of 2 "[BcCalled None, BcCalled None, BcStart]" "[]"]
      calm_finishes [of 0 "[BcCalled None, BcCalled None, BcCalled None]" "[]"]
      calm_finishes [of 1 "[BcDone, BcCalled None, BcCalled None]" "[None]"]
      calm_finishes [of 2 "[BcDone, BcDone, BcCalled None]" "[None, None]"]
    unfolding calm_events_def append.simps by (intro go trace_one [where step = "bc_step first_error"]) simp_all
qed


text \<open>
  The documentation of gRPC: a connection needs transport security, or an option that does without. So no call gets
  past the dial when none of the options is one of these, \<open>secures\<close>.
\<close>

definition dial_law :: "('o \<Rightarrow> bool) \<Rightarrow> 'o list \<Rightarrow> 'r bc_event list \<Rightarrow> bool" where
  "dial_law secures opts ls \<longleftrightarrow> list_ex secures opts \<or> (\<forall>k err v. BcInvoked k err v \<notin> set ls)"

text \<open>
  C6: The broadcast example cannot work. The builder of its interceptor has no dial options, so no instance can be
  dialed: when a server is serving, the first of the hundred calls fails with the error of a dial, and the client
  panics with it before it has printed anything.
\<close>

theorem broadcast_example_panics:
  assumes "etcd_laws e content" and "errgroup_laws wait" and "content d = Map.empty"
    and fleet: "trace (fleet_step (broadcast_server e)) (fleet_start d) evs s" "list_all fleet_ok evs"
    and spread: "bc_intercept (NewClusterBuilder e fleet_name []) UsingBroadCast (flStore s) = Spread r0"
      "trace (bc_step wait) r0 (ls @ [BcReturns res]) r" "call 0 = call_answer res r"
    and "dial_law secures [] ls" and "serving s \<noteq> {}"
  shows "\<exists>k err. BcDialFails k err \<in> set ls
    \<and> broadcast_client (Inr ()) (Inr ()) (Inr ()) show_user call = ([], Inl (ExplicitPanic (error_text err)))"
proof -
  note over = broadcast_over_fleet [OF assms(1-3) fleet spread(1,2)]
  have never: "BcInvoked k err v \<notin> set ls" for k err v using assms(9) by (simp add: dial_law_def)
  obtain k where "k \<in> set (bc_called ls)" using over assms(10) by (cases "bc_called ls") auto
  then obtain err0 where "BcDialFails k err0 \<in> set ls" using bc_called_in never by blast
  then have "bc_errors ls \<noteq> []" using bc_no_errors by blast
  then obtain err where err: "res = Some err" using over by (cases res) auto
  obtain "is" where "ListServices e fleet_name (flStore s) = Inr is" "r0 = bc_start (Inr is)"
  proof -
    have "r0 = bc_start (ListServices e fleet_name (flStore s))"
      using spread(1) by (simp add: bc_intercept_def UsingBroadCast_def lookup_of_def NewClusterBuilder_def)
    then show ?thesis using that spread(2) bc_returns_found by metis
  qed
  then have "err \<in> set (bc_errors ls)" using bc_returned [OF assms(2), of "is" ls res r] spread(2) err by simp
  then obtain ev where ev: "ev \<in> set ls" "err \<in> set (outcome_of ev)" by (auto simp: bc_errors_def)
  then have "\<exists>k. ev = BcDialFails k err" using never by (cases ev rule: outcome_of.cases) auto
  then obtain k' where "BcDialFails k' err \<in> set ls" using ev(1) by blast
  moreover have "map call [0..<100] = call 0 # map call [1..<100]" by (simp add: upt_conv_Cons)
  then have "broadcast_client (Inr ()) (Inr ()) (Inr ()) show_user call = ([], Inl (ExplicitPanic (error_text err)))"
    using spread(3) err by (simp add: broadcast_client_def main_registry_def NewRegistry_def call_answer_def del: upt_rec_numeral)
  ultimately show ?thesis by blast
qed

text \<open>The three servers of \<open>late_fleet\<close>, none of which can be dialed.\<close>

definition refused_run :: "bc_pc list \<Rightarrow> go_error option list \<Rightarrow> gen_user option bc_run" where
  "refused_run ts rs = \<lparr>bcThreads = ts, bcReply = None, bcResults = rs, bcReturned = None\<rparr>"

definition refused_events :: "go_error \<Rightarrow> gen_user option bc_event list" where
  "refused_events er = [BcDialFails 0 er, BcDialFails 1 er, BcDialFails 2 er,
     BcFinishes 0 (Some er), BcFinishes 1 (Some er), BcFinishes 2 (Some er)]"

lemma refused_dial:
  "i < length ts \<Longrightarrow> ts ! i = BcStart \<Longrightarrow>
     bc_step first_error (refused_run ts rs) (BcDialFails i er) (refused_run (ts[i := BcCalled (Some er)]) rs)"
  using bc_dial_fails [of i "refused_run ts rs" first_error er] by (simp add: refused_run_def)

lemma refused_finishes:
  "i < length ts \<Longrightarrow> ts ! i = BcCalled err \<Longrightarrow>
     bc_step first_error (refused_run ts rs) (BcFinishes i err) (refused_run (ts[i := BcDone]) (rs @ [err]))"
  using bc_finishes [of i "refused_run ts rs" err first_error] by (simp add: refused_run_def)

lemma refused_trace:
  "trace (bc_step first_error) (bc_start (Inr [late_instance 2, late_instance 1, late_instance 0]))
     (refused_events er @ [BcReturns (Some er)])
     ((refused_run [BcDone, BcDone, BcDone] [Some er, Some er, Some er])\<lparr>bcReturned := Some (Some er)\<rparr>)"
proof -
  let ?b = "BcCalled (Some er)"
  note go = trace_Cons [where step = "bc_step first_error"]
  have a: "bc_start (Inr [late_instance 2, late_instance 1, late_instance 0]) = refused_run [BcStart, BcStart, BcStart] []"
    by (simp add: bc_start_def refused_run_def)
  have z: "bc_step first_error (refused_run [BcDone, BcDone, BcDone] [Some er, Some er, Some er]) (BcReturns (Some er))
      ((refused_run [BcDone, BcDone, BcDone] [Some er, Some er, Some er])\<lparr>bcReturned := Some (Some er)\<rparr>)"
    using bc_returns [of "refused_run [BcDone, BcDone, BcDone] [Some er, Some er, Some er]" first_error]
    by (simp add: refused_run_def)
  show ?thesis
    using z refused_dial [of 0 "[BcStart, BcStart, BcStart]" "[]" er] refused_dial [of 1 "[?b, BcStart, BcStart]" "[]" er]
      refused_dial [of 2 "[?b, ?b, BcStart]" "[]" er] refused_finishes [of 0 "[?b, ?b, ?b]" "Some er" "[]"]
      refused_finishes [of 1 "[BcDone, ?b, ?b]" "Some er" "[Some er]"]
      refused_finishes [of 2 "[BcDone, BcDone, ?b]" "Some er" "[Some er, Some er]"]
    unfolding refused_events_def append.simps a by (intro go trace_one [where step = "bc_step first_error"]) simp_all
qed

theorem broadcast_example_panics_witness:
  "\<exists>err. broadcast_client (Inr ()) (Inr ()) (Inr ()) (\<lambda>u. []) (\<lambda>i. Inl CtxCanceled :: go_error + gen_user option) =
     ([], Inl (ExplicitPanic (error_text err)))"
proof -
  let ?r = "(refused_run [BcDone, BcDone, BcDone] [Some CtxCanceled, Some CtxCanceled, Some CtxCanceled])
      \<lparr>bcReturned := Some (Some CtxCanceled)\<rparr>"
  have ok: "list_all fleet_ok late_events" by (simp add: late_events_def)
  have spread: "bc_intercept (NewClusterBuilder memory_etcd fleet_name ([] :: unit list)) UsingBroadCast (flStore late_fleet) =
      Spread (bc_start (Inr [late_instance 2, late_instance 1, late_instance 0]))"
    by (simp add: bc_intercept_def UsingBroadCast_def lookup_of_def NewClusterBuilder_def late_listed)
  have serving: "serving late_fleet \<noteq> {}" by (auto simp: serving_def late_fleet_def intro!: exI [of _ 0])
  have dial: "dial_law (\<lambda>o1. True) ([] :: unit list) (refused_events CtxCanceled)"
    by (simp add: dial_law_def refused_events_def)
  have "(Inl CtxCanceled :: go_error + gen_user option) = call_answer (Some CtxCanceled) ?r" by (simp add: call_answer_def)
  from broadcast_example_panics [OF memory_etcd_laws first_error_laws _ late_run ok spread refused_trace this dial serving,
      of "\<lambda>u. []"]
  show ?thesis by auto
qed

end
