(* ===== verification/ServerLimit.thy ===== *)
theory ServerLimit
  imports RateLimit
begin

text \<open>
  The limiters as a server uses them: the interceptors of the two windows with the strategy for what they
  reject (\<^verbatim>\<open>OnReject\<close>), and the limiter of one method (\<^verbatim>\<open>ratelimit/method_limiter.go\<close>) around any limiter.

  \<^item> The interface \<^verbatim>\<open>ServerLimiter\<close> is the locale \<open>server_limiter\<close>; both windows interpret it.
  \<^item> A run takes the calls one after another, each at a time, with its context, request, method and handler.
\<close>

section \<open>Operations\<close>

record ('q, 'r) fix_limiter =
  flWindow :: fix_window
  flOnReject :: "('q, 'r) reject"

record ('q, 'r) slide_limiter =
  slWindow :: slide_window
  slOnReject :: "('q, 'r) reject"

definition new_fix_limiter :: "int \<Rightarrow> int \<Rightarrow> ('q, 'r) fix_limiter" where
  "new_fix_limiter interval maxRate = \<lparr>flWindow = NewFixWindowLimiter interval maxRate, flOnReject = defaultRejection\<rparr>"

definition new_slide_limiter :: "int \<Rightarrow> int \<Rightarrow> ('q, 'r) slide_limiter" where
  "new_slide_limiter rate interval = \<lparr>slWindow = NewSlideWindowLimiter rate interval, slOnReject = defaultRejection\<rparr>"

definition fix_OnReject :: "('q, 'r) reject \<Rightarrow> ('q, 'r) fix_limiter \<Rightarrow> ('q, 'r) fix_limiter" where
  "fix_OnReject onReject l = l\<lparr>flOnReject := onReject\<rparr>"

definition slide_OnReject :: "('q, 'r) reject \<Rightarrow> ('q, 'r) slide_limiter \<Rightarrow> ('q, 'r) slide_limiter" where
  "slide_OnReject onReject l = l\<lparr>slOnReject := onReject\<rparr>"

text \<open>A call of an interceptor: the time, the context, the request, the method and the handler.\<close>

type_synonym ('q, 'r) limited_call = "int \<times> rl_ctx \<times> 'q \<times> go_string \<times> ('q, 'r) handler"
type_synonym ('l, 'q, 'r) limited = "('q, 'r) limited_call \<Rightarrow> 'l \<Rightarrow> (go_error + 'r) \<times> 'l"

fun fix_intercept :: "(('q, 'r) fix_limiter, 'q, 'r) limited" where
  "fix_intercept (now, ctx, req, method, handler) l =
     (case fw_call now (flWindow l) of
        (admit, w) \<Rightarrow> (decided admit (flOnReject l) ctx req method handler, l\<lparr>flWindow := w\<rparr>))"

fun slide_intercept :: "(('q, 'r) slide_limiter, 'q, 'r) limited" where
  "slide_intercept (now, ctx, req, method, handler) l =
     (case sw_call now (slWindow l) of
        (admit, w) \<Rightarrow> (decided admit (slOnReject l) ctx req method handler, l\<lparr>slWindow := w\<rparr>))"

record 'l method_limiter =
  mlServerLimiter :: 'l
  mlFullMethod :: go_string

definition NewServerMethodLimiter :: "go_string \<Rightarrow> 'l \<Rightarrow> 'l method_limiter" where
  "NewServerMethodLimiter fullMethod limiter = \<lparr>mlServerLimiter = limiter, mlFullMethod = fullMethod\<rparr>"

fun method_intercept :: "('l, 'q, 'r) limited \<Rightarrow> ('l method_limiter, 'q, 'r) limited" where
  "method_intercept inner (now, ctx, req, method, handler) m =
     (if method = mlFullMethod m
      then (case inner (now, ctx, req, method, handler) (mlServerLimiter m) of (r, l) \<Rightarrow> (r, m\<lparr>mlServerLimiter := l\<rparr>))
      else (handler ctx req, m))"

section \<open>Runs\<close>

primrec serve_all :: "('l, 'q, 'r) limited \<Rightarrow> ('q, 'r) limited_call list \<Rightarrow> 'l \<Rightarrow> (go_error + 'r) list \<times> 'l" where
  "serve_all f [] l = ([], l)"
| "serve_all f (c # cs) l = (case f c l of (r, l) \<Rightarrow> (case serve_all f cs l of (rs, l) \<Rightarrow> (r # rs, l)))"

fun call_method :: "('q, 'r) limited_call \<Rightarrow> go_string" where
  "call_method (now, ctx, req, method, handler) = method"

fun call_time :: "('q, 'r) limited_call \<Rightarrow> int" where
  "call_time (now, ctx, req, method, handler) = now"

text \<open>What the handler of a call answers, and what it answers to a context marked as limited.\<close>

fun handled :: "('q, 'r) limited_call \<Rightarrow> go_error + 'r" where
  "handled (now, ctx, req, method, handler) = handler ctx req"

fun handled_limited :: "('q, 'r) limited_call \<Rightarrow> go_error + 'r" where
  "handled_limited (now, ctx, req, method, handler) = handler (ctx\<lparr>rlLimited := True\<rparr>) req"

text \<open>What the default strategy answers.\<close>

definition refused :: "('q, 'r) limited_call \<Rightarrow> go_error + 'r" where
  "refused c = Inl (StatusError ResourceExhausted (limit_text @ call_method c))"

lemma length_serve_all: "length (fst (serve_all f cs l)) = length cs"
  by (induction cs arbitrary: l) (simp_all add: split_beta)

text \<open>The answers to the calls of one method, and the answers to the others.\<close>

definition answers_to :: "bool \<Rightarrow> go_string \<Rightarrow> ('q, 'r) limited_call list \<Rightarrow> 'a list \<Rightarrow> 'a list" where
  "answers_to same meth cs rs = map snd (filter (\<lambda>(c, r). (call_method c = meth) = same) (zip cs rs))"

lemma answers_to_simps [simp]:
  "answers_to same meth [] rs = []"
  "answers_to same meth (c # cs) (r # rs) =
     (if (call_method c = meth) = same then r # answers_to same meth cs rs else answers_to same meth cs rs)"
  by (simp_all add: answers_to_def)

lemma method_run:
  "serve_all (method_intercept inner) cs m = (rs, m') \<Longrightarrow>
     (answers_to True (mlFullMethod m) cs rs, mlServerLimiter m') =
       serve_all inner (filter (\<lambda>c. call_method c = mlFullMethod m) cs) (mlServerLimiter m)
     \<and> answers_to False (mlFullMethod m) cs rs = map handled (filter (\<lambda>c. call_method c \<noteq> mlFullMethod m) cs)
     \<and> mlFullMethod m' = mlFullMethod m"
proof (induction cs arbitrary: m rs)
  case (Cons c cs)
  obtain now ctx req meth h where c: "c = (now, ctx, req, meth, h)" by (cases c)
  obtain r m1 where r: "method_intercept inner c m = (r, m1)" by force
  obtain rs1 where rs1: "serve_all (method_intercept inner) cs m1 = (rs1, m')" "rs = r # rs1"
    using Cons.prems r by (auto split: prod.splits)
  have IH: "serve_all inner (filter (\<lambda>c. call_method c = mlFullMethod m1) cs) (mlServerLimiter m1) =
        (answers_to True (mlFullMethod m1) cs rs1, mlServerLimiter m')"
      "answers_to False (mlFullMethod m1) cs rs1 = map handled (filter (\<lambda>c. call_method c \<noteq> mlFullMethod m1) cs)"
      "mlFullMethod m' = mlFullMethod m1"
    using Cons.IH [OF rs1(1)] by simp_all
  show ?case
  proof (cases "meth = mlFullMethod m")
    case True
    then have m1: "inner c (mlServerLimiter m) = (r, mlServerLimiter m1)" "mlFullMethod m1 = mlFullMethod m"
      using r c by (auto split: prod.splits)
    have "call_method c = mlFullMethod m" using c True by simp
    then show ?thesis using IH unfolding m1(2) rs1(2) by (simp add: m1(1))
  next
    case False
    then have "m1 = m" "r = h ctx req" using r c by simp_all
    then show ?thesis using IH False c unfolding rs1(2) by simp
  qed
qed simp

section \<open>The interface\<close>

locale server_limiter =
  fixes intercept :: "('l, 'q, 'r) limited" and admits :: "int \<Rightarrow> 'l \<Rightarrow> bool"
    and after :: "int \<Rightarrow> 'l \<Rightarrow> 'l" and rejects :: "'l \<Rightarrow> ('q, 'r) reject"
  assumes intercept: "intercept (now, ctx, req, method, handler) l =
      (decided (admits now l) (rejects l) ctx req method handler, after now l)"
    and rejects_after [simp]: "rejects (after now l) = rejects l"
begin

text \<open>Which of the calls at given times are admitted.\<close>

primrec admitted :: "int list \<Rightarrow> 'l \<Rightarrow> bool list" where
  "admitted [] l = []"
| "admitted (now # nows) l = admits now l # admitted nows (after now l)"

lemma length_admitted [simp]: "length (admitted nows l) = length nows"
  by (induction nows arbitrary: l) simp_all

lemma default_run:
  "rejects l = defaultRejection \<Longrightarrow>
     fst (serve_all intercept cs l) =
       map2 (\<lambda>c admit. if admit then handled c else refused c) cs (admitted (map call_time cs) l)"
proof (induction cs arbitrary: l)
  case (Cons c cs)
  obtain now ctx req meth h where "c = (now, ctx, req, meth, h)" by (cases c)
  then show ?case using Cons.IH [of "after now l"] Cons.prems
    by (simp add: intercept decided_def defaultRejection_def refused_def split: prod.splits) (metis fst_conv)
qed simp

lemma marked_run:
  "rejects l = markLimitedRejection \<Longrightarrow>
     fst (serve_all intercept cs l) =
       map2 (\<lambda>c admit. if admit then handled c else handled_limited c) cs (admitted (map call_time cs) l)"
proof (induction cs arbitrary: l)
  case (Cons c cs)
  obtain now ctx req meth h where "c = (now, ctx, req, meth, h)" by (cases c)
  then show ?case using Cons.IH [of "after now l"] Cons.prems
    by (simp add: intercept decided_def markLimitedRejection_def split: prod.splits) (metis fst_conv)
qed simp

end

interpretation fwl: server_limiter fix_intercept "\<lambda>now l. fst (fw_call now (flWindow l))"
    "\<lambda>now l. l\<lparr>flWindow := snd (fw_call now (flWindow l))\<rparr>" flOnReject
  by unfold_locales (simp_all split: prod.splits)

interpretation swl: server_limiter slide_intercept "\<lambda>now l. fst (sw_call now (slWindow l))"
    "\<lambda>now l. l\<lparr>slWindow := snd (sw_call now (slWindow l))\<rparr>" slOnReject
  by unfold_locales (simp_all split: prod.splits)

text \<open>A fixed window of a second or more: it admits the first calls of its life, and no others.\<close>

lemma fw_long_call:
  assumes "fwStart w = 0" and "1000000000 \<le> fwInterval w" and "fwInterval w < 2 ^ 63" and "0 \<le> fwCnt w" and "fwCnt w + 1 < 2 ^ 63"
  shows "fw_call now w = (fwCnt w < fwMaxRate w, w\<lparr>fwCnt := fwCnt w + 1\<rparr>)"
proof -
  have "Nanosecond now < 1000000000" by (simp add: Nanosecond_def)
  moreover have "i64 (fwStart w + fwInterval w) = fwInterval w" using assms by (simp add: i64_id)
  ultimately have "\<not> fw_expired w (fwStart w) (Nanosecond now)" using assms(2) by (simp add: fw_expired_def)
  moreover have "i64 (fwCnt w + 1) = fwCnt w + 1" using assms(4,5) by (simp add: i64_id)
  ultimately show ?thesis by (auto simp: fw_call_def Let_def)
qed

lemma fw_long_admitted:
  "fwStart (flWindow l) = 0 \<Longrightarrow> 1000000000 \<le> fwInterval (flWindow l) \<Longrightarrow> fwInterval (flWindow l) < 2 ^ 63 \<Longrightarrow>
     0 \<le> fwCnt (flWindow l) \<Longrightarrow> fwCnt (flWindow l) + int (length nows) < 2 ^ 63 \<Longrightarrow>
     fwl.admitted nows l = map (\<lambda>i. fwCnt (flWindow l) + int i < fwMaxRate (flWindow l)) [0..<length nows]"
proof (induction nows arbitrary: l)
  case (Cons now nows)
  let ?l = "l\<lparr>flWindow := (flWindow l)\<lparr>fwCnt := fwCnt (flWindow l) + 1\<rparr>\<rparr>"
  have call: "fw_call now (flWindow l) = (fwCnt (flWindow l) < fwMaxRate (flWindow l), flWindow ?l)"
    using Cons.prems by (subst fw_long_call) simp_all
  have "fwl.admitted nows ?l = map (\<lambda>i. fwCnt (flWindow ?l) + int i < fwMaxRate (flWindow ?l)) [0..<length nows]"
    using Cons.prems by (intro Cons.IH) simp_all
  moreover have "[0..<length (now # nows)] = 0 # map Suc [0..<length nows]" by (simp add: map_Suc_upt upt_conv_Cons del: upt_Suc)
  ultimately show ?case by (simp add: call comp_def add.assoc del: upt_Suc)
qed simp

lemma map2_first:
  "map2 (\<lambda>c admit. if admit then f c else g c) cs (map (\<lambda>i. int i < n) [0..<length cs])
     = map f (take (nat n) cs) @ map g (drop (nat n) cs)"
  by (rule nth_equalityI) (auto simp: nth_append min_def)

section \<open>Properties\<close>

text \<open>
  The limiter of one method keeps to its method: it answers the calls of the method, and counts them, as
  the limiter inside would if there were no others, and every other call is answered by its handler.
\<close>

theorem method_limiter_separates:
  "case serve_all (method_intercept inner) cs (NewServerMethodLimiter meth l) of
     (rs, m) \<Rightarrow>
       (answers_to True meth cs rs, mlServerLimiter m) = serve_all inner (filter (\<lambda>c. call_method c = meth) cs) l
       \<and> answers_to False meth cs rs = map handled (filter (\<lambda>c. call_method c \<noteq> meth) cs)"
  using method_run [of inner cs "NewServerMethodLimiter meth l"]
  by (auto simp: NewServerMethodLimiter_def split: prod.splits)

text \<open>
  C21: A fixed window of a second or more for one method serves the first \<open>maxRate\<close> calls of the method in the life of
  the limiter and refuses every later one, whenever they come; the calls of other methods are all served.
\<close>

theorem fix_window_serves_first:
  fixes cs :: "('q, 'r) limited_call list"
  assumes "1000000000 \<le> interval" and "interval < 2 ^ 63" and "int (length cs) < 2 ^ 63"
    and "mine = filter (\<lambda>c. call_method c = meth) cs"
    and "rs = fst (serve_all (method_intercept fix_intercept) cs (NewServerMethodLimiter meth (new_fix_limiter interval maxRate)))"
  shows "answers_to True meth cs rs = map handled (take (nat maxRate) mine) @ map refused (drop (nat maxRate) mine)
    \<and> answers_to False meth cs rs = map handled (filter (\<lambda>c. call_method c \<noteq> meth) cs)"
proof -
  let ?l = "new_fix_limiter interval maxRate :: ('q, 'r) fix_limiter"
  have w: "flOnReject ?l = defaultRejection" "fwCnt (flWindow ?l) = 0" "fwStart (flWindow ?l) = 0"
      "fwInterval (flWindow ?l) = interval" "fwMaxRate (flWindow ?l) = maxRate"
    by (simp_all add: new_fix_limiter_def NewFixWindowLimiter_def)
  have "length mine \<le> length cs" by (simp add: assms(4))
  then have short: "int (length mine) < 2 ^ 63" using assms(3) by linarith
  have "fwl.admitted (map call_time mine) ?l = map (\<lambda>i. int i < maxRate) [0..<length mine]"
    using fw_long_admitted [of ?l "map call_time mine"] assms(1,2) short by (simp add: w)
  then have "fst (serve_all fix_intercept mine ?l) = map handled (take (nat maxRate) mine) @ map refused (drop (nat maxRate) mine)"
    using map2_first [of handled refused mine maxRate] by (simp add: fwl.default_run w(1))
  moreover have "answers_to True meth cs rs = fst (serve_all fix_intercept mine ?l)"
      "answers_to False meth cs rs = map handled (filter (\<lambda>c. call_method c \<noteq> meth) cs)"
    using method_run [of fix_intercept cs "NewServerMethodLimiter meth ?l"] assms(4,5)
    by (auto simp: NewServerMethodLimiter_def dest: arg_cong [where f = fst] split: prod.splits)
      (metis fst_conv surj_pair)+
  ultimately show ?thesis by simp
qed

text \<open>
  With the strategy that marks the context no call is lost: each window, around whatever calls, answers every
  call with what its handler answers, and marks the context of those it does not admit.
\<close>

theorem marked_calls_handled:
  "fst (serve_all fix_intercept cs (fix_OnReject markLimitedRejection l)) =
     map2 (\<lambda>c admit. if admit then handled c else handled_limited c) cs
       (fwl.admitted (map call_time cs) (fix_OnReject markLimitedRejection l))
   \<and> fst (serve_all slide_intercept cs (slide_OnReject markLimitedRejection l')) =
     map2 (\<lambda>c admit. if admit then handled c else handled_limited c) cs
       (swl.admitted (map call_time cs) (slide_OnReject markLimitedRejection l'))"
  by (simp add: fwl.marked_run swl.marked_run fix_OnReject_def slide_OnReject_def)


section \<open>A run\<close>

definition get_call :: "int \<Rightarrow> (nat, nat) limited_call" where
  "get_call n = (n, \<lparr>rlLimited = False, rlErr = None\<rparr>, nat n, go_str ''/get'', \<lambda>ctx req. Inr (Suc req))"

theorem fix_window_serves_first_witness:
  "answers_to True (go_str ''/get'') (map get_call [5, 70, 900])
     (fst (serve_all (method_intercept fix_intercept) (map get_call [5, 70, 900])
       (NewServerMethodLimiter (go_str ''/get'') (new_fix_limiter 60000000000 2)))) =
     [Inr 6, Inr 71, refused (get_call 900)]"
  using fix_window_serves_first [of 60000000000 "map get_call [5, 70, 900]" _ "go_str ''/get''" _ 2, OF _ _ _ refl refl]
  by (simp add: get_call_def numeral_2_eq_2)

end
