(* ===== verification/Entropy.thy ===== *)
theory Entropy
  imports Complex_Main Emicro_Prelude "HOL-Library.Multiset"
begin

text \<open>
  The entropy of a map of counts (\<^verbatim>\<open>internal/utils/xmath/entropy.go\<close>).

  \<^item> The operations of the code on \<^verbatim>\<open>float64\<close> are a parameter, the record \<open>entropy_ops\<close>; \<open>exact_ops\<close> computes
    with real numbers, without rounding.
  \<^item> Each loop ranges over the map in an order of its own: the two orders are arguments, and \<open>ranges\<close> says which
    they may be.
\<close>

section \<open>Operations\<close>

record 'f entropy_ops =
  eoInt :: "int \<Rightarrow> 'f"
  eoLess :: "'f \<Rightarrow> 'f \<Rightarrow> bool"
  eoDiv :: "'f \<Rightarrow> 'f \<Rightarrow> 'f"
  eoMul :: "'f \<Rightarrow> 'f \<Rightarrow> 'f"
  eoSub :: "'f \<Rightarrow> 'f \<Rightarrow> 'f"
  eoLog2 :: "'f \<Rightarrow> 'f"
  eoEpsilon :: 'f

definition ranges :: "('k \<rightharpoonup> int) \<Rightarrow> ('k \<times> int) list \<Rightarrow> bool" where
  "ranges m kvs \<longleftrightarrow> distinct (map fst kvs) \<and> map_of kvs = m"

definition entropy_total :: "('k \<times> int) list \<Rightarrow> int" where
  "entropy_total kvs = fold (\<lambda>(k, v) total. i64 (total + v)) kvs 0"

definition entropy_proba :: "'f entropy_ops \<Rightarrow> int \<Rightarrow> int \<Rightarrow> 'f" where
  "entropy_proba fo tot v =
     (let proba = eoDiv fo (eoInt fo v) (eoInt fo tot)
      in if eoLess fo proba (eoEpsilon fo) then eoEpsilon fo else proba)"

definition CalcEntropy :: "'f entropy_ops \<Rightarrow> ('k \<times> int) list \<Rightarrow> ('k \<times> int) list \<Rightarrow> 'f" where
  "CalcEntropy fo first second =
     (if length first = 0 \<or> length first = 1 then eoInt fo 1
      else
        let tot = entropy_total first;
            entropy = fold (\<lambda>(k, v) entropy.
                let proba = entropy_proba fo tot v in eoSub fo entropy (eoMul fo proba (eoLog2 fo proba)))
              second (eoInt fo 0)
        in eoDiv fo entropy (eoLog2 fo (eoInt fo (int (length first)))))"

definition exact_ops :: "real entropy_ops" where
  "exact_ops = \<lparr>eoInt = of_int, eoLess = (<), eoDiv = (/), eoMul = (*), eoSub = (-), eoLog2 = log 2, eoEpsilon = 1 / 10 ^ 6\<rparr>"

section \<open>Facts\<close>

text \<open>Addition modulo \<open>2 ^ 64\<close>: the sum is right when it fits, whatever the sums on the way.\<close>

lemma i64_add_left: "i64 (i64 x + y) = i64 (x + y)"
  by (simp add: i64_def algebra_simps mod_simps)

lemma entropy_total_sum: "entropy_total kvs = i64 (sum_list (map snd kvs))"
proof -
  have "fold (\<lambda>(k, v) t. i64 (t + v)) kvs (i64 t) = i64 (t + sum_list (map snd kvs))" for t
    by (induction kvs arbitrary: t) (simp_all add: split_beta i64_add_left add.assoc)
  from this [of 0] show ?thesis by (simp add: entropy_total_def i64_id)
qed

lemma entropy_fold:
  "fold (\<lambda>(k, v) entropy. entropy - p v * log 2 (p v)) kvs x
     = x - (\<Sum>v\<leftarrow>map snd kvs. p v * log 2 (p v))" for p :: "int \<Rightarrow> real"
  by (induction kvs arbitrary: x) auto

lemma ranges_mset: "ranges m kvs \<Longrightarrow> ranges m kvs' \<Longrightarrow> mset kvs = mset kvs'"
  unfolding ranges_def
  by (metis distinct_map map_of_inject_set set_eq_iff_mset_eq_distinct)

lemma exact_value:
  assumes "mset first = mset second" and "length first \<noteq> 0" and "length first \<noteq> 1"
  defines "p \<equiv> entropy_proba exact_ops (entropy_total second)"
  shows "CalcEntropy exact_ops first second = - (\<Sum>v\<leftarrow>map snd second. p v * log 2 (p v)) / log 2 (length second)"
proof -
  have "sum_mset (mset (map snd first)) = sum_mset (mset (map snd second))" using assms(1) by simp
  then have "entropy_total first = entropy_total second" by (simp only: entropy_total_sum sum_mset_sum_list)
  moreover have "length first = length second" using assms(1) by (metis size_mset)
  ultimately show ?thesis using assms(2,3)
    by (simp add: CalcEntropy_def exact_ops_def p_def Let_def entropy_fold)
qed

text \<open>Shares of one, none of them 0: the entropy is at most the logarithm of their number (Gibbs).\<close>

lemma share_bound:
  assumes "0 < p" and "0 < n"
  shows "- (p * log 2 p) \<le> p * log 2 n + (1 / n - p) / ln 2"
    and "- (p * log 2 p) = p * log 2 n + (1 / n - p) / ln 2 \<longleftrightarrow> p = 1 / n"
proof -
  have l: "ln (1 / (n * p)) = - ln p - ln n" using assms by (simp add: ln_div ln_mult)
  have e: "p * log 2 n + (1 / n - p) / ln 2 + p * log 2 p = (p * (1 / (n * p) - 1 - ln (1 / (n * p)))) / ln 2"
    unfolding l using assms by (simp add: log_def field_simps)
  define g where "g = 1 / (n * p) - 1 - ln (1 / (n * p))"
  have x: "0 < 1 / (n * p)" using assms by simp
  have g: "0 \<le> g" using ln_le_minus_one [OF x] by (simp add: g_def)
  have "g = 0 \<longleftrightarrow> 1 / (n * p) = 1" using ln_eq_minus_one [OF x] by (auto simp: g_def)
  then have z: "p * g = 0 \<longleftrightarrow> n * p = 1" using assms by (simp add: divide_eq_1_iff)
  have "0 \<le> p * g" using g assms(1) by simp
  note e = e [folded g_def]
  then have "0 \<le> p * log 2 n + (1 / n - p) / ln 2 + p * log 2 p"
    unfolding e using \<open>0 \<le> p * g\<close> by (intro divide_nonneg_nonneg) simp_all
  then show "- (p * log 2 p) \<le> p * log 2 n + (1 / n - p) / ln 2" by linarith
  have "p * log 2 n + (1 / n - p) / ln 2 + p * log 2 p = 0 \<longleftrightarrow> n * p = 1" unfolding e using z by simp
  then show "- (p * log 2 p) = p * log 2 n + (1 / n - p) / ln 2 \<longleftrightarrow> p = 1 / n"
    using assms by (auto simp: field_simps)
qed

lemma sum_shares:
  "(\<Sum>p\<leftarrow>ps. p * a + (b - p) / c + f p) = sum_list ps * a + (length ps * b - sum_list ps) / c + (\<Sum>p\<leftarrow>ps. f p)"
    for a b c :: real
  by (induction ps) (simp_all add: field_simps add_divide_distrib diff_divide_distrib)

lemma shares_bound:
  fixes ps :: "real list"
  assumes "\<And>p. p \<in> set ps \<Longrightarrow> 0 < p" and "sum_list ps = 1" and "ps \<noteq> []"
  defines "h \<equiv> - (\<Sum>p\<leftarrow>ps. p * log 2 p)"
  shows "0 \<le> h" and "h \<le> log 2 (length ps)" and "h = log 2 (length ps) \<longleftrightarrow> (\<forall>p\<in>set ps. p = 1 / length ps)"
proof -
  let ?n = "real (length ps)"
  let ?d = "\<lambda>p. p * log 2 ?n + (1 / ?n - p) / ln 2 + p * log 2 p"
  have n: "0 < ?n" using assms(3) by simp
  have le1: "p \<le> 1" if "p \<in> set ps" for p
    using member_le_sum_list [of p ps] that assms(1,2) by force
  have "p * log 2 p \<le> 0" if "p \<in> set ps" for p
    using le1 [OF that] assms(1) [OF that] by (simp add: mult_nonneg_nonpos)
  then have "sum_list (map (\<lambda>p. p * log 2 p) ps) \<le> 0" by (induction ps) force+
  then show "0 \<le> h" by (simp add: h_def)
  have "(\<Sum>p\<leftarrow>ps. ?d p) = sum_list ps * log 2 ?n + (length ps * (1 / ?n) - sum_list ps) / ln 2 + (\<Sum>p\<leftarrow>ps. p * log 2 p)"
    by (rule sum_shares)
  then have sd: "(\<Sum>p\<leftarrow>ps. ?d p) = log 2 ?n - h" using n assms(2) by (simp add: h_def)
  have pos: "0 \<le> ?d p" "?d p = 0 \<longleftrightarrow> p = 1 / ?n" if "p \<in> set ps" for p
    using share_bound [OF assms(1) [OF that] n] by (auto simp: eq_neg_iff_add_eq_0 algebra_simps)
  then have "0 \<le> (\<Sum>p\<leftarrow>ps. ?d p)" by (intro sum_list_nonneg) auto
  then show "h \<le> log 2 ?n" using sd by simp
  have "(\<Sum>p\<leftarrow>ps. ?d p) = 0 \<longleftrightarrow> (\<forall>p\<in>set ps. ?d p = 0)"
    using pos(1) by (subst sum_list_nonneg_eq_0_iff) auto
  then show "h = log 2 ?n \<longleftrightarrow> (\<forall>p\<in>set ps. p = 1 / ?n)" using sd pos(2) by auto
qed

lemma ratio_bounds: "0 < l \<Longrightarrow> 0 \<le> h \<Longrightarrow> h \<le> l \<Longrightarrow> 0 \<le> h / l \<and> h / l \<le> 1 \<and> (h / l = 1 \<longleftrightarrow> h = l)"
  for h l :: real
  by (auto simp: field_simps)

lemma equal_shares:
  fixes ps :: "real list"
  assumes "\<forall>p\<in>set ps. p = c" and "sum_list ps = 1" and "ps \<noteq> []"
  shows "\<forall>p\<in>set ps. p = 1 / length ps"
proof -
  have "sum_list ps = length ps * c" using assms(1) by (induction ps) (simp_all add: algebra_simps)
  then have "length ps * c = 1" using assms(2) by simp
  then have "c = 1 / length ps" using assms(3) by (auto simp: field_simps)
  then show ?thesis using assms(1) by simp
qed

lemma entropy_shares:
  assumes "mset first = mset second" and "0 < T" and "T < 2 ^ 63"
    and "T = sum_list (map snd first)" and "\<forall>v\<in>set (map snd first). T \<le> v * 10 ^ 6" and "2 \<le> length first"
  defines "ps \<equiv> map (\<lambda>v. v / T) (map snd second)"
  shows "CalcEntropy exact_ops first second = - (\<Sum>p\<leftarrow>ps. p * log 2 p) / log 2 (length ps)"
    and "\<And>p. p \<in> set ps \<Longrightarrow> 0 < p" and "sum_list ps = 1" and "length ps = length first"
proof -
  have "set first = set second" using assms(1) by (rule mset_eq_setD)
  then have set: "set (map snd first) = set (map snd second)" by simp
  have "sum_mset (mset (map snd first)) = sum_mset (mset (map snd second))" using assms(1) by simp
  then have sum: "sum_list (map snd second) = T" using assms(4) by (simp only: sum_mset_sum_list)
  then have tot: "entropy_total second = T" using assms(2,3) by (simp add: entropy_total_sum i64_id)
  have large: "T \<le> v * 10 ^ 6" if "v \<in> set (map snd second)" for v using assms(5) that unfolding set by blast
  have proba: "entropy_proba exact_ops T v = v / T" if "v \<in> set (map snd second)" for v
  proof -
    have "real_of_int T \<le> real_of_int (v * 10 ^ 6)" using large [OF that] by (simp only: of_int_le_iff)
    then have "\<not> v / T < 1 / 10 ^ 6" using assms(2) by (simp add: field_simps)
    then show ?thesis by (simp add: entropy_proba_def exact_ops_def)
  qed
  show len: "length ps = length first" using assms(1) by (simp add: ps_def) (metis size_mset)
  have "length first \<noteq> 0" "length first \<noteq> 1" using assms(6) by linarith+
  from exact_value [OF assms(1) this] show "CalcEntropy exact_ops first second = - (\<Sum>p\<leftarrow>ps. p * log 2 p) / log 2 (length ps)"
    by (simp add: tot ps_def proba comp_def cong: map_cong)
  show "0 < p" if "p \<in> set ps" for p
  proof -
    obtain v where v: "v \<in> set (map snd second)" "p = v / T" using \<open>p \<in> set ps\<close> by (auto simp: ps_def)
    then have "0 < v" using large [OF v(1)] assms(2) by (cases "0 < v") auto
    then show ?thesis using v(2) assms(2) by simp
  qed
  have "(\<Sum>v\<leftarrow>vs. real_of_int v / real_of_int T) = real_of_int (sum_list vs) / real_of_int T" for vs
    by (induction vs) (simp_all add: add_divide_distrib)
  from this [of "map snd second"] show "sum_list ps = 1" using assms(2) unfolding ps_def sum by simp
qed

section \<open>Properties\<close>

text \<open>
  Without rounding, \<^verbatim>\<open>CalcEntropy\<close> does not depend on the orders in which its two loops range over the map.
\<close>

theorem entropy_any_order:
  assumes "ranges m first" and "ranges m second" and "ranges m first'" and "ranges m second'"
  shows "CalcEntropy exact_ops first second = CalcEntropy exact_ops first' second'"
proof -
  have m: "mset first = mset second" "mset first' = mset second'" "mset second = mset second'"
    using assms ranges_mset by metis+
  then have len: "length first = length first'" by (metis size_mset)
  have tot: "entropy_total second = entropy_total second'"
    using m(3) by (metis entropy_total_sum mset_map sum_mset_sum_list)
  have sum: "(\<Sum>v\<leftarrow>map snd second. f v) = (\<Sum>v\<leftarrow>map snd second'. f v)" for f :: "int \<Rightarrow> real"
    using m(3) by (metis mset_map sum_mset_sum_list)
  show ?thesis
  proof (cases "length first = 0 \<or> length first = 1")
    case True
    then show ?thesis using len by (auto simp: CalcEntropy_def)
  next
    case False
    moreover have "length second = length second'" using m(3) by (metis size_mset)
    ultimately show ?thesis using exact_value [OF m(1)] exact_value [OF m(2)] len tot sum by simp
  qed
qed

text \<open>
  C30: Without rounding, the entropy of counts whose sum fits in 64 bits and each of which is at least a
  millionth of the sum is between 0 and 1, and it is 1 exactly when all the counts are equal.
\<close>

theorem entropy_bounds:
  assumes "ranges m first" and "ranges m second"
    and "T = sum_list (map snd first)" and "0 < T" and "T < 2 ^ 63" and "\<forall>v\<in>set (map snd first). T \<le> v * 10 ^ 6"
  shows "0 \<le> CalcEntropy exact_ops first second \<and> CalcEntropy exact_ops first second \<le> 1
    \<and> (CalcEntropy exact_ops first second = 1 \<longleftrightarrow> (\<exists>c. \<forall>v\<in>set (map snd first). v = c))"
proof (cases "2 \<le> length first")
  case True
  let ?ps = "map (\<lambda>v. real_of_int v / real_of_int T) (map snd second)"
  have m: "mset first = mset second" using assms(1,2) by (rule ranges_mset)
  note sh = entropy_shares [OF m assms(4,5,3,6) True]
  have ne: "?ps \<noteq> []" using sh(4) True by auto
  note sb = shares_bound [OF sh(2,3) ne]
  have "1 < real (length ?ps)" using sh(4) True by simp
  then have l: "0 < log 2 (real (length ?ps))" by (simp only: zero_less_log_cancel_iff)
  have "(\<forall>p\<in>set ?ps. p = 1 / real (length ?ps)) \<longleftrightarrow> (\<exists>c. \<forall>v\<in>set (map snd second). v = c)"
  proof
    assume eq: "\<forall>p\<in>set ?ps. p = 1 / real (length ?ps)"
    have "v = v'" if "v \<in> set (map snd second)" "v' \<in> set (map snd second)" for v v'
    proof -
      have "real_of_int v / real_of_int T \<in> set ?ps" "real_of_int v' / real_of_int T \<in> set ?ps"
        using that unfolding set_map by blast+
      then have "real_of_int v / real_of_int T = real_of_int v' / real_of_int T" using eq by metis
      then show ?thesis using assms(4) by simp
    qed
    then show "\<exists>c. \<forall>v\<in>set (map snd second). v = c" by blast
  next
    assume "\<exists>c. \<forall>v\<in>set (map snd second). v = c"
    then obtain c where "\<forall>p\<in>set ?ps. p = real_of_int c / real_of_int T" by auto
    then show "\<forall>p\<in>set ?ps. p = 1 / real (length ?ps)" using equal_shares [OF _ sh(3) ne] by blast
  qed
  moreover have "set first = set second" using m by (rule mset_eq_setD)
  then have "set (map snd first) = set (map snd second)" by simp
  ultimately show ?thesis unfolding sh(1) using ratio_bounds [OF l sb(1,2)] sb(3) by (simp only: simp_thms)
next
  case False
  moreover have "first \<noteq> []" using assms(3,4) by auto
  ultimately have "length first = 1" by (cases "length first") auto
  then obtain x where "first = [x]" by (auto simp: length_Suc_conv)
  then show ?thesis by (simp add: CalcEntropy_def exact_ops_def)
qed

text \<open>
  The floor under the shares makes \<^verbatim>\<open>CalcEntropy\<close> exceed 1, even without rounding: for a map with two
  million and more equal counts it is above \<open>3 / 2\<close>.
\<close>

theorem entropy_above_one:
  "3 / 2 < CalcEntropy exact_ops (map (\<lambda>k. (k, 1)) [0..<2 ^ 21]) (map (\<lambda>k. (k, 1)) [0..<2 ^ 21])"
proof -
  let ?m = "map (\<lambda>k. (k, 1 :: int)) [0..<2 ^ 21]"
  have len: "length ?m = 2 ^ 21" by simp
  have vals: "map snd ?m = replicate (2 ^ 21) 1" by (simp add: comp_def map_replicate_const)
  have tot: "entropy_total ?m = 2 ^ 21" unfolding entropy_total_sum vals by (simp add: sum_list_replicate i64_id)
  have proba: "entropy_proba exact_ops (2 ^ 21) 1 = 1 / 10 ^ 6"
    unfolding entropy_proba_def exact_ops_def by (simp add: Let_def)
  have "length ?m \<noteq> 0" "length ?m \<noteq> 1" unfolding len by simp_all
  from exact_value [OF refl this] have "CalcEntropy exact_ops ?m ?m = - (2 ^ 21 * (1 / 10 ^ 6 * log 2 (1 / 10 ^ 6))) / log 2 (2 ^ 21)"
    unfolding len tot vals map_replicate sum_list_replicate by (simp only: proba of_nat_power of_nat_numeral)
  moreover have "log 2 (1 / 10 ^ 6) = - log 2 (10 ^ 6)" by (simp add: log_divide)
  moreover have "19 \<le> log 2 (10 ^ 6 :: real)" by (simp add: le_log_iff powr_numeral)
  moreover have "log 2 (2 ^ 21 :: real) = 21" by (simp only: log_pow_cancel)
  ultimately show ?thesis by simp
qed

section \<open>Runs\<close>

definition two_counts :: "(nat \<times> int) list" where
  "two_counts = [(0, 1), (1, 3)]"

theorem entropy_any_order_witness:
  "CalcEntropy exact_ops two_counts two_counts = CalcEntropy exact_ops (rev two_counts) two_counts"
  by (rule entropy_any_order [of "map_of two_counts"]) (auto simp: ranges_def two_counts_def)

theorem entropy_bounds_witness:
  "0 \<le> CalcEntropy exact_ops two_counts (rev two_counts) \<and> CalcEntropy exact_ops two_counts (rev two_counts) < 1"
proof -
  have "ranges (map_of two_counts) two_counts" "ranges (map_of two_counts) (rev two_counts)"
    by (auto simp: ranges_def two_counts_def)
  from entropy_bounds [OF this, of 4] have
    "0 \<le> CalcEntropy exact_ops two_counts (rev two_counts)" "CalcEntropy exact_ops two_counts (rev two_counts) \<le> 1"
    "CalcEntropy exact_ops two_counts (rev two_counts) = 1 \<longleftrightarrow> (\<exists>c. \<forall>v\<in>set (map snd two_counts). v = c)"
    by (simp_all add: two_counts_def)
  moreover have "\<not> (\<exists>c. \<forall>v\<in>set (map snd two_counts). v = c)" by (simp add: two_counts_def)
  ultimately show ?thesis by (simp add: less_le)
qed

end
