(* ===== verification/P2CHealth.thy ===== *)
theory P2CHealth
  imports P2C Complex_Main
begin

text \<open>
  The moving averages of \<open>P2C\<close> when its floating-point terms are computed with real numbers: the terms of
  \<^verbatim>\<open>buildCallback\<close> and \<^verbatim>\<open>load\<close> without rounding, but with the conversions to integers, which cut off the fraction.
  The health of a connection is the average of its successes.
\<close>

section \<open>Exact terms\<close>

definition decayTime :: int where "decayTime = 10 * 1000000000"

definition exact_terms :: "real float_ops" where
  "exact_terms =
     \<lparr>foSqrt = (\<lambda>x. \<lfloor>sqrt (real_of_int (uint x))\<rfloor>),
      foDecay = (\<lambda>td. exp (real_of_int (- td) / real_of_int decayTime)),
      foZero = 0,
      foMean = (\<lambda>w old new. word_of_int \<lfloor>real_of_int (uint old) * w + real_of_int new * (1 - w)\<rfloor>)\<rparr>"

text \<open>The reports of the calls on a connection, one after another: start, completion and status of each.\<close>

fun p2c_reports :: "'f float_ops \<Rightarrow> (int \<times> int \<times> grpc_code option) list \<Rightarrow> 'c p2c_conn \<Rightarrow> 'c p2c_conn" where
  "p2c_reports fo [] c = c"
| "p2c_reports fo ((start, now, err) # rs) c = p2c_reports fo rs (p2c_finish fo start now err c)"

text \<open>Each report comes less than ten milliseconds after the one before; a call takes some time.\<close>

fun close_reports :: "int \<Rightarrow> (int \<times> int \<times> grpc_code option) list \<Rightarrow> bool" where
  "close_reports prev [] \<longleftrightarrow> True"
| "close_reports prev ((start, now, err) # rs) \<longleftrightarrow>
     prev < now \<and> now < prev + 10000000 \<and> 0 \<le> start \<and> start < now \<and> now < 2 ^ 63 \<and> close_reports now rs"

fun failed_call :: "int \<times> int \<times> grpc_code option \<Rightarrow> bool" where
  "failed_call (start, now, Some code) = (\<not> Acceptable code)"
| "failed_call (start, now, None) = False"

section \<open>Facts\<close>

lemma mean_between:
  fixes w a b :: real
  assumes "0 \<le> w" and "w \<le> 1"
  shows "min a b \<le> a * w + b * (1 - w)" and "a * w + b * (1 - w) \<le> max a b"
proof -
  have "min a b * w + min a b * (1 - w) \<le> a * w + b * (1 - w)"
    using assms by (intro add_mono mult_right_mono) simp_all
  then show "min a b \<le> a * w + b * (1 - w)" by (simp add: algebra_simps)
  have "a * w + b * (1 - w) \<le> max a b * w + max a b * (1 - w)"
    using assms by (intro add_mono mult_right_mono) simp_all
  then show "a * w + b * (1 - w) \<le> max a b" by (simp add: algebra_simps)
qed

lemma exact_mean:
  assumes "0 \<le> w" and "w \<le> 1" and "0 \<le> new" and "new < 2 ^ 64"
  shows "uint (foMean exact_terms w old new) = \<lfloor>real_of_int (uint old) * w + real_of_int new * (1 - w)\<rfloor>"
    and "min (uint old) new \<le> uint (foMean exact_terms w old new)"
    and "uint (foMean exact_terms w old new) \<le> max (uint old) new"
proof -
  let ?x = "real_of_int (uint old) * w + real_of_int new * (1 - w)"
  note between = mean_between [OF assms(1,2), of "real_of_int (uint old)" "real_of_int new"]
  have lo: "min (uint old) new \<le> \<lfloor>?x\<rfloor>" using between(1) unfolding le_floor_iff of_int_min .
  have hi: "\<lfloor>?x\<rfloor> \<le> max (uint old) new" 
    using floor_mono [OF between(2)] unfolding of_int_max [symmetric] floor_of_int .
  have "0 \<le> min (uint old) new" "max (uint old) new < 2 ^ 64" using assms(3,4) uint_lt2p [of old] by simp_all
  then have range: "0 \<le> \<lfloor>?x\<rfloor>" "\<lfloor>?x\<rfloor> < 2 ^ 64" using lo hi by linarith+
  then show eq: "uint (foMean exact_terms w old new) = \<lfloor>?x\<rfloor>"
    by (simp add: exact_terms_def uint_word_of_int take_bit_int_eq_self)
  show "min (uint old) new \<le> uint (foMean exact_terms w old new)"
    "uint (foMean exact_terms w old new) \<le> max (uint old) new"
    unfolding eq by (fact lo hi)+
qed

lemma exact_decay: "0 \<le> td \<Longrightarrow> 0 < foDecay exact_terms td \<and> foDecay exact_terms td \<le> 1"
  by (simp add: exact_terms_def decayTime_def)

lemma exact_decay_close: "td < 10000000 \<Longrightarrow> 1000 * (1 - foDecay exact_terms td) < 1"
proof -
  assume td: "td < 10000000"
  define q where "q = real_of_int td / real_of_int decayTime"
  have "1 + (- q) \<le> foDecay exact_terms td"
    using exp_ge_add_one_self [of "- q"] by (simp add: exact_terms_def q_def)
  moreover have "1000 * q < 1" using td by (simp add: q_def decayTime_def)
  ultimately show ?thesis by argo
qed

text \<open>What a report makes of the two averages, for readings of the clock that do not go back or overflow.\<close>

lemma finish_close:
  fixes err :: "grpc_code option"
  assumes "0 \<le> pcLast c" and "pcLast c < now" and "now < pcLast c + 10000000" and "0 \<le> start" and "start < now" and "now < 2 ^ 63"
    and "pcLatency c \<noteq> 0" and "uint (pcSuccess c) \<le> 1000"
  defines "c' \<equiv> p2c_finish exact_terms start now err c"
  shows "pcLast c' = now" and "pcLatency c' \<noteq> 0"
    and "uint (pcSuccess c') \<le> (if failed_call (start, now, err) then max 0 (uint (pcSuccess c) - 1) else uint (pcSuccess c))"
proof -
  let ?td = "now - pcLast c" and ?s = "uint (pcSuccess c)"
  let ?w = "foDecay exact_terms ?td"
  have td: "max 0 (i64 (now - pcLast c)) = ?td" "max 0 (i64 (now - start)) = now - start"
    using assms(1-6) by (simp_all add: i64_id)
  show "pcLast c' = now" by (simp add: c'_def p2c_finish_def Let_def)
  have w: "0 < ?w" "?w \<le> 1" "?w < 1" "1000 * (1 - ?w) < 1"
    using assms(2,3) exact_decay [of ?td] exact_decay_close [of ?td]
    by (simp_all add: exact_terms_def decayTime_def)
  have lat: "pcLatency c' = foMean exact_terms ?w (pcLatency c) (now - start)"
    using assms(7) td by (simp add: c'_def p2c_finish_def Let_def)
  have "uint (pcLatency c) \<noteq> 0" using assms(7) by (simp add: uint_0_iff)
  then have "1 \<le> uint (pcLatency c)" using uint_ge_0 [of "pcLatency c"] by linarith
  then have "1 \<le> min (uint (pcLatency c)) (now - start)" using assms(5) by simp
  also have "\<dots> \<le> uint (pcLatency c')" unfolding lat using w assms(4-6) by (intro exact_mean(2)) simp_all
  finally have "1 \<le> uint (pcLatency c')" .
  then show "pcLatency c' \<noteq> 0" by auto
  define new where "new = (if failed_call (start, now, err) then 0 else initSuccess)"
  have suc: "pcSuccess c' = foMean exact_terms ?w (pcSuccess c) new"
    using assms(7) td by (cases err) (simp_all add: c'_def new_def p2c_finish_def Let_def)
  define s where "s = uint (pcSuccess c)"
  have s0: "0 \<le> s" by (simp add: s_def)
  have val: "uint (pcSuccess c') = \<lfloor>real_of_int s * ?w + real_of_int new * (1 - ?w)\<rfloor>"
    unfolding suc s_def using w by (intro exact_mean(1)) (simp_all add: new_def initSuccess_def)
  have le: "real_of_int s * ?w \<le> real_of_int s * 1" using w s0 by (intro mult_left_mono) simp_all
  show "uint (pcSuccess c') \<le> (if failed_call (start, now, err) then max 0 (uint (pcSuccess c) - 1) else uint (pcSuccess c))"
  proof (cases "failed_call (start, now, err)")
    case True
    have "\<lfloor>real_of_int s * ?w\<rfloor> \<le> max 0 (s - 1)"
    proof (cases "0 < s")
      case True
      then have "real_of_int s * ?w < real_of_int s" using w by simp
      then have "\<lfloor>real_of_int s * ?w\<rfloor> < s" by (simp only: floor_less_iff)
      then show ?thesis by simp
    next
      case False
      then show ?thesis using s0 by simp
    qed
    then show ?thesis using True by (simp add: val new_def flip: s_def)
  next
    case False
    have "real_of_int s * ?w + 1000 * (1 - ?w) < real_of_int s + 1" using le w(4) by argo
    then have "\<lfloor>real_of_int s * ?w + 1000 * (1 - ?w)\<rfloor> \<le> s" by (simp add: floor_le_iff)
    then show ?thesis using False by (simp add: val new_def initSuccess_def flip: s_def)
  qed
qed

lemma finish_success_bounded:
  assumes "uint (pcSuccess c) \<le> 1000"
  shows "uint (pcSuccess (p2c_finish exact_terms start now err c)) \<le> 1000"
proof -
  define td where "td = max 0 (i64 (now - pcLast c))"
  define w where "w = (if pcLatency c \<noteq> 0 then foDecay exact_terms td else foZero exact_terms)"
  define new where "new = (case err of None \<Rightarrow> initSuccess | Some code \<Rightarrow> if Acceptable code then initSuccess else 0)"
  have "0 \<le> td" by (simp add: td_def)
  then have w: "0 \<le> w \<and> w \<le> 1" using exact_decay [of td] by (simp add: w_def) (simp add: exact_terms_def)
  have "uint (foMean exact_terms w (pcSuccess c) new) \<le> max (uint (pcSuccess c)) new"
    using w by (intro exact_mean(3)) (auto simp: new_def initSuccess_def split: option.splits)
  also have "\<dots> \<le> 1000" using assms by (simp add: new_def initSuccess_def split: option.splits)
  finally have "uint (foMean exact_terms w (pcSuccess c) new) \<le> 1000" .
  moreover have "pcSuccess (p2c_finish exact_terms start now err c) = foMean exact_terms w (pcSuccess c) new"
    unfolding p2c_finish_def Let_def w_def td_def new_def by simp
  ultimately show ?thesis by simp
qed

lemma success_Pick:
  fixes p :: "'b p2c_picker"
  assumes "p2c_Pick fo p i = (r, p')"
  shows "map pcSuccess (ppConnections p') = map pcSuccess (ppConnections p)"
proof -
  have set_pick: "map pcSuccess (set_pick k t cs) = map pcSuccess cs" for k t and cs :: "'b p2c_conn list"
    by (cases "k < length cs") (simp_all add: set_pick_def map_update list_update_same_conv list_update_beyond)
  have callback: "map pcSuccess (p2c_buildCallback k cs) = map pcSuccess cs" for k and cs :: "'b p2c_conn list"
    by (cases "k < length cs") (simp_all add: p2c_buildCallback_def map_update list_update_same_conv list_update_beyond)
  have choose: "map pcSuccess (snd (p2c_choose fo t c1 c2 cs)) = map pcSuccess cs" for t c1 c2 and cs :: "'b p2c_conn list"
    by (auto simp: p2c_choose_def Let_def set_pick split: option.split)
  show ?thesis
    using assms choose [of "snd i" _ _ "ppConnections p"]
    by (auto simp: p2c_Pick_def Let_def callback split: if_splits prod.splits) (metis snd_conv)+
qed

lemma bounded_map:
  assumes "map pcSuccess cs' = map pcSuccess cs" and "\<forall>c\<in>set cs. uint (pcSuccess c) \<le> 1000"
  shows "\<forall>c\<in>set cs'. uint (pcSuccess c) \<le> 1000"
proof -
  have "list_all (\<lambda>x. uint x \<le> 1000) (map pcSuccess cs)" using assms(2) by (simp add: list_all_iff)
  then have "list_all (\<lambda>x. uint x \<le> 1000) (map pcSuccess cs')" using assms(1) by simp
  then show ?thesis by (simp add: list_all_iff)
qed

lemma success_Done:
  fixes p :: "'a p2c_picker"
  assumes "p2c_Done exact_terms call now err p = (pa, p')" and "\<forall>c\<in>set (ppConnections p). uint (pcSuccess c) \<le> 1000"
  shows "\<forall>c\<in>set (ppConnections p'). uint (pcSuccess c) \<le> 1000"
proof -
  obtain k start where call: "call = (k, start)" by force
  let ?cs = "(ppConnections p)[k := p2c_finish exact_terms start now err (ppConnections p ! k)]"
  have "\<forall>c\<in>set ?cs. uint (pcSuccess c) \<le> 1000"
  proof (cases "k < length (ppConnections p)")
    case True
    then have "uint (pcSuccess (p2c_finish exact_terms start now err (ppConnections p ! k))) \<le> 1000"
      using assms(2) by (intro finish_success_bounded) simp
    then show ?thesis using assms(2) set_update_subset_insert [of "ppConnections p" k] by blast
  qed (use assms(2) in \<open>simp add: list_update_beyond\<close>)
  moreover have "map pcSuccess (ppConnections p') = map pcSuccess ?cs"
  proof -
    have stamp: "map pcSuccess (ppConnections (snd (p2c_stamp now q))) = map pcSuccess (ppConnections q)" for q :: "'a p2c_picker"
      by (auto simp: p2c_stamp_def p2c_logStats_def Let_def CompareAndSwap_def)
    have "p' = snd (p2c_stamp now (p\<lparr>ppConnections := ?cs\<rparr>))"
      using assms(1) call by (simp add: p2c_Done_def Let_def)
    then show ?thesis using stamp [of "p\<lparr>ppConnections := ?cs\<rparr>"] by simp
  qed
  ultimately show ?thesis by (rule bounded_map [rotated])
qed

section \<open>Properties\<close>

text \<open>
  Computed exactly, the success of a connection stays between 0 and 1000, whatever calls are made and however
  they end and report back.
\<close>

theorem p2c_success_bounded:
  assumes "trace (p2c_step exact_terms) (p2c_start f ready) ls s" and "c \<in> set (ppConnections (prPicker s))"
  shows "uint (pcSuccess c) \<le> 1000"
proof -
  have "\<forall>c\<in>set (ppConnections (prPicker s)). uint (pcSuccess c) \<le> 1000"
    using assms(1)
  proof (rule trace_invariant [where P = "\<lambda>ls s. \<forall>c\<in>set (ppConnections (prPicker s)). uint (pcSuccess c) \<le> 1000"])
    show "\<forall>c\<in>set (ppConnections (prPicker (p2c_start f ready))). uint (pcSuccess c) \<le> 1000"
      by (auto simp: p2c_start_def p2c_Build_def initSuccess_def)
  next
    fix ls :: "p2c_event list" and s t :: "'a p2c_run" and e
    assume IH: "\<forall>c\<in>set (ppConnections (prPicker s)). uint (pcSuccess c) \<le> 1000" and "p2c_step exact_terms s e t"
    from this(2) show "\<forall>c\<in>set (ppConnections (prPicker t)). uint (pcSuccess c) \<le> 1000"
    proof cases
      case (p2c_picked i k p start)
      show ?thesis using bounded_map [OF success_Pick [OF p2c_picked(4)] IH] p2c_picked(2) by simp
    next
      case (p2c_fails i err p)
      show ?thesis using bounded_map [OF success_Pick [OF p2c_fails(3)] IH] p2c_fails(2) by simp
    next
      case (p2c_done cs call cs' now err p)
      show ?thesis using success_Done [OF p2c_done(4) IH] p2c_done(2) by simp
    qed
  qed
  then show ?thesis using assms(2) by blast
qed



section \<open>Runs\<close>

definition busy_conn :: "nat p2c_conn" where
  "busy_conn =
     \<lparr>pcSubConn = 0, pcAddress = \<lparr>addrAddr = [], addrAttrs = Map.empty\<rparr>, pcLatency = 50, pcSuccess = 600, pcInflight = 0,
      pcRequests = 0, pcLast = 100, pcPick = 0, pcName = []\<rparr>"

theorem p2c_success_bounded_witness:
  "list_all (\<lambda>c. uint (pcSuccess c) \<le> 1000) (ppConnections (p2c_Build None two_ready))"
proof -
  have "ppConnections (prPicker (p2c_start None two_ready)) = ppConnections (p2c_Build None two_ready)"
    by (simp add: p2c_start_def)
  then show ?thesis using p2c_success_bounded [OF trace_Nil, of _ None two_ready] by (simp add: list_all_iff)
qed


end
