(* ===== verification/Spec2Isabelle.thy ===== *)
theory Spec2Isabelle
  imports RpcClient RoundRobin RandomPicker LeastActive StaticPickers Buckets RedisLimit Micro Cluster P2C RandomText Tracing RpcLife Discovery Example ExampleFleet ExampleCalls ServerLimit Entropy P2CHealth
begin

text \<open>
  A verification development for emicro, a micro-service framework in Go: an RPC protocol of its own
  (\<^verbatim>\<open>rpc\<close>), and on top of gRPC a registry of services, a resolver, load balancers, cluster calls and
  rate limiters.

  Parts of the program and where they are modelled:

  \<^item> \<open>Emicro_Prelude\<close> has the values of Go (byte slices with their bounds checks, fixed-width
    integers, panics as values), the notion of a \<open>trace\<close> of a step relation and the shared lemmas;
    \<open>Errs\<close> the errors (\<^verbatim>\<open>internal/errs\<close>). \<open>GoJson\<close> is what the code uses of \<^verbatim>\<open>encoding/json\<close>: the scanner with its
    errors, and the coding of structs of strings and numbers.
  \<^item> The RPC protocol. \<open>Message\<close>: requests and responses on the wire (\<^verbatim>\<open>rpc/message\<close>), with every
    index and slice operation of the code as a step that may panic. \<open>Codec\<close>: compressors and serializers.
    \<open>RpcTypes\<close>: call contexts and the reader. \<open>RpcServer\<close>: registration, dispatch by reflection, the
    loop of a connection and of the listener (\<^verbatim>\<open>rpc/server.go\<close>); \<open>RpcLife\<close>: its \<^verbatim>\<open>Start\<close> and \<^verbatim>\<open>Close\<close> among the
    clients that connect. \<open>RpcClient\<close>: the functions that the client generates, the exchange over a pooled connection and the goroutine of a call
    (\<^verbatim>\<open>rpc/client.go\<close>). A call goes: function field, request, \<open>EncodeReq\<close>, connection,
    \<open>DecodeReq\<close>, dispatch, \<open>EncodeResp\<close>, \<open>DecodeResp\<close>, results.
  \<^item> Discovery. \<open>Registry\<close>: the registry on etcd (\<^verbatim>\<open>registry\<close>), its operations on a state of the cluster
    and the goroutine of a subscription. \<open>Resolver\<close>: lookups and events turned into addresses for gRPC
    (\<^verbatim>\<open>resolver.go\<close>). \<open>Discovery\<close>: these two with the subscription between them, and etcd, as one system. \<open>Micro\<close>: the server that registers itself and the client that dials
    (\<^verbatim>\<open>server.go\<close>, \<^verbatim>\<open>client.go\<close>).
  \<^item> Load balancing (\<^verbatim>\<open>loadbalance\<close>). \<open>Balancer\<close>: addresses, group filters and the contract of a picker.
    \<open>RoundRobin\<close>, \<open>WeightRoundRobin\<close>, \<open>RandomPicker\<close>, \<open>LeastActive\<close>, \<open>P2C\<close> (the power of two
    choices, on the clock and the atomic duration of \<open>Clock\<close>; \<open>P2CHealth\<close>: its averages computed exactly), \<open>StaticPickers\<close> (hash and fastest, with the loop that
    refreshes the response times): one group per picker, its state, its builder, \<^verbatim>\<open>Pick\<close> and \<^verbatim>\<open>Done\<close>. The
    addresses come from the resolver. \<open>PickerNames\<close>: the names under which gRPC finds them.
  \<^item> \<open>Cluster\<close>: the calls to all instances (\<^verbatim>\<open>cluster/broadcast\<close>, \<^verbatim>\<open>cluster/broadcastall\<close>,
    \<^verbatim>\<open>cluster/fastest\<close>): the interceptors, and their goroutines as step relations.
  \<^item> Rate limiting (\<^verbatim>\<open>ratelimit\<close>). \<open>RateLimit\<close>: rejection, the limiter of one method, fixed and sliding
    window. \<open>ServerLimit\<close>: the windows as a server uses them, alone and around one method. \<open>Buckets\<close>: token and leaky
    bucket. \<open>RedisLimit\<close>: the limiters on Redis and their scripts.
  \<^item> Around them. \<open>Metrics\<close>: the Prometheus interceptors with the declaration of their metrics
    (\<^verbatim>\<open>observability/metrics/prometheus\<close>). \<open>Tracing\<close>: those of OpenTelemetry (\<^verbatim>\<open>observability/opentelemetry\<close>), with the
    headers of \<^verbatim>\<open>net/http\<close> that carry a trace. \<open>RandomText\<close>: random strings (\<^verbatim>\<open>internal/utils/xstring\<close>).
    \<open>Entropy\<close>: the entropy of counts (\<^verbatim>\<open>internal/utils/xmath\<close>). \<open>Clock\<close>: the wrappers of the package \<^verbatim>\<open>time\<close> and the
    atomic duration (\<^verbatim>\<open>internal/utils/xtime\<close>, \<^verbatim>\<open>internal/utils/xsync\<close>).
  \<^item> The programs of \<^verbatim>\<open>example\<close>. \<open>Example\<close>: the server and the client of the RPC framework, run against one another.
    \<open>ExampleFleet\<close>: the servers that the other examples start in goroutines; \<open>ExampleCalls\<close>: their handlers and their
    clients, and a client's broadcasts over such a fleet.

  What the lemmas show:

  \<^item> The encoders and decoders agree with closed forms, from which come the round trips, the cutting of
    a stream into frames and the exact condition under which each of them panics.
  \<^item> The server answers each frame once and in order, and a request for a registered method gets its
    result; which requests panic is characterised. The lemmas on the client follow one call through and
    find that its argument is lost and that a successful answer panics.
  \<^item> The example of the RPC framework is followed from \<^verbatim>\<open>main\<close> to the panic it ends in, through every layer.
  \<^item> The registry refines a map (locale \<open>service_registry\<close>, interpreted on the operations on etcd), the
    resolver follows it, and the weight and group of an instance reach the pickers. The system of \<open>Discovery\<close> keeps
    the invariant that the addresses are those registered or something is in transit, and a measure shows that
    what is in transit arrives. A fleet of servers is registered as long as it serves (locale \<open>fleet\<close>).
  \<^item> Each picker is shown to choose only among the usable connections (locale \<open>picker\<close>, interpreted on
    each of them) and to share the calls as it should: exactly, up to wrap-around, or not at all.
  \<^item> The limiters have bounds on what they admit: by credits for the buckets (locale \<open>metered\<close>), by the
    queue for the sliding window; the fixed window is shown never to reset. Whatever limits one method (locale
    \<open>server_limiter\<close>, interpreted on both windows) leaves the calls of the others alone.
  \<^item> The cluster calls have invariants that count the goroutines by where they are.
  \<^item> The properties of this theory span the parts: from a registration to the share of the calls an
    instance gets, and from a registration to a broadcast. \<open>ExampleCalls\<close> goes from servers that start and stop to the
    hundred broadcasts of a client.

  Code that is not in the repository is a parameter: gzip, the registry of Prometheus, tracers and propagators, protobuf
  and the values that JSON fills beyond structs of strings and numbers (fields of records of functions), etcd
  and Redis (functions on a state of the service), \<^verbatim>\<open>errgroup\<close>, the pool of connections, gRPC (results of dialing,
  listening, serving and of calls) and reflection on user types (a table of methods). What the code relies on is in a
  predicate of laws of their documented behaviour, and each property that has such a law is also applied to a
  concrete instance. Of the standard library, JSON text, headers, decimal numbers, channels and listeners are
  modelled as the code uses them. Random numbers and clock readings are inputs, the floating-point operations of the
  p2c picker and of the entropy parameters; the properties of the entropy and of the averages of the picker are those
  of exact arithmetic, with the conversions to integers.

  Bounds: a slice length is below 2 to the 63; a message id, a weight and a counter are words of 32
  bits and wrap; \<^verbatim>\<open>int64\<close> arithmetic goes through \<open>i64\<close>. A loop that may not end is a step relation,
  a function of the finite list of what it reads, or (in \<open>RandomText\<close>) a partial function whose value
  \<open>None\<close> means that it does not return; no fuel is used.

  Not modelled: the generated code and the mocks (\<^verbatim>\<open>proto\<close>, \<^verbatim>\<open>registry/mocks\<close>, \<^verbatim>\<open>registry/etcd/mocks\<close>);
  \<^verbatim>\<open>integration\<close>, which holds tests, like the rest of the examples of load balancing and of the registry; the rounding of
  floating-point numbers; declarations without behaviour (interfaces, option types).
\<close>

section \<open>Facts on the parts together\<close>

text \<open>The addresses that a client gets for what a lookup has found.\<close>

definition dialed :: "(service_instance \<Rightarrow> 'c) \<Rightarrow> service_instance list \<Rightarrow> ('c \<times> address) list" where
  "dialed dial is = map (\<lambda>i. (dial i, address.truncate (newAddress i))) is"

definition group_call :: "go_string \<Rightarrow> pick_info" where
  "group_call g = \<lparr>piGroup = Some (AttrString g)\<rparr>"

lemma rr_usable_dialed:
  "rr_usable (rr_Build (Some GroupFilter) (dialed dial is)) (group_call g) =
     filter (\<lambda>k. siGroup (is ! k) = g) [0..<length is]"
proof -
  have "map rrAddress (rrConnections (rr_Build (Some GroupFilter) (dialed dial is))) = map (address.truncate \<circ> newAddress) is"
    by (simp add: rr_Build_def dialed_def)
  then have "rr_usable (rr_Build (Some GroupFilter) (dialed dial is)) (group_call g) =
      candidates GroupFilter (group_call g) (map (address.truncate \<circ> newAddress) is)"
    by (simp add: rr_usable_def) (simp add: rr_Build_def built_filter_def)
  also have "\<dots> = filter (\<lambda>k. siGroup (is ! k) = g) [0..<length is]"
    unfolding candidates_def length_map
    by (rule filter_cong) (auto simp: GroupFilter_def group_call_def)
  finally show ?thesis .
qed

lemma length_filter_nth: "length (filter (\<lambda>k. P (xs ! k)) [0..<length xs]) = length (filter P xs)"
proof -
  have "filter P xs = map ((!) xs) (filter (\<lambda>k. P (xs ! k)) [0..<length xs])"
    using filter_map [of P "(!) xs" "[0..<length xs]"] by (simp add: map_nth comp_def)
  then show ?thesis by (metis length_map)
qed

lemma found_at:
  assumes "etcd_laws e content" and "content d = Map.empty"
    and "list_all (plain_instance \<circ> op_instance) ops" and "reg_run e ops d = Some d'"
    and "ListServices e name d' = Inr is"
    and "registered ops (instanceKey i) = Some i" and "prefix name (siName i)"
  obtains k where "k < length is" "is ! k = i"
proof -
  have "prefix (serviceKey name) (instanceKey i)"
    using assms(7) by (auto simp: serviceKey_def instanceKey_def prefix_def)
  then have "i \<in> set is" using reg_run_lists [OF assms(1-5)] listed_registered [OF assms(6)] by simp
  then show thesis using that by (auto simp: in_set_conv_nth)
qed

lemma count_list_distinct: "distinct xs \<Longrightarrow> count_list xs x = (if x \<in> set xs then 1 else 0)"
  by (induction xs) auto

section \<open>Properties\<close>

text \<open>
  C2: From the registry to the picker: when a client looks a service up and balances its calls for a group by
  round robin over the addresses it was given, \<open>m\<close> full rounds of calls send exactly \<open>m\<close> of them to every
  instance that is registered for the service in that group, whatever was registered and unregistered before.
\<close>

theorem registered_instances_share_calls:
  assumes "etcd_laws e content" and "content d = Map.empty"
    and "list_all (plain_instance \<circ> op_instance) ops" and "reg_run e ops d = Some d'"
    and "ListServices e name d' = Inr is"
    and "registered ops (instanceKey i) = Some i" and "siName i = name" and "siGroup i = g"
    and "length is < 2 ^ 64" and "m * length (filter (\<lambda>j. siGroup j = g) is) \<le> 2 ^ 64"
  shows "\<exists>k. k < length is \<and> is ! k = i \<and>
    count_list (rr.picks (rr_Build (Some GroupFilter) (dialed dial is))
      (replicate (m * length (filter (\<lambda>j. siGroup j = g) is)) (group_call g))) (Inr k) = m"
proof -
  let ?p = "rr_Build (Some GroupFilter) (dialed dial is)"
  let ?us = "filter (\<lambda>k. siGroup (is ! k) = g) [0..<length is]"
  have "prefix name (siName i)" using assms(7) by simp
  then obtain k where k: "k < length is" "is ! k = i" by (rule found_at [OF assms(1-6)])
  have "count_list (rr.picks ?p (replicate (m * length (filter (\<lambda>j. siGroup j = g) is)) (group_call g))) (Inr k) = m"
  proof (rule rr_rounds [where us = ?us])
    show "rr_fits ?p" using assms(9) by (simp add: rr_fits_def rr_Build_def dialed_def)
    show "k \<in> set ?us" using k assms(8) by simp
    show "list_all (\<lambda>info. rr_usable ?p info = ?us) (replicate (m * length (filter (\<lambda>j. siGroup j = g) is)) (group_call g))"
      by (simp add: list_all_iff rr_usable_dialed)
    show "length (replicate (m * length (filter (\<lambda>j. siGroup j = g) is)) (group_call g)) = m * length ?us"
      by (simp add: length_filter_nth [of "\<lambda>j. siGroup j = g"])
    show "unat (rrCnt ?p) + length (replicate (m * length (filter (\<lambda>j. siGroup j = g) is)) (group_call g)) \<le> 2 ^ 64"
      using assms(10) by (simp add: rr_Build_def)
  qed
  with k show ?thesis by blast
qed


section \<open>The properties on a cluster in memory\<close>

text \<open>One registered instance, of a service \<^verbatim>\<open>ab\<close>, and what the cluster then holds.\<close>

abbreviation ab_instance :: service_instance where
  "ab_instance \<equiv> \<lparr>siName = [97, 98], siAddress = [49], siWeight = 3, siGroup = []\<rparr>"

abbreviation ab_content :: "(go_string \<times> bytes) list" where
  "ab_content \<equiv> [(instanceKey ab_instance, marshal_struct (instance_fields ab_instance))]"

lemma ab_facts:
  "list_all (plain_instance \<circ> op_instance) [OpRegister ab_instance]"
  "reg_run memory_etcd [OpRegister ab_instance] [] = Some ab_content"
  "ListServices memory_etcd [97] ab_content = Inr [ab_instance]"
  "ListServices memory_etcd [97, 98] ab_content = Inr [ab_instance]"
  "registered [OpRegister ab_instance] (instanceKey ab_instance) = Some ab_instance"
proof -
  have "plain_instance ab_instance" by (simp add: plain_instance_def)
  from memory_lists [OF this] show "ListServices memory_etcd [97] ab_content = Inr [ab_instance]"
    "ListServices memory_etcd [97, 98] ab_content = Inr [ab_instance]" by simp_all
qed (simp_all add: plain_instance_def memory_register registered_def)

theorem registered_instances_share_calls_witness:
  "\<exists>k. k < length [ab_instance] \<and> [ab_instance] ! k = ab_instance \<and>
    count_list (rr.picks (rr_Build (Some GroupFilter) (dialed siAddress [ab_instance]))
      (replicate (2 * length (filter (\<lambda>j. siGroup j = []) [ab_instance])) (group_call []))) (Inr k) = 2"
  by (rule registered_instances_share_calls [OF memory_etcd_laws _ ab_facts(1,2,4,5)]) simp_all


end
